(* ===== verification/Prelude.thy ===== *)
theory Prelude
  imports Main "HOL-Library.Word" "HOL-Library.Monad_Syntax"
begin

text \<open>
  Shared vocabulary of the development: the widths of the C types, the fault monad and the
  generic lemmas that the component theories use.

  A C or C++ operation that may dereference a pointer is a function into \<open>'a option\<close>:
  \<open>None\<close> stands for behaviour the language leaves undefined (a dereference of \<open>NULL\<close>, of
  memory that was freed, an index outside an array) or for a loop that does not end;
  \<open>Some\<close> is a run that returns.  The theorems about an operation say that it returns.
\<close>

type_synonym u8 = "8 word"
type_synonym u32 = "32 word"
type_synonym u64 = "64 word"

text \<open>
  \<open>fault_simps\<close> collects the equations that evaluate a monadic program step by step,
  \<open>model_defs\<close> the definitions of the translated operations.
\<close>

named_theorems fault_simps "evaluation of programs in the fault monad"
named_theorems model_defs "definitions of translated operations"

lemma bind_Some_eq [fault_simps]: "Option.bind (Some x) f = f x"
  by simp

lemma bind_None_eq [fault_simps]: "Option.bind None f = None"
  by simp

lemma bind_eq_SomeE:
  assumes "Option.bind m f = Some y"
  obtains x where "m = Some x" and "f x = Some y"
  using assms by (cases m) auto

lemma map_upd_other [simp]: "p \<noteq> q \<Longrightarrow> (m(p \<mapsto> x)) q = m q"
  by simp

text \<open>
  \<open>runs m Q\<close>: the program \<open>m\<close> returns, with a result that satisfies \<open>Q\<close> (total correctness).
\<close>

definition runs :: "'a option \<Rightarrow> ('a \<Rightarrow> bool) \<Rightarrow> bool" where
  "runs m Q \<longleftrightarrow> (\<exists>x. m = Some x \<and> Q x)"

lemma runs_Some [simp, fault_simps]: "runs (Some x) Q \<longleftrightarrow> Q x"
  by (simp add: runs_def)

lemma runs_None [simp, fault_simps]: "\<not> runs None Q"
  by (simp add: runs_def)

lemma runsE:
  assumes "runs m Q"
  obtains x where "m = Some x" and "Q x"
  using assms by (auto simp: runs_def)

lemma runs_bind: "runs m Q \<Longrightarrow> (\<And>x. Q x \<Longrightarrow> runs (f x) R) \<Longrightarrow> runs (Option.bind m f) R"
  by (auto simp: runs_def)

lemma runs_conseq: "runs m Q \<Longrightarrow> (\<And>x. Q x \<Longrightarrow> R x) \<Longrightarrow> runs m R"
  by (auto simp: runs_def)

lemma runs_unique: "runs m Q \<Longrightarrow> m = Some x \<Longrightarrow> Q x"
  by (simp add: runs_def)

text \<open>
  The first free address from \<open>a\<close> on, an allocator for concrete runs.
\<close>

partial_function (option) first_free :: "(nat \<Rightarrow> bool) \<Rightarrow> nat \<Rightarrow> nat option" where
  "first_free L a = (if L a then first_free L (Suc a) else Some a)"

lemma first_free_some: "first_free L a = Some b \<Longrightarrow> \<not> L b"
  by (rule first_free.raw_induct [of "\<lambda>L a b. \<not> L b"]) (auto split: if_splits)

lemma first_free_finite:
  assumes "finite {a. L a}"
  shows "first_free L a \<noteq> None"
proof -
  obtain n where n: "\<forall>x \<in> {a. L a}. x < n" using assms finite_nat_set_iff_bounded by blast
  show ?thesis
  proof (induction "n - a" arbitrary: a)
    case 0
    with n have "\<not> L a" by auto
    then show ?case by (subst first_free.simps) simp
  next
    case (Suc j)
    have "j = n - Suc a" using Suc(2) by simp
    from Suc(1) [OF this] show ?case by (subst first_free.simps) simp
  qed
qed

text \<open>
  What \<open>new\<close> returns (it does not return without memory): an address, not \<open>nullptr\<close>, that is not
  in use; the addresses in use determine it.
\<close>

type_synonym new_fun = "(nat \<Rightarrow> bool) \<Rightarrow> nat"

definition new_ok :: "new_fun \<Rightarrow> bool" where
  "new_ok al \<longleftrightarrow> (\<forall>L. al L \<noteq> 0 \<and> (finite {a. L a} \<longrightarrow> \<not> L (al L)))"

definition new_first :: new_fun where
  "new_first L = (case first_free L 1 of Some a \<Rightarrow> if a = 0 then 1 else a | None \<Rightarrow> 1)"

lemma first_free_pos: "first_free L a = Some b \<Longrightarrow> 0 < a \<Longrightarrow> 0 < b"
  by (rule first_free.raw_induct [of "\<lambda>L a b. 0 < a \<longrightarrow> 0 < b", rule_format]) (auto split: if_splits)

lemma new_first_ok: "new_ok new_first"
  unfolding new_ok_def
proof (intro allI conjI impI)
  fix L :: "nat \<Rightarrow> bool"
  show "new_first L \<noteq> 0" by (simp add: new_first_def split: option.split)
  assume "finite {a. L a}"
  then obtain b where b: "first_free L 1 = Some b" using first_free_finite by blast
  with first_free_pos [OF b] first_free_some [OF b] show "\<not> L (new_first L)"
    by (simp add: new_first_def)
qed

lemma new_ok_fresh: "new_ok al \<Longrightarrow> al L \<noteq> 0" "new_ok al \<Longrightarrow> finite {a. L a} \<Longrightarrow> \<not> L (al L)"
  unfolding new_ok_def by blast+

lemma map_of_filter_neq: "map_of (filter (\<lambda>e. fst e \<noteq> k) xs) = (map_of xs)(k := None)"
proof
  show "map_of (filter (\<lambda>e. fst e \<noteq> k) xs) x = ((map_of xs)(k := None)) x" for x
    by (induction xs) auto
qed

lemma map_of_snoc:
  assumes "k \<notin> fst ` set xs"
  shows "map_of (xs @ [(k, v)]) = (map_of xs)(k \<mapsto> v)"
proof
  show "map_of (xs @ [(k, v)]) x = ((map_of xs)(k \<mapsto> v)) x" for x
    using assms by (induction xs) auto
qed

lemma distinct_same:
  assumes "distinct (map f xs)" "x \<in> set xs" "y \<in> set xs" "f x = f y"
  shows "x = y"
  using assms by (meson distinct_map inj_onD)

end
