(* ===== verification/RbTree.thy ===== *)
theory RbTree
  imports Prelude
begin

text \<open>
  The red-black tree of \<open>conhash/util_rbtree.c\<close>, operation by operation, over an explicit
  heap of nodes.

  A tree is the struct \<open>util_rbtree_s\<close> together with the part of the heap its nodes live in:
  \<open>mem\<close> maps an address to the node stored there, and \<open>mem p = None\<close> means that no live node
  is at \<open>p\<close>, so that dereferencing \<open>p\<close> has no defined result.  The sentinel is a field of the
  struct; its address \<open>&(rbtree)->null\<close> is the constructor \<open>Sent\<close>, and \<open>mem Sent\<close> is its
  contents.  The key is a \<open>long\<close>; it is stored and compared only, so it is an \<open>int\<close> here.
\<close>

section \<open>Nodes and trees\<close>

datatype ptr = NULL | Sent | Ref nat

record rbnode =
  key :: int
  parent :: ptr
  right :: ptr
  left :: ptr
  color :: int
  data :: nat

record rbtree =
  root :: ptr
  mem :: "ptr \<rightharpoonup> rbnode"
  rbsize :: u32

text \<open>Assignment to a field of the node at \<open>p\<close>; it has no result when \<open>p\<close> is not live.\<close>

definition store :: "ptr \<Rightarrow> (rbnode \<Rightarrow> rbnode) \<Rightarrow> rbtree \<Rightarrow> rbtree option" where
  "store p f t = (case mem t p of None \<Rightarrow> None
                  | Some n \<Rightarrow> Some (t\<lparr>mem := (mem t)(p \<mapsto> f n)\<rparr>))"

definition set_parent :: "ptr \<Rightarrow> ptr \<Rightarrow> rbtree \<Rightarrow> rbtree option" where
  "set_parent p v = store p (\<lambda>n. n\<lparr>parent := v\<rparr>)"

definition set_left :: "ptr \<Rightarrow> ptr \<Rightarrow> rbtree \<Rightarrow> rbtree option" where
  "set_left p v = store p (\<lambda>n. n\<lparr>left := v\<rparr>)"

definition set_right :: "ptr \<Rightarrow> ptr \<Rightarrow> rbtree \<Rightarrow> rbtree option" where
  "set_right p v = store p (\<lambda>n. n\<lparr>right := v\<rparr>)"

definition set_color :: "ptr \<Rightarrow> int \<Rightarrow> rbtree \<Rightarrow> rbtree option" where
  "set_color p v = store p (\<lambda>n. n\<lparr>color := v\<rparr>)"

text \<open>The macros of \<open>util_rbtree.h\<close>.\<close>

definition util_rbt_black :: "ptr \<Rightarrow> rbtree \<Rightarrow> rbtree option" where
  "util_rbt_black p = set_color p 1"

definition util_rbt_red :: "ptr \<Rightarrow> rbtree \<Rightarrow> rbtree option" where
  "util_rbt_red p = set_color p 0"

definition util_rbt_isblack :: "rbtree \<Rightarrow> ptr \<Rightarrow> bool option" where
  "util_rbt_isblack t p = map_option (\<lambda>n. color n = 1) (mem t p)"

definition util_rbt_isred :: "rbtree \<Rightarrow> ptr \<Rightarrow> bool option" where
  "util_rbt_isred t p = map_option (\<lambda>n. color n = 0) (mem t p)"

definition rbt_clear_node :: "ptr \<Rightarrow> rbtree \<Rightarrow> rbtree option" where
  "rbt_clear_node p t = do {
     t \<leftarrow> set_left p NULL t;
     t \<leftarrow> set_right p NULL t;
     set_parent p NULL t }"

definition util_rbtree_isempty :: "rbtree \<Rightarrow> bool" where
  "util_rbtree_isempty t \<longleftrightarrow> root t = Sent"

definition util_rbtree_init :: "rbtree \<Rightarrow> rbtree option" where
  "util_rbtree_init t = do {
     t \<leftarrow> util_rbt_black Sent t;
     Some (t\<lparr>root := Sent, rbsize := 0\<rparr>) }"

section \<open>Walks\<close>

partial_function (option) subtree_min_loop :: "rbtree \<Rightarrow> ptr \<Rightarrow> ptr option" where
  "subtree_min_loop t node = do {
     n \<leftarrow> mem t node;
     (if left n \<noteq> Sent then subtree_min_loop t (left n) else Some node) }"

definition util_rbsubtree_min :: "rbtree \<Rightarrow> ptr \<Rightarrow> ptr option" where
  "util_rbsubtree_min t node = (if node = Sent then Some NULL else subtree_min_loop t node)"

partial_function (option) subtree_max_loop :: "rbtree \<Rightarrow> ptr \<Rightarrow> ptr option" where
  "subtree_max_loop t node = do {
     n \<leftarrow> mem t node;
     (if right n \<noteq> Sent then subtree_max_loop t (right n) else Some node) }"

definition util_rbsubtree_max :: "rbtree \<Rightarrow> ptr \<Rightarrow> ptr option" where
  "util_rbsubtree_max t node = (if node = Sent then Some NULL else subtree_max_loop t node)"

partial_function (option) search_loop :: "rbtree \<Rightarrow> int \<Rightarrow> ptr \<Rightarrow> ptr option" where
  "search_loop t k node =
     (if node = Sent then Some NULL
      else do {
        n \<leftarrow> mem t node;
        (if k < key n then search_loop t k (left n)
         else if k > key n then search_loop t k (right n)
         else Some node) })"

definition util_rbtree_search :: "rbtree \<Rightarrow> int \<Rightarrow> ptr option" where
  "util_rbtree_search t k = search_loop t k (root t)"

text \<open>The loop of \<open>util_rbtree_lookup\<close>: \<open>node\<close> is the best candidate so far.\<close>

partial_function (option) lookup_loop :: "rbtree \<Rightarrow> int \<Rightarrow> ptr \<Rightarrow> ptr \<Rightarrow> ptr option" where
  "lookup_loop t k node temp =
     (if temp = Sent then Some node
      else do {
        n \<leftarrow> mem t temp;
        (if k \<le> key n then lookup_loop t k temp (left n)
         else lookup_loop t k node (right n)) })"

definition util_rbtree_lookup :: "rbtree \<Rightarrow> int \<Rightarrow> ptr option" where
  "util_rbtree_lookup t k =
     (if util_rbtree_isempty t then Some NULL
      else do {
        node \<leftarrow> lookup_loop t k NULL (root t);
        (if node \<noteq> NULL then Some node else util_rbsubtree_min t (root t)) })"

text \<open>The in-order traversal, with the callback \<open>opera\<close> acting on the caller's data.\<close>

partial_function (option) rbtree_mid_travel ::
    "rbtree \<Rightarrow> (rbnode \<Rightarrow> 's \<Rightarrow> 's) \<Rightarrow> ptr \<Rightarrow> 's \<Rightarrow> 's option" where
  "rbtree_mid_travel t opera node s = do {
     n \<leftarrow> mem t node;
     s \<leftarrow> (if left n \<noteq> Sent then rbtree_mid_travel t opera (left n) s else Some s);
     (if right n \<noteq> Sent then rbtree_mid_travel t opera (right n) (opera n s)
      else Some (opera n s)) }"

definition util_rbtree_mid_travel ::
    "rbtree \<Rightarrow> (rbnode \<Rightarrow> 's \<Rightarrow> 's) \<Rightarrow> 's \<Rightarrow> 's option" where
  "util_rbtree_mid_travel t opera s =
     (if util_rbtree_isempty t then Some s else rbtree_mid_travel t opera (root t) s)"

section \<open>Rotations\<close>

definition rbtree_left_rotate :: "rbtree \<Rightarrow> ptr \<Rightarrow> rbtree option" where
  "rbtree_left_rotate t node = do {
     n \<leftarrow> mem t node;
     let rc = right n;
     r \<leftarrow> mem t rc;
     let rclc = left r;
     t \<leftarrow> set_parent rc (parent n) t;
     t \<leftarrow> (if node = root t then Some (t\<lparr>root := rc\<rparr>)
          else do {
            n \<leftarrow> mem t node;
            p \<leftarrow> mem t (parent n);
            (if left p = node then set_left (parent n) rc t
             else set_right (parent n) rc t) });
     t \<leftarrow> set_parent node rc t;
     t \<leftarrow> set_left rc node t;
     t \<leftarrow> set_right node rclc t;
     (if rclc \<noteq> Sent then set_parent rclc node t else Some t) }"

definition rbtree_right_rotate :: "rbtree \<Rightarrow> ptr \<Rightarrow> rbtree option" where
  "rbtree_right_rotate t node = do {
     n \<leftarrow> mem t node;
     let lc = left n;
     l \<leftarrow> mem t lc;
     let lcrc = right l;
     t \<leftarrow> set_parent lc (parent n) t;
     t \<leftarrow> (if node = root t then Some (t\<lparr>root := lc\<rparr>)
          else do {
            n \<leftarrow> mem t node;
            p \<leftarrow> mem t (parent n);
            (if left p = node then set_left (parent n) lc t
             else set_right (parent n) lc t) });
     t \<leftarrow> set_right lc node t;
     t \<leftarrow> set_parent node lc t;
     t \<leftarrow> set_left node lcrc t;
     (if lcrc \<noteq> Sent then set_parent lcrc node t else Some t) }"

section \<open>Insertion\<close>

text \<open>
  One iteration of the loop of \<open>rbtree_insert_fixup\<close>: the node's parent is red.  The result is
  the tree and the node of the next iteration.
\<close>

definition insert_fixup_step :: "rbtree \<Rightarrow> ptr \<Rightarrow> (rbtree \<times> ptr) option" where
  "insert_fixup_step t node = do {
     n \<leftarrow> mem t node;
     let p = parent n;
     pn \<leftarrow> mem t p;
     gn \<leftarrow> mem t (parent pn);
     (if p = left gn then do {
        let u = right gn;
        ured \<leftarrow> util_rbt_isred t u;
        (if ured then do {
           t \<leftarrow> util_rbt_black u t;
           t \<leftarrow> util_rbt_black p t;
           pn \<leftarrow> mem t p;
           t \<leftarrow> util_rbt_red (parent pn) t;
           pn \<leftarrow> mem t p;
           Some (t, parent pn) }
         else do {
           (t, node, p) \<leftarrow> (if node = right pn then do {
                let node = p;
                t \<leftarrow> rbtree_left_rotate t node;
                n \<leftarrow> mem t node;
                Some (t, node, parent n) }
              else Some (t, node, p));
           t \<leftarrow> util_rbt_black p t;
           pn \<leftarrow> mem t p;
           t \<leftarrow> util_rbt_red (parent pn) t;
           pn \<leftarrow> mem t p;
           t \<leftarrow> rbtree_right_rotate t (parent pn);
           Some (t, node) }) }
      else do {
        let u = left gn;
        ured \<leftarrow> util_rbt_isred t u;
        (if ured then do {
           t \<leftarrow> util_rbt_black u t;
           t \<leftarrow> util_rbt_black p t;
           pn \<leftarrow> mem t p;
           t \<leftarrow> util_rbt_red (parent pn) t;
           pn \<leftarrow> mem t p;
           Some (t, parent pn) }
         else do {
           (t, node, p) \<leftarrow> (if left pn = node then do {
                let node = p;
                t \<leftarrow> rbtree_right_rotate t node;
                n \<leftarrow> mem t node;
                Some (t, node, parent n) }
              else Some (t, node, p));
           t \<leftarrow> util_rbt_black p t;
           pn \<leftarrow> mem t p;
           t \<leftarrow> util_rbt_red (parent pn) t;
           pn \<leftarrow> mem t p;
           t \<leftarrow> rbtree_left_rotate t (parent pn);
           Some (t, node) }) }) }"

partial_function (option) insert_fixup_loop :: "rbtree \<Rightarrow> ptr \<Rightarrow> rbtree option" where
  "insert_fixup_loop t node = do {
     n \<leftarrow> mem t node;
     pred \<leftarrow> util_rbt_isred t (parent n);
     (if pred then do {
        (t, node) \<leftarrow> insert_fixup_step t node;
        insert_fixup_loop t node }
      else Some t) }"

definition rbtree_insert_fixup :: "rbtree \<Rightarrow> ptr \<Rightarrow> rbtree option" where
  "rbtree_insert_fixup t node = do {
     t \<leftarrow> insert_fixup_loop t node;
     util_rbt_black (root t) t }"

text \<open>The walk to the insert position: the last node visited is the new node's parent.\<close>

partial_function (option) insert_walk :: "rbtree \<Rightarrow> int \<Rightarrow> ptr \<Rightarrow> ptr \<Rightarrow> ptr option" where
  "insert_walk t k x y =
     (if x = Sent then Some y
      else do {
        n \<leftarrow> mem t x;
        (if k < key n then insert_walk t k (left n) x
         else insert_walk t k (right n) x) })"

definition util_rbtree_insert :: "rbtree \<Rightarrow> ptr \<Rightarrow> rbtree option" where
  "util_rbtree_insert t node =
     (if node = NULL \<or> node = Sent then Some t
      else do {
        t \<leftarrow> (if root t = Sent then set_parent node Sent (t\<lparr>root := node\<rparr>)
             else do {
               z \<leftarrow> mem t node;
               y \<leftarrow> insert_walk t (key z) (root t) NULL;
               t \<leftarrow> set_parent node y t;
               yn \<leftarrow> mem t y;
               (if key z < key yn then set_left y node t else set_right y node t) });
        t \<leftarrow> set_left node Sent t;
        t \<leftarrow> set_right node Sent t;
        t \<leftarrow> util_rbt_red node t;
        t \<leftarrow> rbtree_insert_fixup t node;
        Some (t\<lparr>rbsize := rbsize t + 1\<rparr>) })"

section \<open>Deletion\<close>

text \<open>
  One iteration of the loop of \<open>rbtree_delete_fixup\<close>, in the code's three parts: a red sibling
  \<open>w\<close> is rotated away, a red inner nephew is rotated outwards, and the last rotation ends the
  loop by setting \<open>node\<close> to the root.  First for a node that is a left child.
\<close>

definition delete_red_left :: "rbtree \<Rightarrow> ptr \<Rightarrow> ptr \<Rightarrow> (rbtree \<times> ptr) option" where
  "delete_red_left t node w = do {
     wred \<leftarrow> util_rbt_isred t w;
     (if wred then do {
        t \<leftarrow> util_rbt_black w t;
        n \<leftarrow> mem t node;
        t \<leftarrow> util_rbt_red (parent n) t;
        n \<leftarrow> mem t node;
        t \<leftarrow> rbtree_left_rotate t (parent n);
        n \<leftarrow> mem t node;
        pn \<leftarrow> mem t (parent n);
        Some (t, right pn) }
      else Some (t, w)) }"

definition delete_inner_left :: "rbtree \<Rightarrow> ptr \<Rightarrow> ptr \<Rightarrow> (rbtree \<times> ptr) option" where
  "delete_inner_left t node w = do {
     wn \<leftarrow> mem t w;
     ob \<leftarrow> util_rbt_isblack t (right wn);
     (if ob then do {
        t \<leftarrow> util_rbt_black (left wn) t;
        t \<leftarrow> util_rbt_red w t;
        t \<leftarrow> rbtree_right_rotate t w;
        n \<leftarrow> mem t node;
        pn \<leftarrow> mem t (parent n);
        Some (t, right pn) }
      else Some (t, w)) }"

definition delete_outer_left :: "rbtree \<Rightarrow> ptr \<Rightarrow> ptr \<Rightarrow> (rbtree \<times> ptr) option" where
  "delete_outer_left t node w = do {
     n \<leftarrow> mem t node;
     pn \<leftarrow> mem t (parent n);
     t \<leftarrow> set_color w (color pn) t;
     n \<leftarrow> mem t node;
     t \<leftarrow> util_rbt_black (parent n) t;
     wn \<leftarrow> mem t w;
     t \<leftarrow> util_rbt_black (right wn) t;
     n \<leftarrow> mem t node;
     t \<leftarrow> rbtree_left_rotate t (parent n);
     Some (t, root t) }"

definition delete_fixup_left :: "rbtree \<Rightarrow> ptr \<Rightarrow> ptr \<Rightarrow> (rbtree \<times> ptr) option" where
  "delete_fixup_left t node w = do {
     (t, w) \<leftarrow> delete_red_left t node w;
     wn \<leftarrow> mem t w;
     lb \<leftarrow> util_rbt_isblack t (left wn);
     rb \<leftarrow> (if lb then util_rbt_isblack t (right wn) else Some False);
     (if lb \<and> rb then do {
        t \<leftarrow> util_rbt_red w t;
        n \<leftarrow> mem t node;
        Some (t, parent n) }
      else do {
        (t, w) \<leftarrow> delete_inner_left t node w;
        delete_outer_left t node w }) }"

text \<open>The same for a right child.\<close>

definition delete_red_right :: "rbtree \<Rightarrow> ptr \<Rightarrow> ptr \<Rightarrow> (rbtree \<times> ptr) option" where
  "delete_red_right t node w = do {
     wred \<leftarrow> util_rbt_isred t w;
     (if wred then do {
        t \<leftarrow> util_rbt_black w t;
        n \<leftarrow> mem t node;
        t \<leftarrow> util_rbt_red (parent n) t;
        n \<leftarrow> mem t node;
        t \<leftarrow> rbtree_right_rotate t (parent n);
        n \<leftarrow> mem t node;
        pn \<leftarrow> mem t (parent n);
        Some (t, left pn) }
      else Some (t, w)) }"

definition delete_inner_right :: "rbtree \<Rightarrow> ptr \<Rightarrow> ptr \<Rightarrow> (rbtree \<times> ptr) option" where
  "delete_inner_right t node w = do {
     wn \<leftarrow> mem t w;
     ob \<leftarrow> util_rbt_isblack t (left wn);
     (if ob then do {
        t \<leftarrow> util_rbt_black (right wn) t;
        t \<leftarrow> util_rbt_red w t;
        t \<leftarrow> rbtree_left_rotate t w;
        n \<leftarrow> mem t node;
        pn \<leftarrow> mem t (parent n);
        Some (t, left pn) }
      else Some (t, w)) }"

definition delete_outer_right :: "rbtree \<Rightarrow> ptr \<Rightarrow> ptr \<Rightarrow> (rbtree \<times> ptr) option" where
  "delete_outer_right t node w = do {
     n \<leftarrow> mem t node;
     pn \<leftarrow> mem t (parent n);
     t \<leftarrow> set_color w (color pn) t;
     n \<leftarrow> mem t node;
     t \<leftarrow> util_rbt_black (parent n) t;
     wn \<leftarrow> mem t w;
     t \<leftarrow> util_rbt_black (left wn) t;
     n \<leftarrow> mem t node;
     t \<leftarrow> rbtree_right_rotate t (parent n);
     Some (t, root t) }"

definition delete_fixup_right :: "rbtree \<Rightarrow> ptr \<Rightarrow> ptr \<Rightarrow> (rbtree \<times> ptr) option" where
  "delete_fixup_right t node w = do {
     (t, w) \<leftarrow> delete_red_right t node w;
     wn \<leftarrow> mem t w;
     lb \<leftarrow> util_rbt_isblack t (left wn);
     rb \<leftarrow> (if lb then util_rbt_isblack t (right wn) else Some False);
     (if lb \<and> rb then do {
        t \<leftarrow> util_rbt_red w t;
        n \<leftarrow> mem t node;
        Some (t, parent n) }
      else do {
        (t, w) \<leftarrow> delete_inner_right t node w;
        delete_outer_right t node w }) }"

definition delete_fixup_step :: "rbtree \<Rightarrow> ptr \<Rightarrow> (rbtree \<times> ptr) option" where
  "delete_fixup_step t node = do {
     n \<leftarrow> mem t node;
     pn \<leftarrow> mem t (parent n);
     (if node = left pn then delete_fixup_left t node (right pn)
      else delete_fixup_right t node (left pn)) }"

partial_function (option) delete_fixup_loop :: "rbtree \<Rightarrow> ptr \<Rightarrow> (rbtree \<times> ptr) option" where
  "delete_fixup_loop t node =
     (if node = root t then Some (t, node)
      else do {
        black \<leftarrow> util_rbt_isblack t node;
        (if black then do {
           (t, node) \<leftarrow> delete_fixup_step t node;
           delete_fixup_loop t node }
         else Some (t, node)) })"

definition rbtree_delete_fixup :: "rbtree \<Rightarrow> ptr \<Rightarrow> rbtree option" where
  "rbtree_delete_fixup t node = do {
     (t, node) \<leftarrow> delete_fixup_loop t node;
     util_rbt_black node t }"

text \<open>The node that leaves its position (\<open>temp\<close>) and the one that takes it (\<open>subst\<close>).\<close>

definition delete_target :: "rbtree \<Rightarrow> ptr \<Rightarrow> (ptr \<times> ptr) option" where
  "delete_target t node = do {
     nn \<leftarrow> mem t node;
     (if left nn = Sent then Some (node, right nn)
      else if right nn = Sent then Some (node, left nn)
      else do {
        temp \<leftarrow> util_rbsubtree_min t (right nn);
        tn \<leftarrow> mem t temp;
        Some (temp, if left tn \<noteq> Sent then left tn else right tn) }) }"

text \<open>\<open>subst\<close> takes the position of \<open>temp\<close>.\<close>

definition delete_unlink :: "rbtree \<Rightarrow> ptr \<Rightarrow> ptr \<Rightarrow> ptr \<Rightarrow> rbtree option" where
  "delete_unlink t node temp subst = do {
     tn \<leftarrow> mem t temp;
     t \<leftarrow> (if parent tn = node then set_parent subst temp t
          else set_parent subst (parent tn) t);
     tn \<leftarrow> mem t temp;
     pn \<leftarrow> mem t (parent tn);
     (if temp = left pn then set_left (parent tn) subst t
      else set_right (parent tn) subst t) }"

text \<open>\<open>temp\<close> takes the position, the links and the colour of \<open>node\<close>.\<close>

definition delete_replace :: "rbtree \<Rightarrow> ptr \<Rightarrow> ptr \<Rightarrow> rbtree option" where
  "delete_replace t node temp = do {
     nn \<leftarrow> mem t node;
     t \<leftarrow> set_parent temp (parent nn) t;
     t \<leftarrow> (if node = root t then Some (t\<lparr>root := temp\<rparr>)
          else do {
            nn \<leftarrow> mem t node;
            pn \<leftarrow> mem t (parent nn);
            (if left pn = node then set_left (parent nn) temp t
             else set_right (parent nn) temp t) });
     nn \<leftarrow> mem t node;
     t \<leftarrow> set_right temp (right nn) t;
     nn \<leftarrow> mem t node;
     t \<leftarrow> set_left temp (left nn) t;
     tn \<leftarrow> mem t temp;
     t \<leftarrow> (if left tn \<noteq> Sent then set_parent (left tn) temp t else Some t);
     tn \<leftarrow> mem t temp;
     t \<leftarrow> (if right tn \<noteq> Sent then set_parent (right tn) temp t else Some t);
     nn \<leftarrow> mem t node;
     set_color temp (color nn) t }"

definition util_rbtree_delete :: "rbtree \<Rightarrow> ptr \<Rightarrow> rbtree option" where
  "util_rbtree_delete t node =
     (if node = NULL \<or> node = Sent then Some t
      else do {
        let t = t\<lparr>rbsize := rbsize t - 1\<rparr>;
        (temp, subst) \<leftarrow> delete_target t node;
        (if temp = root t then do {
           t \<leftarrow> util_rbt_black subst (t\<lparr>root := subst\<rparr>);
           rbt_clear_node temp t }
         else do {
           isblack \<leftarrow> util_rbt_isblack t temp;
           t \<leftarrow> delete_unlink t node temp subst;
           t \<leftarrow> (if temp \<noteq> node then delete_replace t node temp else Some t);
           t \<leftarrow> rbt_clear_node node t;
           (if isblack then rbtree_delete_fixup t subst else Some t) }) })"

section \<open>The consistency check\<close>

text \<open>\<open>rbh\<close> and \<open>maxd\<close> are \<open>short\<close>s: what is stored in them wraps at 16 bits.\<close>

definition to_short :: "int \<Rightarrow> int" where
  "to_short x = (x + 2 ^ 15) mod 2 ^ 16 - 2 ^ 15"

record rbcheck =
  rbh :: int
  maxd :: int
  fini :: int

text \<open>
  The label \<open>__check_rb_height\<close> is \<open>check_rb_height\<close>.  As in the code, a node whose left
  child is the sentinel jumps there at once, before its right child is looked at.
\<close>

definition check_rb_height :: "rbcheck \<Rightarrow> int \<Rightarrow> int \<Rightarrow> rbcheck" where
  "check_rb_height c level curheight =
     (let c = (if rbh c = 0 then c\<lparr>rbh := to_short curheight\<rparr> else c);
          c = (if maxd c < level then c\<lparr>maxd := to_short level\<rparr> else c)
      in if rbh c \<noteq> curheight then c\<lparr>fini := 3\<rparr> else c)"

partial_function (option) rbtree_check_subtree ::
    "rbtree \<Rightarrow> ptr \<Rightarrow> rbcheck \<Rightarrow> int \<Rightarrow> int \<Rightarrow> rbcheck option" where
  "rbtree_check_subtree t node c level curheight =
     (if fini c \<noteq> 0 then Some c
      else do {
        n \<leftarrow> mem t node;
        (if color n \<noteq> 1 \<and> color n \<noteq> 0 then Some (c\<lparr>fini := 2\<rparr>)
         else do {
           let curheight = (if color n = 1 then curheight + 1 else curheight);
           (if left n = Sent then Some (check_rb_height c level curheight)
            else do {
              ln \<leftarrow> mem t (left n);
              (if color n = 0 \<and> color ln = 0 then Some (c\<lparr>fini := 4\<rparr>)
               else if key n < key ln then Some (c\<lparr>fini := 5\<rparr>)
               else do {
                 c \<leftarrow> rbtree_check_subtree t (left n) c (level + 1) curheight;
                 (if right n = Sent then Some (check_rb_height c level curheight)
                  else do {
                    rn \<leftarrow> mem t (right n);
                    (if color n = 0 \<and> color rn = 0 then Some (c\<lparr>fini := 4\<rparr>)
                     else if key n > key rn then Some (c\<lparr>fini := 5\<rparr>)
                     else rbtree_check_subtree t (right n) c (level + 1) curheight) }) }) }) }) })"

text \<open>
  \<open>util_rbtree_check\<close> returns its code together with what it stores through \<open>blackheight\<close> and
  \<open>maxdepth\<close>; the early returns store nothing (\<open>None\<close>).
\<close>

definition util_rbtree_check :: "rbtree \<Rightarrow> (int \<times> (int \<times> int) option) option" where
  "util_rbtree_check t =
     (if root t = Sent then Some (0, None)
      else do {
        black \<leftarrow> util_rbt_isblack t (root t);
        (if \<not> black then Some (1, None)
         else do {
           c \<leftarrow> rbtree_check_subtree t (root t) \<lparr>rbh = 0, maxd = 0, fini = 0\<rparr> 1 0;
           Some (fini c, Some (rbh c, maxd c)) }) })"

end
