(* ===== verification/RbAbs.thy ===== *)
theory RbAbs
  imports RbTree "HOL-Library.Multiset"
begin

text \<open>
  Abstract red-black trees and how the heap of \<open>RbTree\<close> represents them.

  \<open>rbt\<close> is an inductive tree whose nodes carry the address, key, colour and data of the heap
  node they stand for.  \<open>rep\<close> says that a heap holds a tree (every link, both ways), a list of
  frames is the path from a subtree up to the root, and \<open>tree_rel\<close> relates a whole C tree to an
  abstract one.  The lemmas of this theory give the effect of each heap operation (a store of a
  colour, a rotation) as an operation on the abstract tree at the end of a path.
\<close>

section \<open>Abstract trees and paths\<close>

datatype rbt = Lf | Nd rbt ptr int int nat rbt

fun raddr :: "rbt \<Rightarrow> ptr" where
  "raddr Lf = Sent"
| "raddr (Nd l a k c d r) = a"

fun addrs :: "rbt \<Rightarrow> ptr list" where
  "addrs Lf = []"
| "addrs (Nd l a k c d r) = addrs l @ a # addrs r"

text \<open>The colour that the macros read: the sentinel is black.\<close>

fun rcolor :: "rbt \<Rightarrow> int" where
  "rcolor Lf = 1"
| "rcolor (Nd l a k c d r) = c"

fun paint :: "int \<Rightarrow> rbt \<Rightarrow> rbt" where
  "paint c' Lf = Lf"
| "paint c' (Nd l a k c d r) = Nd l a k c' d r"

datatype frame = FL ptr int int nat rbt | FR rbt ptr int int nat

fun faddr :: "frame \<Rightarrow> ptr" where
  "faddr (FL a k c d r) = a"
| "faddr (FR l a k c d) = a"

fun plugf :: "frame \<Rightarrow> rbt \<Rightarrow> rbt" where
  "plugf (FL a k c d r) t = Nd t a k c d r"
| "plugf (FR l a k c d) t = Nd l a k c d t"

fun plug :: "frame list \<Rightarrow> rbt \<Rightarrow> rbt" where
  "plug [] t = t"
| "plug (f # C) t = plug C (plugf f t)"

lemma plug_append [simp]: "plug (C @ D) t = plug D (plug C t)"
  by (induction C arbitrary: t) auto

fun faddrs :: "frame \<Rightarrow> ptr list" where
  "faddrs (FL a k c d r) = a # addrs r"
| "faddrs (FR l a k c d) = a # addrs l"

definition caddrs :: "frame list \<Rightarrow> ptr list" where
  "caddrs C = concat (map faddrs C)"

lemma caddrs_simps [simp]:
  "caddrs [] = []" "caddrs (f # C) = faddrs f @ caddrs C"
  "caddrs (C @ D) = caddrs C @ caddrs D"
  by (simp_all add: caddrs_def)

lemma mset_addrs_plug: "mset (addrs (plug C t)) = mset (caddrs C) + mset (addrs t)"
proof (induction C arbitrary: t)
  case (Cons f C)
  then show ?case by (cases f) (auto simp: union_ac)
qed simp

lemma set_addrs_plug [simp]: "set (addrs (plug C t)) = set (caddrs C) \<union> set (addrs t)"
  by (metis mset_addrs_plug set_mset_mset set_mset_union)

lemma distinct_addrs_plug [simp]:
  "distinct (addrs (plug C t)) \<longleftrightarrow> distinct (caddrs C @ addrs t)"
  by (metis mset_addrs_plug mset_append mset_eq_imp_distinct_iff)

lemma addrs_paint [simp]: "addrs (paint c t) = addrs t"
  by (cases t) auto

lemma raddr_paint [simp]: "raddr (paint c t) = raddr t"
  by (cases t) auto

lemma raddr_plugf [simp]: "raddr (plugf f t) = faddr f"
  by (cases f) auto

section \<open>Representation in the heap\<close>

fun rep :: "(ptr \<rightharpoonup> rbnode) \<Rightarrow> ptr \<Rightarrow> rbt \<Rightarrow> bool" where
  "rep h p Lf = True"
| "rep h p (Nd l a k c d r) =
     (h a = Some \<lparr>key = k, parent = p, right = raddr r, left = raddr l, color = c, data = d\<rparr>
      \<and> rep h a l \<and> rep h a r)"

text \<open>The parent link of the subtree at the end of a path; \<open>rp\<close> is that of the root.\<close>

fun ctop :: "ptr \<Rightarrow> frame list \<Rightarrow> ptr" where
  "ctop rp [] = rp"
| "ctop rp (f # C) = faddr f"

fun frep :: "(ptr \<rightharpoonup> rbnode) \<Rightarrow> ptr \<Rightarrow> frame \<Rightarrow> ptr \<Rightarrow> bool" where
  "frep h p (FL a k c d r) q =
     (h a = Some \<lparr>key = k, parent = p, right = raddr r, left = q, color = c, data = d\<rparr>
      \<and> rep h a r)"
| "frep h p (FR l a k c d) q =
     (h a = Some \<lparr>key = k, parent = p, right = q, left = raddr l, color = c, data = d\<rparr>
      \<and> rep h a l)"

fun crep :: "(ptr \<rightharpoonup> rbnode) \<Rightarrow> ptr \<Rightarrow> frame list \<Rightarrow> ptr \<Rightarrow> bool" where
  "crep h rp [] q = True"
| "crep h rp (f # C) q = (frep h (ctop rp C) f q \<and> crep h rp C (faddr f))"

lemma rep_plug:
  "rep h rp (plug C t) \<longleftrightarrow> crep h rp C (raddr t) \<and> rep h (ctop rp C) t"
proof (induction C arbitrary: t)
  case (Cons f C)
  then show ?case by (cases f) auto
qed simp

lemma rep_upd [simp]: "a \<notin> set (addrs t) \<Longrightarrow> rep (h(a := v)) p t = rep h p t"
  by (induction t arbitrary: p) auto

lemma frep_upd [simp]: "a \<notin> set (faddrs f) \<Longrightarrow> frep (h(a := v)) p f q = frep h p f q"
  by (cases f) auto

lemma crep_upd [simp]: "a \<notin> set (caddrs C) \<Longrightarrow> crep (h(a := v)) rp C q = crep h rp C q"
  by (induction C arbitrary: q) auto

lemma rep_live: "rep h p t \<Longrightarrow> a \<in> set (addrs t) \<Longrightarrow> \<exists>n. h a = Some n"
  by (induction t arbitrary: p) auto

text \<open>A C tree and the abstract tree it holds.\<close>

definition tree_rel :: "rbtree \<Rightarrow> ptr \<Rightarrow> rbt \<Rightarrow> bool" where
  "tree_rel t rp T \<longleftrightarrow>
     root t = raddr T \<and> rep (mem t) rp T \<and> distinct (addrs T) \<and>
     NULL \<notin> set (addrs T) \<and> Sent \<notin> set (addrs T) \<and>
     mem t NULL = None \<and> (\<exists>s. mem t Sent = Some s \<and> color s = 1)"

text \<open>
  What an operation on the nodes of \<open>A\<close> leaves alone: the set of live nodes, every node outside
  \<open>A\<close> and the stored size.
\<close>

definition frame_rel :: "ptr set \<Rightarrow> rbtree \<Rightarrow> rbtree \<Rightarrow> bool" where
  "frame_rel A t t' \<longleftrightarrow>
     dom (mem t') = dom (mem t) \<and> (\<forall>p. p \<notin> A \<longrightarrow> mem t' p = mem t p) \<and> rbsize t' = rbsize t"

lemma frame_rel_refl [simp]: "frame_rel A t t"
  by (simp add: frame_rel_def)

lemma frame_rel_trans:
  "frame_rel A t t' \<Longrightarrow> frame_rel A t' t'' \<Longrightarrow> frame_rel A t t''"
  by (simp add: frame_rel_def)

lemma frame_rel_mono: "frame_rel A t t' \<Longrightarrow> A \<subseteq> B \<Longrightarrow> frame_rel B t t'"
  by (auto simp: frame_rel_def)

lemmas store_defs =
  store_def set_parent_def set_left_def set_right_def set_color_def
  util_rbt_black_def util_rbt_red_def

section \<open>Reading and painting a node\<close>

lemma tree_rel_node:
  assumes "tree_rel t rp (plug C (Nd l a k c d r))"
  shows "mem t a = Some \<lparr>key = k, parent = ctop rp C, right = raddr r, left = raddr l,
                          color = c, data = d\<rparr>"
  using assms by (simp add: tree_rel_def rep_plug)

lemma tree_rel_color:
  assumes "tree_rel t rp (plug C s)"
  shows "\<exists>n. mem t (raddr s) = Some n \<and> color n = rcolor s"
proof (cases s)
  case Lf
  with assms show ?thesis by (auto simp: tree_rel_def)
next
  case (Nd l a k c d r)
  with assms show ?thesis by (simp add: tree_rel_node)
qed

lemma tree_rel_isred:
  "tree_rel t rp (plug C s) \<Longrightarrow> util_rbt_isred t (raddr s) = Some (rcolor s = 0)"
  by (auto simp: util_rbt_isred_def dest: tree_rel_color)

lemma tree_rel_isblack:
  "tree_rel t rp (plug C s) \<Longrightarrow> util_rbt_isblack t (raddr s) = Some (rcolor s = 1)"
  by (auto simp: util_rbt_isblack_def dest: tree_rel_color)

lemma set_color_tree_rel:
  assumes "tree_rel t rp (plug C (Nd l a k c d r))"
  shows "\<exists>t'. set_color a c' t = Some t' \<and> tree_rel t' rp (plug C (Nd l a k c' d r)) \<and>
              frame_rel {a} t t' \<and> root t' = root t"
proof -
  have "raddr (plug C (Nd l a k c' d r)) = raddr (plug C (Nd l a k c d r))"
    by (cases C rule: rev_cases) auto
  with assms show ?thesis
    by (auto simp: tree_rel_def store_defs rep_plug frame_rel_def)
qed

section \<open>Rotations\<close>

lemma raddr_plug: "raddr (plug C t) = (if C = [] then raddr t else faddr (last C))"
  by (cases C rule: rev_cases) auto

lemma faddr_in [simp]: "faddr f \<in> set (faddrs f)"
  by (cases f) auto

lemma last_faddr_in: "C \<noteq> [] \<Longrightarrow> faddr (last C) \<in> set (caddrs C)"
  by (cases C rule: rev_cases) auto

lemma root_neq:
  assumes "tree_rel t rp (plug C (Nd l a k c d r))" and "C \<noteq> []"
  shows "root t \<noteq> a"
proof -
  have "root t = faddr (last C)"
    using assms by (simp add: tree_rel_def raddr_plug)
  moreover have "faddr (last C) \<in> set (caddrs C)"
    using assms(2) by (rule last_faddr_in)
  ultimately show ?thesis
    using assms(1) by (auto simp: tree_rel_def)
qed

text \<open>The heap after a rotation, spelled out: the links of at most four nodes change.\<close>

definition set_child :: "ptr \<Rightarrow> ptr \<Rightarrow> rbnode \<Rightarrow> rbnode" where
  "set_child a b n = (if left n = a then n\<lparr>left := b\<rparr> else n\<lparr>right := b\<rparr>)"

definition set_up :: "ptr \<Rightarrow> ptr \<Rightarrow> (ptr \<rightharpoonup> rbnode) \<Rightarrow> (ptr \<rightharpoonup> rbnode)" where
  "set_up m a h = (if m = Sent then h
                   else case h m of None \<Rightarrow> h | Some n \<Rightarrow> h(m \<mapsto> n\<lparr>parent := a\<rparr>))"

lemma set_up_other [simp]: "p \<noteq> m \<Longrightarrow> set_up m a h p = h p"
  by (auto simp: set_up_def split: option.splits)

lemma dom_set_up [simp]: "dom (set_up m a h) = dom h"
  by (auto simp: set_up_def split: option.splits)

lemma rep_set_up_other [simp]: "m \<notin> set (addrs t) \<Longrightarrow> rep (set_up m a h) p t = rep h p t"
  by (auto simp: set_up_def split: option.splits)

lemma crep_set_up_other [simp]:
  "m \<notin> set (caddrs C) \<Longrightarrow> crep (set_up m a h) rp C q = crep h rp C q"
  by (auto simp: set_up_def split: option.splits)

lemma rep_set_up:
  "rep h b t \<Longrightarrow> distinct (addrs t) \<Longrightarrow> Sent \<notin> set (addrs t) \<Longrightarrow> rep (set_up (raddr t) a h) a t"
  by (cases t) (auto simp: set_up_def)

lemma rep_Lf_or_set_up [simp]: "set_up Sent a h = h"
  by (simp add: set_up_def)

lemma raddr_cases: "raddr t = Sent \<or> raddr t \<in> set (addrs t)"
  by (cases t) auto

text \<open>Redirecting the child link that leads into a path.\<close>

definition set_hole :: "ptr \<Rightarrow> ptr \<Rightarrow> ptr \<Rightarrow> (ptr \<rightharpoonup> rbnode) \<Rightarrow> (ptr \<rightharpoonup> rbnode)" where
  "set_hole p a b h = (case h p of None \<Rightarrow> h | Some n \<Rightarrow> h(p \<mapsto> set_child a b n))"

lemma set_hole_other [simp]: "q \<noteq> p \<Longrightarrow> set_hole p a b h q = h q"
  by (auto simp: set_hole_def split: option.splits)

lemma dom_set_hole [simp]: "dom (set_hole p a b h) = dom h"
  by (auto simp: set_hole_def split: option.splits)

lemma rep_set_hole_other [simp]: "p \<notin> set (addrs t) \<Longrightarrow> rep (set_hole p a b h) q t = rep h q t"
  by (auto simp: set_hole_def split: option.splits)

lemma crep_set_hole:
  assumes "crep h rp (f # C) a" and "distinct (caddrs (f # C))"
    and "a \<noteq> Sent" and "a \<notin> set (caddrs (f # C))"
  shows "crep (set_hole (faddr f) a b h) rp (f # C) b"
proof (cases f)
  case (FL x k c d r)
  with assms show ?thesis by (auto simp: set_hole_def set_child_def)
next
  case (FR l x k c d)
  with assms raddr_cases [of l] show ?thesis by (auto simp: set_hole_def set_child_def)
qed

lemma left_rotate_root:
  assumes "mem t a = Some n" "right n = b" "mem t b = Some bn" "left bn = m" "root t = a"
    and "a \<noteq> b" and "m \<noteq> Sent \<Longrightarrow> mem t m \<noteq> None \<and> m \<noteq> a \<and> m \<noteq> b"
  shows "rbtree_left_rotate t a =
    Some (t\<lparr>root := b, mem := set_up m a
              ((mem t)(a \<mapsto> n\<lparr>parent := b, right := m\<rparr>, b \<mapsto> bn\<lparr>parent := parent n, left := a\<rparr>))\<rparr>)"
  using assms by (auto simp: rbtree_left_rotate_def store_defs set_up_def fun_upd_twist)

lemma left_rotate_inner:
  assumes "mem t a = Some n" "right n = b" "mem t b = Some bn" "left bn = m" "root t \<noteq> a"
    and "a \<noteq> b" and "m \<noteq> Sent \<Longrightarrow> mem t m \<noteq> None \<and> m \<noteq> a \<and> m \<noteq> b \<and> m \<noteq> parent n"
    and "mem t (parent n) = Some pn" "parent n \<noteq> a" "parent n \<noteq> b"
  shows "rbtree_left_rotate t a =
    Some (t\<lparr>mem := set_up m a (set_hole (parent n) a b
              ((mem t)(a \<mapsto> n\<lparr>parent := b, right := m\<rparr>, b \<mapsto> bn\<lparr>parent := parent n, left := a\<rparr>)))\<rparr>)"
proof -
  have [simp]: "a \<noteq> root t" "b \<noteq> a" "a \<noteq> parent n" "b \<noteq> parent n"
    using assms by auto
  from assms show ?thesis
    by (auto simp: rbtree_left_rotate_def store_defs set_up_def set_hole_def set_child_def
                   fun_upd_twist)
qed

lemma right_rotate_root:
  assumes "mem t a = Some n" "left n = b" "mem t b = Some bn" "right bn = m" "root t = a"
    and "a \<noteq> b" and "m \<noteq> Sent \<Longrightarrow> mem t m \<noteq> None \<and> m \<noteq> a \<and> m \<noteq> b"
  shows "rbtree_right_rotate t a =
    Some (t\<lparr>root := b, mem := set_up m a
              ((mem t)(a \<mapsto> n\<lparr>parent := b, left := m\<rparr>, b \<mapsto> bn\<lparr>parent := parent n, right := a\<rparr>))\<rparr>)"
  using assms by (auto simp: rbtree_right_rotate_def store_defs set_up_def fun_upd_twist)

lemma right_rotate_inner:
  assumes "mem t a = Some n" "left n = b" "mem t b = Some bn" "right bn = m" "root t \<noteq> a"
    and "a \<noteq> b" and "m \<noteq> Sent \<Longrightarrow> mem t m \<noteq> None \<and> m \<noteq> a \<and> m \<noteq> b \<and> m \<noteq> parent n"
    and "mem t (parent n) = Some pn" "parent n \<noteq> a" "parent n \<noteq> b"
  shows "rbtree_right_rotate t a =
    Some (t\<lparr>mem := set_up m a (set_hole (parent n) a b
              ((mem t)(a \<mapsto> n\<lparr>parent := b, left := m\<rparr>, b \<mapsto> bn\<lparr>parent := parent n, right := a\<rparr>)))\<rparr>)"
proof -
  have [simp]: "a \<noteq> root t" "b \<noteq> a" "a \<noteq> parent n" "b \<noteq> parent n"
    using assms by auto
  from assms show ?thesis
    by (auto simp: rbtree_right_rotate_def store_defs set_up_def set_hole_def set_child_def
                   fun_upd_twist)
qed

text \<open>
  The part of the proof that the two rotations and their two cases share: \<open>x\<close> and \<open>y\<close> are the
  nodes that change places and \<open>m\<close> is the subtree that changes its parent.
\<close>

lemma rotated_rep:
  assumes rep: "rep h y m" "crep h rp C x"
    and dist: "distinct (caddrs C @ addrs m)" and fresh: "x \<notin> set (caddrs C)" "y \<notin> set (caddrs C)"
      "x \<notin> set (addrs m)" "y \<notin> set (addrs m)" "x \<noteq> Sent" "Sent \<notin> set (caddrs C @ addrs m)"
    and h': "h' = set_up (raddr m) x ((if C = [] then id else set_hole (ctop rp C) x y)
                    (h(x \<mapsto> nx, y \<mapsto> ny)))"
  shows "rep h' x m" and "crep h' rp C y"
    and "\<And>t p. \<lbrakk>rep h p t; set (addrs t) \<inter> (set (caddrs C) \<union> set (addrs m)) = {};
              x \<notin> set (addrs t); y \<notin> set (addrs t); Sent \<notin> set (addrs t)\<rbrakk> \<Longrightarrow> rep h' p t"
    and "\<lbrakk>x \<noteq> raddr m; x \<noteq> y\<rbrakk> \<Longrightarrow> h' x = Some nx" and "y \<noteq> raddr m \<Longrightarrow> h' y = Some ny"
    and "\<And>p. \<lbrakk>p \<noteq> x; p \<noteq> y; p \<notin> set (caddrs C); p \<notin> set (addrs m)\<rbrakk> \<Longrightarrow> h' p = h p"
    and "\<lbrakk>x \<in> dom h; y \<in> dom h\<rbrakk> \<Longrightarrow> dom h' = dom h"
proof -
  have m: "raddr m \<notin> set (caddrs C)"
    using dist fresh(6) raddr_cases [of m] by auto
  have top: "C \<noteq> [] \<Longrightarrow> ctop rp C \<in> set (caddrs C)" by (cases C) auto
  let ?h = "h(x \<mapsto> nx, y \<mapsto> ny)"
  let ?g = "(if C = [] then id else set_hole (ctop rp C) x y) ?h"
  have other: "p \<noteq> x \<Longrightarrow> p \<noteq> y \<Longrightarrow> p \<notin> set (caddrs C) \<Longrightarrow> ?g p = h p" for p
    using top by (cases "C = []"; cases "p = ctop rp C") auto
  have rep_other: "rep ?g p t = rep h p t"
    if "set (addrs t) \<inter> set (caddrs C) = {}" "x \<notin> set (addrs t)" "y \<notin> set (addrs t)" for p t
  proof -
    have "C \<noteq> [] \<Longrightarrow> ctop rp C \<notin> set (addrs t)" using that top by blast
    with that show ?thesis by (cases "C = []") auto
  qed
  show "rep h' x m"
  proof -
    have "set (addrs m) \<inter> set (caddrs C) = {}" using dist by auto
    from rep_other [OF this fresh(3,4), of y] rep(1) have "rep ?g y m" by simp
    then show ?thesis unfolding h' using dist fresh by (intro rep_set_up) auto
  qed
  have "crep ?g rp C y"
  proof (cases C)
    case (Cons f C')
    have "crep ?h rp (f # C') x" using rep(2) fresh Cons by simp
    from crep_set_hole [OF this] Cons dist fresh show ?thesis by (simp add: Int_Un_distrib)
  qed simp
  then show "crep h' rp C y" using m by (simp add: h')
  show "rep h' p t" if "rep h p t" "set (addrs t) \<inter> (set (caddrs C) \<union> set (addrs m)) = {}"
      "x \<notin> set (addrs t)" "y \<notin> set (addrs t)" "Sent \<notin> set (addrs t)" for t p
  proof -
    have "raddr m \<notin> set (addrs t)"
      using that raddr_cases [of m] by auto
    with that rep_other [of t p] show ?thesis by (auto simp: h' Int_Un_distrib)
  qed
  show "h' x = Some nx" if "x \<noteq> raddr m" "x \<noteq> y"
    using that top fresh by (cases "C = []"; cases "x = ctop rp C") (auto simp: h')
  show "h' y = Some ny" if "y \<noteq> raddr m"
    using that top fresh by (cases "C = []"; cases "y = ctop rp C") (auto simp: h')
  show "h' p = h p" if "p \<noteq> x" "p \<noteq> y" "p \<notin> set (caddrs C)" "p \<notin> set (addrs m)" for p
  proof -
    have "p \<noteq> raddr m \<or> raddr m = Sent" using that raddr_cases [of m] by auto
    with other [OF that(1-3)] show ?thesis by (auto simp: h')
  qed
  show "dom h' = dom h" if "x \<in> dom h" "y \<in> dom h"
    using that by (cases "C = []") (auto simp: h')
qed

lemma left_rotate_run:
  assumes rel: "tree_rel t rp (plug C (Nd l a k c d (Nd m b k2 c2 d2 r)))"
  shows "rbtree_left_rotate t a =
    Some (t\<lparr>root := (if C = [] then b else root t),
            mem := set_up (raddr m) a ((if C = [] then id else set_hole (ctop rp C) a b)
              ((mem t)(a \<mapsto> \<lparr>key = k, parent = b, right = raddr m, left = raddr l,
                              color = c, data = d\<rparr>,
                       b \<mapsto> \<lparr>key = k2, parent = ctop rp C, right = raddr r, left = a,
                              color = c2, data = d2\<rparr>)))\<rparr>)"
proof -
  note a = tree_rel_node [OF rel, simplified]
  note b = tree_rel_node [of t rp "FR l a k c d # C", simplified, OF rel]
  have ab: "a \<noteq> b" using rel by (auto simp: tree_rel_def)
  have m: "raddr m \<noteq> Sent \<Longrightarrow> mem t (raddr m) \<noteq> None \<and> raddr m \<noteq> a \<and> raddr m \<noteq> b \<and>
             raddr m \<notin> set (caddrs C)"
    using rel raddr_cases [of m] rep_live [of "mem t" b m "raddr m"]
    by (auto simp: tree_rel_def rep_plug)
  show ?thesis
  proof (cases C)
    case Nil
    with rel have "root t = a" by (simp add: tree_rel_def)
    from left_rotate_root [OF a _ b _ this ab] m Nil show ?thesis by simp
  next
    case (Cons f C')
    then have top: "ctop rp C = faddr f" "faddr f \<in> set (caddrs C)" by auto
    have nr: "root t \<noteq> a" using root_neq [OF rel] Cons by simp
    have f: "\<exists>pn. mem t (faddr f) = Some pn" "faddr f \<noteq> a" "faddr f \<noteq> b"
      using rel Cons by (cases f; auto simp: tree_rel_def rep_plug)+
    then obtain pn where pn: "mem t (faddr f) = Some pn" by blast
    have "raddr m \<noteq> Sent \<Longrightarrow> raddr m \<noteq> faddr f" using m top by metis
    with left_rotate_inner [OF a _ b _ nr ab, of "raddr m" pn] m f pn top Cons
    show ?thesis by auto
  qed
qed

lemma left_rotate_tree_rel:
  assumes rel: "tree_rel t rp (plug C (Nd l a k c d (Nd m b k2 c2 d2 r)))"
  shows "\<exists>t'. rbtree_left_rotate t a = Some t' \<and>
              tree_rel t' rp (plug C (Nd (Nd l a k c d m) b k2 c2 d2 r)) \<and>
              frame_rel (set (addrs (plug C (Nd l a k c d (Nd m b k2 c2 d2 r))))) t t'"
proof -
  from left_rotate_run [OF rel] have "\<exists>t'. rbtree_left_rotate t a = Some t' \<and>
    root t' = (if C = [] then b else root t) \<and> rbsize t' = rbsize t \<and>
    mem t' = set_up (raddr m) a ((if C = [] then id else set_hole (ctop rp C) a b)
              ((mem t)(a \<mapsto> \<lparr>key = k, parent = b, right = raddr m, left = raddr l,
                              color = c, data = d\<rparr>,
                       b \<mapsto> \<lparr>key = k2, parent = ctop rp C, right = raddr r, left = a,
                              color = c2, data = d2\<rparr>)))"
    by simp
  then obtain t' where run: "rbtree_left_rotate t a = Some t'"
    and t': "root t' = (if C = [] then b else root t)" "rbsize t' = rbsize t" and
    h': "mem t' = set_up (raddr m) a ((if C = [] then id else set_hole (ctop rp C) a b)
              ((mem t)(a \<mapsto> \<lparr>key = k, parent = b, right = raddr m, left = raddr l,
                              color = c, data = d\<rparr>,
                       b \<mapsto> \<lparr>key = k2, parent = ctop rp C, right = raddr r, left = a,
                              color = c2, data = d2\<rparr>)))"
    by blast
  have R: "rep (mem t) b m" "crep (mem t) rp C a" "distinct (caddrs C @ addrs m)"
     "a \<notin> set (caddrs C)" "b \<notin> set (caddrs C)" "a \<notin> set (addrs m)" "b \<notin> set (addrs m)"
     "a \<noteq> Sent" "Sent \<notin> set (caddrs C @ addrs m)"
    using rel by (auto simp: tree_rel_def rep_plug)
  note H = rotated_rep [OF R h']
  have parts: "rep (mem t) a l" "rep (mem t) b r"
    "mem t a \<noteq> None" "mem t b \<noteq> None" "raddr m \<noteq> a" "raddr m \<noteq> b"
    using rel raddr_cases [of m] by (auto simp: tree_rel_def rep_plug)
  have "rep (mem t') rp (plug C (Nd (Nd l a k c d m) b k2 c2 d2 r))"
    using H(1,2,4,5) H(3) [OF parts(1)] H(3) [OF parts(2)] rel parts(5,6)
    by (auto simp: rep_plug tree_rel_def)
  moreover have "mem t' NULL = None" "mem t' Sent = mem t Sent"
    using H(6) rel by (auto simp: tree_rel_def)
  moreover have "root t' = raddr (plug C (Nd (Nd l a k c d m) b k2 c2 d2 r))"
    using rel by (simp add: t' tree_rel_def raddr_plug)
  ultimately have "tree_rel t' rp (plug C (Nd (Nd l a k c d m) b k2 c2 d2 r))"
    using rel by (auto simp: tree_rel_def)
  moreover have "frame_rel (set (addrs (plug C (Nd l a k c d (Nd m b k2 c2 d2 r))))) t t'"
    using H(6,7) parts(3,4) by (auto simp: frame_rel_def t')
  ultimately show ?thesis using run by blast
qed

lemma right_rotate_run:
  assumes rel: "tree_rel t rp (plug C (Nd (Nd l b k2 c2 d2 m) a k c d r))"
  shows "rbtree_right_rotate t a =
    Some (t\<lparr>root := (if C = [] then b else root t),
            mem := set_up (raddr m) a ((if C = [] then id else set_hole (ctop rp C) a b)
              ((mem t)(a \<mapsto> \<lparr>key = k, parent = b, right = raddr r, left = raddr m,
                              color = c, data = d\<rparr>,
                       b \<mapsto> \<lparr>key = k2, parent = ctop rp C, right = a, left = raddr l,
                              color = c2, data = d2\<rparr>)))\<rparr>)"
proof -
  note a = tree_rel_node [OF rel, simplified]
  note b = tree_rel_node [of t rp "FL a k c d r # C", simplified, OF rel]
  have ab: "a \<noteq> b" using rel by (auto simp: tree_rel_def)
  have m: "raddr m \<noteq> Sent \<Longrightarrow> mem t (raddr m) \<noteq> None \<and> raddr m \<noteq> a \<and> raddr m \<noteq> b \<and>
             raddr m \<notin> set (caddrs C)"
    using rel raddr_cases [of m] rep_live [of "mem t" b m "raddr m"]
    by (auto simp: tree_rel_def rep_plug)
  show ?thesis
  proof (cases C)
    case Nil
    with rel have "root t = a" by (simp add: tree_rel_def)
    from right_rotate_root [OF a _ b _ this ab] m Nil show ?thesis by simp
  next
    case (Cons f C')
    then have top: "ctop rp C = faddr f" "faddr f \<in> set (caddrs C)" by auto
    have nr: "root t \<noteq> a" using root_neq [OF rel] Cons by simp
    have f: "\<exists>pn. mem t (faddr f) = Some pn" "faddr f \<noteq> a" "faddr f \<noteq> b"
      using rel Cons by (cases f; auto simp: tree_rel_def rep_plug)+
    then obtain pn where pn: "mem t (faddr f) = Some pn" by blast
    have "raddr m \<noteq> Sent \<Longrightarrow> raddr m \<noteq> faddr f" using m top by metis
    with right_rotate_inner [OF a _ b _ nr ab, of "raddr m" pn] m f pn top Cons
    show ?thesis by auto
  qed
qed

lemma right_rotate_tree_rel:
  assumes rel: "tree_rel t rp (plug C (Nd (Nd l b k2 c2 d2 m) a k c d r))"
  shows "\<exists>t'. rbtree_right_rotate t a = Some t' \<and>
              tree_rel t' rp (plug C (Nd l b k2 c2 d2 (Nd m a k c d r))) \<and>
              frame_rel (set (addrs (plug C (Nd (Nd l b k2 c2 d2 m) a k c d r)))) t t'"
proof -
  from right_rotate_run [OF rel] have "\<exists>t'. rbtree_right_rotate t a = Some t' \<and>
    root t' = (if C = [] then b else root t) \<and> rbsize t' = rbsize t \<and>
    mem t' = set_up (raddr m) a ((if C = [] then id else set_hole (ctop rp C) a b)
              ((mem t)(a \<mapsto> \<lparr>key = k, parent = b, right = raddr r, left = raddr m,
                              color = c, data = d\<rparr>,
                       b \<mapsto> \<lparr>key = k2, parent = ctop rp C, right = a, left = raddr l,
                              color = c2, data = d2\<rparr>)))"
    by simp
  then obtain t' where run: "rbtree_right_rotate t a = Some t'"
    and t': "root t' = (if C = [] then b else root t)" "rbsize t' = rbsize t" and
    h': "mem t' = set_up (raddr m) a ((if C = [] then id else set_hole (ctop rp C) a b)
              ((mem t)(a \<mapsto> \<lparr>key = k, parent = b, right = raddr r, left = raddr m,
                              color = c, data = d\<rparr>,
                       b \<mapsto> \<lparr>key = k2, parent = ctop rp C, right = a, left = raddr l,
                              color = c2, data = d2\<rparr>)))"
    by blast
  have R: "rep (mem t) b m" "crep (mem t) rp C a" "distinct (caddrs C @ addrs m)"
     "a \<notin> set (caddrs C)" "b \<notin> set (caddrs C)" "a \<notin> set (addrs m)" "b \<notin> set (addrs m)"
     "a \<noteq> Sent" "Sent \<notin> set (caddrs C @ addrs m)"
    using rel by (auto simp: tree_rel_def rep_plug)
  note H = rotated_rep [OF R h']
  have parts: "rep (mem t) b l" "rep (mem t) a r"
    "mem t a \<noteq> None" "mem t b \<noteq> None" "raddr m \<noteq> a" "raddr m \<noteq> b"
    using rel raddr_cases [of m] by (auto simp: tree_rel_def rep_plug)
  have "rep (mem t') rp (plug C (Nd l b k2 c2 d2 (Nd m a k c d r)))"
    using H(1,2,4,5) H(3) [OF parts(1)] H(3) [OF parts(2)] rel parts(5,6)
    by (auto simp: rep_plug tree_rel_def)
  moreover have "mem t' NULL = None" "mem t' Sent = mem t Sent"
    using H(6) rel by (auto simp: tree_rel_def)
  moreover have "root t' = raddr (plug C (Nd l b k2 c2 d2 (Nd m a k c d r)))"
    using rel by (simp add: t' tree_rel_def raddr_plug)
  ultimately have "tree_rel t' rp (plug C (Nd l b k2 c2 d2 (Nd m a k c d r)))"
    using rel by (auto simp: tree_rel_def)
  moreover have "frame_rel (set (addrs (plug C (Nd (Nd l b k2 c2 d2 m) a k c d r)))) t t'"
    using H(6,7) parts(3,4) by (auto simp: frame_rel_def t')
  ultimately show ?thesis using run by blast
qed

section \<open>Running operations on a represented tree\<close>

text \<open>
  \<open>st t0 rp A t T\<close>: starting from \<open>t0\<close>, the program has reached a C tree \<open>t\<close> that holds \<open>T\<close>;
  the nodes are still those of \<open>A\<close> and nothing else has changed.
\<close>

definition st :: "rbtree \<Rightarrow> ptr \<Rightarrow> ptr set \<Rightarrow> rbtree \<Rightarrow> rbt \<Rightarrow> bool" where
  "st t0 rp A t T \<longleftrightarrow> tree_rel t rp T \<and> set (addrs T) = A \<and> frame_rel A t0 t"

lemma st_I: "tree_rel t rp T \<Longrightarrow> A = set (addrs T) \<Longrightarrow> st t rp A t T"
  by (simp add: st_def)

lemma st_node:
  "st t0 rp A t (plug C (Nd l a k c d r)) \<Longrightarrow>
   mem t a = Some \<lparr>key = k, parent = ctop rp C, right = raddr r, left = raddr l,
                   color = c, data = d\<rparr>"
  by (auto simp: st_def intro: tree_rel_node)

lemma st_isred:
  "st t0 rp A t (plug C s) \<Longrightarrow> util_rbt_isred t (raddr s) = Some (rcolor s = 0)"
  by (auto simp: st_def intro: tree_rel_isred)

lemma st_isblack:
  "st t0 rp A t (plug C s) \<Longrightarrow> util_rbt_isblack t (raddr s) = Some (rcolor s = 1)"
  by (auto simp: st_def intro: tree_rel_isblack)

lemma st_set_color:
  assumes "st t0 rp A t (plug C (Nd l a k c d r))"
  shows "runs (set_color a c' t) (\<lambda>t'. st t0 rp A t' (plug C (Nd l a k c' d r)))"
proof -
  from assms have rel: "tree_rel t rp (plug C (Nd l a k c d r))"
    and A: "set (addrs (plug C (Nd l a k c d r))) = A" and fr: "frame_rel A t0 t"
    by (simp_all add: st_def)
  from set_color_tree_rel [OF rel, of c'] obtain t' where
    t': "set_color a c' t = Some t'" "tree_rel t' rp (plug C (Nd l a k c' d r))" "frame_rel {a} t t'"
    by blast
  have "frame_rel A t t'" using t'(3) A by (auto elim: frame_rel_mono)
  with fr have "frame_rel A t0 t'" by (rule frame_rel_trans)
  with t' A show ?thesis by (auto simp: st_def runs_def)
qed

lemma st_black:
  "st t0 rp A t (plug C (Nd l a k c d r)) \<Longrightarrow>
   runs (util_rbt_black a t) (\<lambda>t'. st t0 rp A t' (plug C (Nd l a k 1 d r)))"
  unfolding util_rbt_black_def by (rule st_set_color)

lemma st_red:
  "st t0 rp A t (plug C (Nd l a k c d r)) \<Longrightarrow>
   runs (util_rbt_red a t) (\<lambda>t'. st t0 rp A t' (plug C (Nd l a k 0 d r)))"
  unfolding util_rbt_red_def by (rule st_set_color)

lemma st_left_rotate:
  assumes "st t0 rp A t (plug C (Nd l a k c d (Nd m b k2 c2 d2 r)))"
  shows "runs (rbtree_left_rotate t a)
           (\<lambda>t'. st t0 rp A t' (plug C (Nd (Nd l a k c d m) b k2 c2 d2 r)))"
proof -
  from assms have "tree_rel t rp (plug C (Nd l a k c d (Nd m b k2 c2 d2 r)))" by (simp add: st_def)
  from left_rotate_tree_rel [OF this] assms show ?thesis
    by (auto simp: st_def runs_def Un_ac intro: frame_rel_trans)
qed

lemma st_right_rotate:
  assumes "st t0 rp A t (plug C (Nd (Nd l b k2 c2 d2 m) a k c d r))"
  shows "runs (rbtree_right_rotate t a)
           (\<lambda>t'. st t0 rp A t' (plug C (Nd l b k2 c2 d2 (Nd m a k c d r))))"
proof -
  from assms have "tree_rel t rp (plug C (Nd (Nd l b k2 c2 d2 m) a k c d r))" by (simp add: st_def)
  from right_rotate_tree_rel [OF this] assms show ?thesis
    by (auto simp: st_def runs_def Un_ac intro: frame_rel_trans)
qed

text \<open>Painting the root, whatever the tree.\<close>

lemma st_black_root:
  assumes "st t0 rp A t T" and "T \<noteq> Lf"
  shows "runs (util_rbt_black (root t) t) (\<lambda>t'. st t0 rp A t' (paint 1 T))"
proof -
  obtain l a k c d r where T: "T = Nd l a k c d r" using assms(2) by (cases T) auto
  with assms(1) have "root t = a" by (simp add: st_def tree_rel_def)
  with st_black [of t0 rp A t "[]" l a k c d r] assms(1) T show ?thesis by simp
qed

end
