(* ===== verification/RbInsert.thy ===== *)
theory RbInsert
  imports RbAbs
begin

text \<open>
  Correctness of \<open>util_rbtree_insert\<close>.  \<open>ins_fix\<close> is the fix-up as a function on a path and the
  subtree at its end; the loop of the code computes it, and it restores the red-black
  invariants.
\<close>

section \<open>Red-black invariants\<close>

fun bheight :: "rbt \<Rightarrow> nat" where
  "bheight Lf = 0"
| "bheight (Nd l a k c d r) = (if c = 1 then Suc (bheight l) else bheight l)"

fun invh :: "rbt \<Rightarrow> bool" where
  "invh Lf = True"
| "invh (Nd l a k c d r) = (bheight l = bheight r \<and> invh l \<and> invh r)"

fun invc :: "rbt \<Rightarrow> bool" where
  "invc Lf = True"
| "invc (Nd l a k c d r) =
     ((c = 0 \<or> c = 1) \<and> (c = 0 \<longrightarrow> rcolor l = 1 \<and> rcolor r = 1) \<and> invc l \<and> invc r)"

text \<open>The nodes in key order, as address, key and data.\<close>

fun inorder :: "rbt \<Rightarrow> (ptr \<times> int \<times> nat) list" where
  "inorder Lf = []"
| "inorder (Nd l a k c d r) = inorder l @ (a, k, d) # inorder r"

abbreviation keys :: "rbt \<Rightarrow> int list" where
  "keys T \<equiv> map (\<lambda>(a, k, d). k) (inorder T)"

text \<open>\<open>rb_inv\<close>: a red-black search tree with a black root.\<close>

definition rb_inv :: "rbt \<Rightarrow> bool" where
  "rb_inv T \<longleftrightarrow> invc T \<and> invh T \<and> rcolor T = 1 \<and> sorted (keys T)"

fun fcolor :: "frame \<Rightarrow> int" where
  "fcolor (FL a k c d r) = c"
| "fcolor (FR l a k c d) = c"

fun sibling :: "frame \<Rightarrow> rbt" where
  "sibling (FL a k c d r) = r"
| "sibling (FR l a k c d) = l"

fun paintf :: "int \<Rightarrow> frame \<Rightarrow> frame" where
  "paintf c' (FL a k c d r) = FL a k c' d r"
| "paintf c' (FR l a k c d) = FR l a k c' d"

fun paint_sib :: "int \<Rightarrow> frame \<Rightarrow> frame" where
  "paint_sib c' (FL a k c d r) = FL a k c d (paint c' r)"
| "paint_sib c' (FR l a k c d) = FR (paint c' l) a k c d"

text \<open>The invariants of a path: what it needs of the subtree at its end.\<close>

fun path_h :: "frame list \<Rightarrow> nat \<Rightarrow> bool" where
  "path_h [] h = True"
| "path_h (f # C) h =
     (bheight (sibling f) = h \<and> invh (sibling f) \<and>
      path_h C (if fcolor f = 1 then Suc h else h))"

fun path_c :: "frame list \<Rightarrow> bool" where
  "path_c [] = True"
| "path_c (f # C) =
     ((fcolor f = 0 \<or> fcolor f = 1) \<and> invc (sibling f) \<and>
      (fcolor f = 0 \<longrightarrow> rcolor (sibling f) = 1 \<and> (C = [] \<or> fcolor (hd C) = 1)) \<and> path_c C)"

lemma invh_plug: "invh (plug C t) \<longleftrightarrow> invh t \<and> path_h C (bheight t)"
proof (induction C arbitrary: t)
  case (Cons f C)
  have "invh (plugf f t) \<longleftrightarrow> invh t \<and> bheight (sibling f) = bheight t \<and> invh (sibling f)"
    by (cases f) (simp; metis)+
  moreover have "bheight (sibling f) = bheight t \<Longrightarrow>
      bheight (plugf f t) = (if fcolor f = 1 then Suc (bheight t) else bheight t)"
    by (cases f) auto
  ultimately show ?case by (simp add: Cons) (metis (full_types))
qed simp

lemma invc_plug:
  "invc (plug C t) \<longleftrightarrow> invc t \<and> path_c C \<and> (C = [] \<or> fcolor (hd C) = 1 \<or> rcolor t = 1)"
proof (induction C arbitrary: t)
  case (Cons f C)
  have "invc (plugf f t) \<longleftrightarrow> invc t \<and> (fcolor f = 0 \<or> fcolor f = 1) \<and> invc (sibling f) \<and>
          (fcolor f = 0 \<longrightarrow> rcolor (sibling f) = 1 \<and> rcolor t = 1)"
    by (cases f) (simp; blast)+
  moreover have "rcolor (plugf f t) = fcolor f" by (cases f) auto
  ultimately show ?case by (cases "fcolor f = 0"; cases "fcolor f = 1") (auto simp: Cons)
qed simp

fun path_l :: "frame list \<Rightarrow> (ptr \<times> int \<times> nat) list" where
  "path_l [] = []"
| "path_l (FL a k c d r # C) = path_l C"
| "path_l (FR l a k c d # C) = path_l C @ inorder l @ [(a, k, d)]"

fun path_r :: "frame list \<Rightarrow> (ptr \<times> int \<times> nat) list" where
  "path_r [] = []"
| "path_r (FL a k c d r # C) = (a, k, d) # inorder r @ path_r C"
| "path_r (FR l a k c d # C) = path_r C"

lemma inorder_plug: "inorder (plug C t) = path_l C @ inorder t @ path_r C"
proof (induction C arbitrary: t)
  case (Cons f C)
  then show ?case by (cases f) auto
qed simp

lemma inorder_paint [simp]: "inorder (paint c t) = inorder t"
  by (cases t) auto

lemma rcolor_plug: "rcolor (plug C t) = (if C = [] then rcolor t else fcolor (last C))"
proof (induction C arbitrary: t)
  case (Cons f C)
  then show ?case by (cases f) auto
qed simp

lemma bheight_paint [simp]: "rcolor t = 0 \<Longrightarrow> bheight (paint 1 t) = Suc (bheight t)"
  by (cases t) auto

lemma invh_paint [simp]: "invh t \<Longrightarrow> invh (paint c t)"
  by (cases t) auto

lemma invc_paint_black [simp]: "invc t \<Longrightarrow> invc (paint 1 t)"
  by (cases t) auto

lemma rcolor_paint [simp]: "t \<noteq> Lf \<Longrightarrow> rcolor (paint c t) = c"
  by (cases t) auto

lemma map_fst_inorder: "map fst (inorder t) = addrs t"
  by (induction t) auto

section \<open>The fix-up as a function\<close>

text \<open>The rotations at a black uncle: one for an outer grandchild, two for an inner one.\<close>

fun ins_rot :: "frame \<Rightarrow> frame \<Rightarrow> rbt \<Rightarrow> rbt" where
  "ins_rot (FL p kp cp dp s) (FL g kg cg dg u) t =
     Nd t p kp 1 dp (Nd s g kg 0 dg u)"
| "ins_rot (FR s p kp cp dp) (FL g kg cg dg u) (Nd l n kn cn dn r) =
     Nd (Nd s p kp cp dp l) n kn 1 dn (Nd r g kg 0 dg u)"
| "ins_rot (FR s p kp cp dp) (FR u g kg cg dg) t =
     Nd (Nd u g kg 0 dg s) p kp 1 dp t"
| "ins_rot (FL p kp cp dp s) (FR u g kg cg dg) (Nd l n kn cn dn r) =
     Nd (Nd u g kg 0 dg l) n kn 1 dn (Nd r p kp cp dp s)"
| "ins_rot f g Lf = plugf g (plugf f Lf)"

fun ins_fix :: "frame list \<Rightarrow> rbt \<Rightarrow> rbt" where
  "ins_fix [] t = paint 1 t"
| "ins_fix [f] t = paint 1 (plugf f t)"
| "ins_fix (f # g # C) t =
     (if fcolor f \<noteq> 0 then paint 1 (plug (f # g # C) t)
      else if rcolor (sibling g) = 0
        then ins_fix C (plugf (paintf 0 (paint_sib 1 g)) (plugf (paintf 1 f) t))
      else paint 1 (plug C (ins_rot f g t)))"

lemma inorder_ins_rot: "inorder (ins_rot f g t) = inorder (plugf g (plugf f t))"
  by (cases "(f, g, t)" rule: ins_rot.cases) auto

lemma inorder_ins_fix: "inorder (ins_fix C t) = inorder (plug C t)"
proof (induction C t rule: ins_fix.induct)
  case (3 f g C t)
  have "inorder (plugf (paintf 0 (paint_sib 1 g)) (plugf (paintf 1 f) t)) =
        inorder (plugf g (plugf f t))"
    by (cases f; cases g) auto
  with 3 show ?case by (auto simp: inorder_plug inorder_ins_rot)
qed auto

lemma ins_rot_inv:
  assumes "invc t" "rcolor t = 0" "path_c (f # g # C)" "fcolor f = 0" "rcolor (sibling g) = 1"
    and "invh t" "path_h (f # g # C) (bheight t)"
  shows "invc (ins_rot f g t) \<and> rcolor (ins_rot f g t) = 1 \<and> invh (ins_rot f g t) \<and>
         bheight (ins_rot f g t) = Suc (bheight t)"
  using assms by (cases "(f, g, t)" rule: ins_rot.cases) auto

lemma ins_recolor_inv:
  assumes "invc t" "path_c (f # g # C)" "fcolor f = 0" "rcolor (sibling g) = 0"
    and "invh t" "path_h (f # g # C) (bheight t)"
  defines "t' \<equiv> plugf (paintf 0 (paint_sib 1 g)) (plugf (paintf 1 f) t)"
  shows "invc t' \<and> rcolor t' = 0 \<and> invh t' \<and> bheight t' = Suc (bheight t)"
proof -
  have "sibling g \<noteq> Lf" using assms(4) by auto
  with assms show ?thesis by (cases f; cases g) auto
qed

lemma invc_rcolor: "invc t \<Longrightarrow> rcolor t = 0 \<or> rcolor t = 1"
  by (cases t) auto

lemma ins_fix_inv:
  assumes "invc t" "rcolor t = 0" "path_c C" "C \<noteq> [] \<Longrightarrow> fcolor (last C) = 1"
    and "invh t" "path_h C (bheight t)"
  shows "invc (ins_fix C t) \<and> invh (ins_fix C t) \<and> rcolor (ins_fix C t) = 1"
  using assms
proof (induction C t rule: ins_fix.induct)
  case (1 t)
  then show ?case by (cases t) auto
next
  case (2 f t)
  then show ?case by (cases f) auto
next
  case (3 f g C t)
  have g: "fcolor f = 0 \<Longrightarrow> fcolor g = 1" and C: "path_c C"
    and last: "C \<noteq> [] \<Longrightarrow> fcolor (last C) = 1"
    using "3.prems" by auto
  have hC: "fcolor f = 0 \<Longrightarrow> path_h C (Suc (bheight t))"
    using "3.prems"(6) g by simp
  consider (black) "fcolor f \<noteq> 0"
    | (red) "fcolor f = 0" "rcolor (sibling g) = 0"
    | (rot) "fcolor f = 0" "rcolor (sibling g) = 1"
    using "3.prems"(3) invc_rcolor [of "sibling g"] by auto
  then show ?case
  proof cases
    case black
    have c: "invc (plug (f # g # C) t)"
      using "3.prems" black unfolding invc_plug by auto
    have h: "invh (plug (f # g # C) t)"
      using "3.prems" unfolding invh_plug by simp
    have "plug (f # g # C) t \<noteq> Lf"
      using arg_cong [OF inorder_plug [of "f # g # C" t], of length] by (cases f; cases g) auto
    with c h black show ?thesis by simp
  next
    case red
    from ins_recolor_inv [OF "3.prems"(1,3) red "3.prems"(5,6)] "3.IH" red C last hC
    show ?thesis by simp
  next
    case rot
    note R = ins_rot_inv [OF "3.prems"(1,2,3) rot "3.prems"(5,6)]
    have c: "invc (plug C (ins_rot f g t))" and h: "invh (plug C (ins_rot f g t))"
      using R C hC rot by (auto simp: invc_plug invh_plug)
    have "ins_rot f g t \<noteq> Lf" using R by (cases f; cases g; cases t) auto
    then have "plug C (ins_rot f g t) \<noteq> Lf"
      using arg_cong [OF inorder_plug [of C "ins_rot f g t"], of length]
      by (cases "ins_rot f g t") auto
    with c h rot show ?thesis by simp
  qed
qed

section \<open>The fix-up loop computes it\<close>

text \<open>Reading and painting around a path, for either direction of a frame.\<close>

fun is_left :: "frame \<Rightarrow> bool" where
  "is_left (FL a k c d r) = True"
| "is_left (FR l a k c d) = False"

lemma st_frame:
  assumes "st t0 rp A t (plug C (plugf f s))"
  shows "\<exists>n. mem t (faddr f) = Some n \<and> parent n = ctop rp C \<and> color n = fcolor f \<and>
             left n = (if is_left f then raddr s else raddr (sibling f)) \<and>
             right n = (if is_left f then raddr (sibling f) else raddr s)"
  using assms by (cases f) (auto dest: st_node)

lemma st_distinct:
  assumes "st t0 rp A t (plug C T)"
  shows "distinct (addrs T)" "Sent \<notin> set (addrs T)" "distinct (caddrs C)"
    "set (caddrs C) \<inter> set (addrs T) = {}" "NULL \<notin> set (addrs T)" "Sent \<notin> set (caddrs C)"
  using assms by (auto simp: st_def tree_rel_def)

lemma raddr_in [simp]: "t \<noteq> Lf \<Longrightarrow> raddr t \<in> set (addrs t)"
  by (cases t) auto

lemma sibling_neq:
  assumes "st t0 rp A t (plug C (plugf f s))" and "s \<noteq> Lf"
  shows "raddr s \<noteq> raddr (sibling f)"
proof -
  have "raddr s \<in> set (addrs s)" using assms(2) by simp
  moreover have "set (addrs s) \<inter> set (addrs (sibling f)) = {}" "Sent \<notin> set (addrs s)"
    using st_distinct [OF assms(1)] by (cases f; auto)+
  ultimately show ?thesis using raddr_cases [of "sibling f"] by auto
qed

lemma st_set_colorf:
  assumes "st t0 rp A t (plug C (plugf f s))"
  shows "runs (set_color (faddr f) c t) (\<lambda>t'. st t0 rp A t' (plug C (plugf (paintf c f) s)))"
  using assms by (cases f) (auto intro: st_set_color)

lemma st_set_color_sib:
  assumes "st t0 rp A t (plug C (plugf f s))" and "sibling f \<noteq> Lf"
  shows "runs (set_color (raddr (sibling f)) c t)
           (\<lambda>t'. st t0 rp A t' (plug C (plugf (paint_sib c f) s)))"
proof (cases f)
  case (FL a k c1 d r)
  with assms(2) obtain l2 a2 k2 c2 d2 r2 where "r = Nd l2 a2 k2 c2 d2 r2" by (cases r) auto
  with st_set_color [of t0 rp A t "FR s a k c1 d # C" l2 a2 k2 c2 d2 r2 c] assms(1) FL
  show ?thesis by simp
next
  case (FR l a k c1 d)
  with assms(2) obtain l2 a2 k2 c2 d2 r2 where "l = Nd l2 a2 k2 c2 d2 r2" by (cases l) auto
  with st_set_color [of t0 rp A t "FL a k c1 d s # C" l2 a2 k2 c2 d2 r2 c] assms(1) FR
  show ?thesis by simp
qed

lemma is_left_paintf [simp]:
  "is_left (paintf c f) = is_left f" "is_left (paint_sib c f) = is_left f"
  "faddr (paintf c f) = faddr f" "faddr (paint_sib c f) = faddr f"
  by (cases f; simp)+

text \<open>Case 1 of both branches: parent and uncle become black, the grandparent red.\<close>

lemma fix_recolor_runs:
  assumes S: "st t0 rp A t (plug C (plugf g (plugf f s)))" and "rcolor (sibling g) = 0"
  shows "runs (do { t \<leftarrow> util_rbt_black (raddr (sibling g)) t;
                    t \<leftarrow> util_rbt_black (faddr f) t;
                    pn \<leftarrow> mem t (faddr f);
                    t \<leftarrow> util_rbt_red (parent pn) t;
                    pn \<leftarrow> mem t (faddr f);
                    Some (t, parent pn) })
           (\<lambda>(t', node). node = faddr g \<and>
              st t0 rp A t' (plug C (plugf (paintf 0 (paint_sib 1 g)) (plugf (paintf 1 f) s))))"
proof -
  have "sibling g \<noteq> Lf" using assms(2) by auto
  from st_set_color_sib [OF S this] obtain t1 where
    1: "util_rbt_black (raddr (sibling g)) t = Some t1"
       "st t0 rp A t1 (plug (paint_sib 1 g # C) (plugf f s))"
    by (auto simp: util_rbt_black_def elim: runsE)
  from st_set_colorf [OF 1(2)] obtain t2 where
    2: "util_rbt_black (faddr f) t1 = Some t2"
       "st t0 rp A t2 (plug (paint_sib 1 g # C) (plugf (paintf 1 f) s))"
    by (auto simp: util_rbt_black_def elim: runsE)
  from st_frame [OF 2(2)] obtain n2 where
    n2: "mem t2 (faddr f) = Some n2" "parent n2 = faddr g" by auto
  have "st t0 rp A t2 (plug C (plugf (paint_sib 1 g) (plugf (paintf 1 f) s)))"
    using 2(2) by simp
  from st_set_colorf [OF this] obtain t3 where
    3: "util_rbt_red (faddr g) t2 = Some t3"
       "st t0 rp A t3 (plug (paintf 0 (paint_sib 1 g) # C) (plugf (paintf 1 f) s))"
    by (auto simp: util_rbt_red_def elim: runsE)
  from st_frame [OF 3(2)] obtain n3 where
    n3: "mem t3 (faddr f) = Some n3" "parent n3 = faddr g" by auto
  show ?thesis using 1 2 3 n2 n3 by (simp add: fault_simps)
qed

text \<open>Cases 2 and 3: one rotation for an outer grandchild, two for an inner one.\<close>

lemma fix_outer_left:
  assumes S: "st t0 rp A t (plug C (Nd (Nd s p kp cp dp sb) g kg cg dg u))" and "s \<noteq> Lf"
  shows "runs (do { t \<leftarrow> util_rbt_black p t;
                    pn \<leftarrow> mem t p;
                    t \<leftarrow> util_rbt_red (parent pn) t;
                    pn \<leftarrow> mem t p;
                    t \<leftarrow> rbtree_right_rotate t (parent pn);
                    Some (t, raddr s) })
           (\<lambda>(t', node). node = raddr s \<and>
              st t0 rp A t' (plug (FL p kp 1 dp (Nd sb g kg 0 dg u) # C) s))"
proof -
  from st_set_colorf [of t0 rp A t "FL g kg cg dg u # C" "FL p kp cp dp sb" s 1] S obtain t1 where
    1: "util_rbt_black p t = Some t1" "st t0 rp A t1 (plug (FL g kg cg dg u # C) (Nd s p kp 1 dp sb))"
    by (auto simp: util_rbt_black_def elim: runsE)
  from st_node [OF 1(2)] st_set_colorf [of t0 rp A t1 C "FL g kg cg dg u" "Nd s p kp 1 dp sb" 0] 1(2)
  obtain t2 where
    2: "util_rbt_red g t1 = Some t2" "st t0 rp A t2 (plug C (Nd (Nd s p kp 1 dp sb) g kg 0 dg u))"
    by (auto simp: util_rbt_red_def elim: runsE)
  from st_node [of t0 rp A t2 "FL g kg 0 dg u # C"] 2(2)
  have n2: "mem t2 p = Some \<lparr>key = kp, parent = g, right = raddr sb, left = raddr s, color = 1, data = dp\<rparr>"
    by simp
  from st_right_rotate [OF 2(2)] obtain t3 where
    3: "rbtree_right_rotate t2 g = Some t3" "st t0 rp A t3 (plug C (Nd s p kp 1 dp (Nd sb g kg 0 dg u)))"
    by (auto elim: runsE)
  show ?thesis using 1 2 3 n2 st_node [OF 1(2)] by (simp add: fault_simps)
qed

lemma fix_outer_right:
  assumes S: "st t0 rp A t (plug C (Nd u g kg cg dg (Nd sb p kp cp dp s)))" and "s \<noteq> Lf"
  shows "runs (do { t \<leftarrow> util_rbt_black p t;
                    pn \<leftarrow> mem t p;
                    t \<leftarrow> util_rbt_red (parent pn) t;
                    pn \<leftarrow> mem t p;
                    t \<leftarrow> rbtree_left_rotate t (parent pn);
                    Some (t, raddr s) })
           (\<lambda>(t', node). node = raddr s \<and>
              st t0 rp A t' (plug (FR (Nd u g kg 0 dg sb) p kp 1 dp # C) s))"
proof -
  from st_set_colorf [of t0 rp A t "FR u g kg cg dg # C" "FR sb p kp cp dp" s 1] S obtain t1 where
    1: "util_rbt_black p t = Some t1" "st t0 rp A t1 (plug (FR u g kg cg dg # C) (Nd sb p kp 1 dp s))"
    by (auto simp: util_rbt_black_def elim: runsE)
  from st_node [OF 1(2)] st_set_colorf [of t0 rp A t1 C "FR u g kg cg dg" "Nd sb p kp 1 dp s" 0] 1(2)
  obtain t2 where
    2: "util_rbt_red g t1 = Some t2" "st t0 rp A t2 (plug C (Nd u g kg 0 dg (Nd sb p kp 1 dp s)))"
    by (auto simp: util_rbt_red_def elim: runsE)
  from st_node [of t0 rp A t2 "FR u g kg 0 dg # C"] 2(2)
  have n2: "mem t2 p = Some \<lparr>key = kp, parent = g, right = raddr s, left = raddr sb, color = 1, data = dp\<rparr>"
    by simp
  from st_left_rotate [OF 2(2)] obtain t3 where
    3: "rbtree_left_rotate t2 g = Some t3" "st t0 rp A t3 (plug C (Nd (Nd u g kg 0 dg sb) p kp 1 dp s))"
    by (auto elim: runsE)
  show ?thesis using 1 2 3 n2 st_node [OF 1(2)] by (simp add: fault_simps)
qed

text \<open>What one iteration reads before it decides.\<close>

lemma st_isred_sib:
  assumes "st t0 rp A t (plug C (plugf g x))"
  shows "util_rbt_isred t (raddr (sibling g)) = Some (rcolor (sibling g) = 0)"
proof (cases g)
  case (FL a k c d r)
  with st_isred [of t0 rp A t "FR x a k c d # C" r] assms show ?thesis by simp
next
  case (FR l a k c d)
  with st_isred [of t0 rp A t "FL a k c d x # C" l] assms show ?thesis by simp
qed

lemma fixup_reads:
  assumes S: "st t0 rp A t (plug C (plugf g (plugf f s)))" and s: "s \<noteq> Lf"
  obtains n pn gn where "mem t (raddr s) = Some n" "parent n = faddr f"
    and "mem t (faddr f) = Some pn" "parent pn = faddr g"
    and "left pn = (if is_left f then raddr s else raddr (sibling f))"
    and "right pn = (if is_left f then raddr (sibling f) else raddr s)"
    and "mem t (faddr g) = Some gn"
    and "left gn = (if is_left g then faddr f else raddr (sibling g))"
    and "right gn = (if is_left g then raddr (sibling g) else faddr f)"
    and "util_rbt_isred t (raddr (sibling g)) = Some (rcolor (sibling g) = 0)"
    and "faddr f \<noteq> raddr (sibling g)" "raddr s \<noteq> raddr (sibling f)" "raddr (sibling f) \<noteq> raddr s"
proof -
  obtain l x kx cx dx r where "s = Nd l x kx cx dx r" using s by (cases s) auto
  with S st_node [of t0 rp A t "f # g # C"]
  have n: "\<exists>n. mem t (raddr s) = Some n \<and> parent n = faddr f" by auto
  from S have Sf: "st t0 rp A t (plug (g # C) (plugf f s))" by simp
  have "plugf f s \<noteq> Lf" by (cases f) auto
  from n st_frame [OF Sf] st_frame [OF S] st_isred_sib [OF S] sibling_neq [OF S this]
       sibling_neq [OF Sf s] that
  show thesis by auto
qed

text \<open>One iteration with a black uncle, in the four positions of the node under its grandparent.\<close>

lemma insert_rot_ll:
  assumes "st t0 rp A t (plug C (plugf (FL ga gk gc gd u) (plugf (FL p kp cp dp sb) s)))" "s \<noteq> Lf" "rcolor u \<noteq> 0"
  shows "runs (insert_fixup_step t (raddr s)) (\<lambda>(t', node). node = raddr s \<and>
           st t0 rp A t' (plug (FL p kp 1 dp (Nd sb ga gk 0 gd u) # C) s))"
  using fix_outer_left [of t0 rp A t C s p kp cp dp sb ga gk gc gd u] assms
  by - (rule fixup_reads [OF assms(1,2)], simp add: insert_fixup_step_def fault_simps)

lemma insert_rot_rr:
  assumes "st t0 rp A t (plug C (plugf (FR u ga gk gc gd) (plugf (FR sb p kp cp dp) s)))" "s \<noteq> Lf" "rcolor u \<noteq> 0"
  shows "runs (insert_fixup_step t (raddr s)) (\<lambda>(t', node). node = raddr s \<and>
           st t0 rp A t' (plug (FR (Nd u ga gk 0 gd sb) p kp 1 dp # C) s))"
  using fix_outer_right [of t0 rp A t C u ga gk gc gd sb p kp cp dp s] assms
  by - (rule fixup_reads [OF assms(1,2)], simp add: insert_fixup_step_def fault_simps)

lemma insert_rot_lr:
  fixes l n kn cn dn r
  defines "s \<equiv> Nd l n kn cn dn r"
  assumes S: "st t0 rp A t (plug C (plugf (FL ga gk gc gd u) (plugf (FR sb p kp cp dp) s)))" and u: "rcolor u \<noteq> 0"
  shows "runs (insert_fixup_step t (raddr s)) (\<lambda>(t', node). node = p \<and>
           st t0 rp A t' (plug (FL n kn 1 dn (Nd r ga gk 0 gd u) # C) (Nd sb p kp cp dp l)))"
proof -
  have s: "s \<noteq> Lf" by (simp add: s_def)
  from st_left_rotate [of t0 rp A t "FL ga gk gc gd u # C" sb p kp cp dp l n kn cn dn r] S obtain t1 where
    1: "rbtree_left_rotate t p = Some t1" "st t0 rp A t1 (plug C (Nd (Nd (Nd sb p kp cp dp l) n kn cn dn r) ga gk gc gd u))"
    by (auto simp: s_def elim: runsE)
  from st_node [of t0 rp A t1 "FL n kn cn dn r # FL ga gk gc gd u # C"] 1(2)
  obtain y where y: "mem t1 p = Some y" "parent y = n" by auto
  obtain nn pn gn where
    "mem t n = Some nn" "parent nn = p" "mem t p = Some pn" "parent pn = ga" "mem t ga = Some gn"
    "left pn = raddr sb" "right pn = n" "left gn = p" "right gn = raddr u" "util_rbt_isred t (raddr u) = Some False"
    "p \<noteq> raddr u" "n \<noteq> raddr sb" by (rule fixup_reads [OF S s]) (use u in \<open>auto simp: s_def\<close>)
  with fix_outer_left [OF 1(2)] 1(1) y show ?thesis by (simp add: insert_fixup_step_def fault_simps s_def)
qed

lemma insert_rot_rl:
  fixes l n kn cn dn r
  defines "s \<equiv> Nd l n kn cn dn r"
  assumes S: "st t0 rp A t (plug C (plugf (FR u ga gk gc gd) (plugf (FL p kp cp dp sb) s)))" and u: "rcolor u \<noteq> 0"
  shows "runs (insert_fixup_step t (raddr s)) (\<lambda>(t', node). node = p \<and>
           st t0 rp A t' (plug (FR (Nd u ga gk 0 gd l) n kn 1 dn # C) (Nd r p kp cp dp sb)))"
proof -
  have s: "s \<noteq> Lf" by (simp add: s_def)
  from st_right_rotate [of t0 rp A t "FR u ga gk gc gd # C" l n kn cn dn r p kp cp dp sb] S obtain t1 where
    1: "rbtree_right_rotate t p = Some t1" "st t0 rp A t1 (plug C (Nd u ga gk gc gd (Nd l n kn cn dn (Nd r p kp cp dp sb))))"
    by (auto simp: s_def elim: runsE)
  from st_node [of t0 rp A t1 "FR l n kn cn dn # FR u ga gk gc gd # C"] 1(2)
  obtain y where y: "mem t1 p = Some y" "parent y = n" by auto
  obtain nn pn gn where
    "mem t n = Some nn" "parent nn = p" "mem t p = Some pn" "parent pn = ga" "mem t ga = Some gn"
    "left pn = n" "right pn = raddr sb" "left gn = raddr u" "right gn = p" "util_rbt_isred t (raddr u) = Some False"
    "p \<noteq> raddr u" "n \<noteq> raddr sb" by (rule fixup_reads [OF S s]) (use u in \<open>auto simp: s_def\<close>)
  with fix_outer_right [OF 1(2)] 1(1) y show ?thesis by (simp add: insert_fixup_step_def fault_simps s_def)
qed

lemma insert_fixup_step_rot:
  assumes S: "st t0 rp A t (plug C (plugf g (plugf f s)))" and s: "s \<noteq> Lf"
    and u: "rcolor (sibling g) \<noteq> 0"
  shows "runs (insert_fixup_step t (raddr s)) (\<lambda>(t', node).
           \<exists>h s'. node = raddr s' \<and> s' \<noteq> Lf \<and> fcolor h = 1 \<and> plugf h s' = ins_rot f g s \<and>
                  st t0 rp A t' (plug (h # C) s'))"
proof -
  obtain l n kn cn dn r where sn: "s = Nd l n kn cn dn r" using s by (cases s) auto
  show ?thesis
  proof (cases g; cases f)
    fix ga gk gc gd gr p kp cp dp sb
    assume e: "g = FL ga gk gc gd gr" "f = FL p kp cp dp sb"
    with S u have "st t0 rp A t (plug C (plugf (FL ga gk gc gd gr) (plugf (FL p kp cp dp sb) s)))" "rcolor gr \<noteq> 0" by simp_all
    from insert_rot_ll [OF this(1) s this(2)] show ?thesis
      by (rule runs_conseq) (use e s in \<open>auto intro!: exI [where x = "FL p kp 1 dp (Nd sb ga gk 0 gd gr)"]\<close>)
  next
    fix ga gk gc gd gr sb p kp cp dp
    assume e: "g = FL ga gk gc gd gr" "f = FR sb p kp cp dp"
    with S u sn have "st t0 rp A t (plug C (plugf (FL ga gk gc gd gr) (plugf (FR sb p kp cp dp) (Nd l n kn cn dn r))))"
      "rcolor gr \<noteq> 0" by simp_all
    from insert_rot_lr [OF this] show ?thesis unfolding sn
      by (rule runs_conseq) (use e in \<open>auto intro!: exI [where x = "FL n kn 1 dn (Nd r ga gk 0 gd gr)"]
        exI [where x = "Nd sb p kp cp dp l"]\<close>)
  next
    fix gl ga gk gc gd p kp cp dp sb
    assume e: "g = FR gl ga gk gc gd" "f = FL p kp cp dp sb"
    with S u sn have "st t0 rp A t (plug C (plugf (FR gl ga gk gc gd) (plugf (FL p kp cp dp sb) (Nd l n kn cn dn r))))"
      "rcolor gl \<noteq> 0" by simp_all
    from insert_rot_rl [OF this] show ?thesis unfolding sn
      by (rule runs_conseq) (use e in \<open>auto intro!: exI [where x = "FR (Nd gl ga gk 0 gd l) n kn 1 dn"]
        exI [where x = "Nd r p kp cp dp sb"]\<close>)
  next
    fix gl ga gk gc gd sb p kp cp dp
    assume e: "g = FR gl ga gk gc gd" "f = FR sb p kp cp dp"
    with S u have "st t0 rp A t (plug C (plugf (FR gl ga gk gc gd) (plugf (FR sb p kp cp dp) s)))" "rcolor gl \<noteq> 0" by simp_all
    from insert_rot_rr [OF this(1) s this(2)] show ?thesis
      by (rule runs_conseq) (use e s in \<open>auto intro!: exI [where x = "FR (Nd gl ga gk 0 gd sb) p kp 1 dp"]\<close>)
  qed
qed

lemma insert_fixup_step_red:
  assumes S: "st t0 rp A t (plug C (plugf g (plugf f s)))" and s: "s \<noteq> Lf"
    and u: "rcolor (sibling g) = 0"
  shows "runs (insert_fixup_step t (raddr s)) (\<lambda>(t', node). node = faddr g \<and>
           st t0 rp A t' (plug C (plugf (paintf 0 (paint_sib 1 g)) (plugf (paintf 1 f) s))))"
proof -
  from fixup_reads [OF S s] u obtain nn pn gn where
    reads: "mem t (raddr s) = Some nn" "parent nn = faddr f" "mem t (faddr f) = Some pn"
      "parent pn = faddr g" "left pn = (if is_left f then raddr s else raddr (sibling f))"
      "right pn = (if is_left f then raddr (sibling f) else raddr s)" "mem t (faddr g) = Some gn"
      "left gn = (if is_left g then faddr f else raddr (sibling g))"
      "right gn = (if is_left g then raddr (sibling g) else faddr f)"
      "util_rbt_isred t (raddr (sibling g)) = Some True"
      "faddr f \<noteq> raddr (sibling g)" "raddr s \<noteq> raddr (sibling f)" "raddr (sibling f) \<noteq> raddr s"
    by auto
  then show ?thesis
    using fix_recolor_runs [OF S u] by (cases "is_left g") (simp_all add: insert_fixup_step_def fault_simps Let_def)
qed

lemma plugf_not_Lf [simp]: "plugf f s \<noteq> Lf"
  by (cases f) auto

lemma plug_not_Lf: "s \<noteq> Lf \<Longrightarrow> plug C s \<noteq> Lf"
  by (induction C arbitrary: s) auto

lemma insert_fixup_stop:
  assumes "st t0 rp A t (plug C s)" and "s \<noteq> Lf" and "C = [] \<or> fcolor (hd C) \<noteq> 0" and "C = [] \<longrightarrow> rp = Sent"
  shows "insert_fixup_loop t (raddr s) = Some t"
proof -
  obtain l n kn cn dn r where sn: "s = Nd l n kn cn dn r" using assms(2) by (cases s) auto
  have "util_rbt_isred t (ctop rp C) = Some False"
  proof (cases C)
    case Nil
    with assms(1,4) show ?thesis by (auto simp: st_def tree_rel_def util_rbt_isred_def)
  next
    case (Cons f C')
    with st_frame [of t0 rp A t C' f s] assms show ?thesis by (auto simp: util_rbt_isred_def)
  qed
  with st_node [of t0 rp A t C] assms(1) sn show ?thesis
    by (subst insert_fixup_loop.simps) (simp add: fault_simps)
qed

lemma insert_fixup_iterate:
  assumes S: "st t0 rp A t (plug C (plugf g (plugf f s)))" and s: "s \<noteq> Lf" and f: "fcolor f = 0"
  shows "insert_fixup_loop t (raddr s) =
     Option.bind (insert_fixup_step t (raddr s)) (\<lambda>(t, node). insert_fixup_loop t node)"
proof -
  obtain nn pn where "mem t (raddr s) = Some nn" "parent nn = faddr f" "mem t (faddr f) = Some pn" "color pn = 0"
    using fixup_reads [OF S s] st_frame [of t0 rp A t "g # C" f s] S f by (metis option.inject plug.simps(2))
  then show ?thesis by (subst insert_fixup_loop.simps) (simp add: fault_simps util_rbt_isred_def)
qed

text \<open>The fix-up of a node at the end of this path recolours up to the root, and reads the parent of the root.\<close>

fun climbs :: "frame list \<Rightarrow> bool" where
  "climbs [] \<longleftrightarrow> True"
| "climbs [f] \<longleftrightarrow> False"
| "climbs (f # g # C) \<longleftrightarrow> fcolor f = 0 \<and> rcolor (sibling g) = 0 \<and> climbs C"

lemma insert_fixup_loop_runs:
  assumes "st t0 rp A t (plug C s)" and "s \<noteq> Lf" and "C \<noteq> [] \<Longrightarrow> fcolor (last C) \<noteq> 0"
    and "climbs C \<longrightarrow> rp = Sent"
  shows "runs (insert_fixup_loop t (raddr s))
           (\<lambda>t'. \<exists>T. st t0 rp A t' T \<and> T \<noteq> Lf \<and> paint 1 T = ins_fix C s)"
  using assms
proof (induction C s arbitrary: t rule: ins_fix.induct)
  case (1 s)
  then have "insert_fixup_loop t (raddr s) = Some t"
    by (intro insert_fixup_stop [where C = "[]"]) auto
  with 1 show ?case by auto
next
  case (2 f s)
  then have "insert_fixup_loop t (raddr s) = Some t"
    by (intro insert_fixup_stop [where C = "[f]"]) auto
  with 2 show ?case by (auto intro!: exI [where x = "plugf f s"])
next
  case (3 f g C s)
  show ?case
  proof (cases "fcolor f = 0")
    case False
    with 3 have "insert_fixup_loop t (raddr s) = Some t"
      by (intro insert_fixup_stop [where C = "f # g # C"]) auto
    with 3 False show ?thesis
      by (auto simp: plug_not_Lf intro!: exI [where x = "plug C (plugf g (plugf f s))"])
  next
    case True
    from "3.prems" have S: "st t0 rp A t (plug C (plugf g (plugf f s)))" by simp
    note loop = insert_fixup_iterate [OF S "3.prems"(2) True]
    show ?thesis
    proof (cases "rcolor (sibling g) = 0")
      case u: True
      show ?thesis unfolding loop
      proof (rule runs_bind [OF insert_fixup_step_red [OF S "3.prems"(2) u]], clarify)
        fix t' assume S': "st t0 rp A t' (plug C (plugf (paintf 0 (paint_sib 1 g)) (plugf (paintf 1 f) s)))"
        have "C \<noteq> [] \<Longrightarrow> fcolor (last C) \<noteq> 0" "climbs C \<longrightarrow> rp = Sent" using "3.prems"(3,4) True u by simp_all
        from "3.IH" [OF _ u S' _ this] True u
        show "runs (insert_fixup_loop t' (faddr g))
                (\<lambda>t'. \<exists>T. st t0 rp A t' T \<and> T \<noteq> Lf \<and> paint 1 T = ins_fix (f # g # C) s)"
          by simp
      qed
    next
      case u: False
      show ?thesis unfolding loop
      proof (rule runs_bind [OF insert_fixup_step_rot [OF S "3.prems"(2) u]], clarify)
        fix t' h s' assume s': "s' \<noteq> Lf" "fcolor h = 1" "plugf h s' = ins_rot f g s"
          and S': "st t0 rp A t' (plug (h # C) s')"
        have "insert_fixup_loop t' (raddr s') = Some t'"
          using S' s' by (intro insert_fixup_stop [where C = "h # C"]) auto
        moreover have "plug C (ins_rot f g s) \<noteq> Lf"
          using plug_not_Lf [OF plugf_not_Lf, of C h s'] s'(3) by simp
        ultimately show "runs (insert_fixup_loop t' (raddr s'))
                (\<lambda>t'. \<exists>T. st t0 rp A t' T \<and> T \<noteq> Lf \<and> paint 1 T = ins_fix (f # g # C) s)"
          using S' s' True u by auto
      qed
    qed
  qed
qed

lemma insert_fixup_runs:
  assumes "st t0 rp A t (plug C s)" and "s \<noteq> Lf" and "C \<noteq> [] \<Longrightarrow> fcolor (last C) \<noteq> 0"
    and "climbs C \<longrightarrow> rp = Sent"
  shows "runs (rbtree_insert_fixup t (raddr s)) (\<lambda>t'. st t0 rp A t' (ins_fix C s))"
  unfolding rbtree_insert_fixup_def
proof (rule runs_bind [OF insert_fixup_loop_runs [OF assms]], assumption, clarify)
  fix t' T assume "st t0 rp A t' T" "T \<noteq> Lf" "paint 1 T = ins_fix C s"
  then show "runs (util_rbt_black (root t') t') (\<lambda>t'. st t0 rp A t' (ins_fix C s))"
    using st_black_root by metis
qed

text \<open>When the parent link of the root leads to no node, such a fix-up faults.\<close>

lemma insert_fixup_loop_faults:
  assumes "st t0 rp A t (plug C s)" and "s \<noteq> Lf" and "climbs C" and "mem t0 rp = None"
  shows "insert_fixup_loop t (raddr s) = None"
  using assms(1-3)
proof (induction C s arbitrary: t rule: ins_fix.induct)
  case (1 s)
  obtain l n kn cn dn r where sn: "s = Nd l n kn cn dn r" using "1.prems"(2) by (cases s) auto
  have "mem t rp = None" using "1.prems"(1) assms(4) by (auto simp: st_def frame_rel_def domIff)
  with st_node [of t0 rp A t "[]"] "1.prems"(1) sn show ?case
    by (subst insert_fixup_loop.simps) (simp add: util_rbt_isred_def)
next
  case (2 f s)
  then show ?case by simp
next
  case (3 f g C s)
  then have S: "st t0 rp A t (plug C (plugf g (plugf f s)))" and c: "fcolor f = 0" "rcolor (sibling g) = 0" "climbs C" by simp_all
  from insert_fixup_step_red [OF S "3.prems"(2) c(2)] obtain t' where
    t': "insert_fixup_step t (raddr s) = Some (t', faddr g)"
      "st t0 rp A t' (plug C (plugf (paintf 0 (paint_sib 1 g)) (plugf (paintf 1 f) s)))" by (auto elim: runsE)
  from "3.IH" [OF _ c(2) t'(2) _ c(3)] c(1) have "insert_fixup_loop t' (faddr g) = None" by simp
  with insert_fixup_iterate [OF S "3.prems"(2) c(1)] t'(1) show ?case by simp
qed

section \<open>Linking the new node\<close>

text \<open>The path to the insert position, and the list insertion that it amounts to.\<close>

fun ins_path :: "int \<Rightarrow> rbt \<Rightarrow> frame list \<Rightarrow> frame list" where
  "ins_path k Lf C = C"
| "ins_path k (Nd l a k' c d r) C =
     (if k < k' then ins_path k l (FL a k' c d r # C) else ins_path k r (FR l a k' c d # C))"

fun ins_list :: "(ptr \<times> int \<times> nat) \<Rightarrow> (ptr \<times> int \<times> nat) list \<Rightarrow> (ptr \<times> int \<times> nat) list" where
  "ins_list x [] = [x]"
| "ins_list x (y # ys) = (if fst (snd x) < fst (snd y) then x # y # ys else y # ins_list x ys)"

lemma plug_ins_path: "plug (ins_path k T C) Lf = plug C T"
  by (induction k T C rule: ins_path.induct) auto

lemma ins_list_le:
  "(\<forall>y \<in> set xs. fst (snd y) \<le> fst (snd x)) \<Longrightarrow> ins_list x (xs @ ys) = xs @ ins_list x ys"
  by (induction xs) auto

lemma ins_list_append_gt:
  "ys \<noteq> [] \<Longrightarrow> fst (snd x) < fst (snd (hd ys)) \<Longrightarrow> ins_list x (xs @ ys) = ins_list x xs @ ys"
proof (induction xs)
  case Nil
  then show ?case by (cases ys) auto
qed auto

lemma inorder_ins_path:
  assumes "sorted (keys T)"
  shows "inorder (plug (ins_path k T C) (Nd Lf z k c d Lf)) =
         path_l C @ ins_list (z, k, d) (inorder T) @ path_r C"
  using assms
proof (induction k T C rule: ins_path.induct)
  case (1 k C)
  then show ?case by (simp add: inorder_plug)
next
  case (2 k l a k' c' d' r C)
  show ?case
  proof (cases "k < k'")
    case True
    with 2 show ?thesis
      by (simp add: sorted_append ins_list_append_gt)
  next
    case False
    with "2.prems" have "\<forall>y \<in> set (inorder l @ [(a, k', d')]). fst (snd y) \<le> fst (snd (z, k, d))"
      by (fastforce simp: sorted_append)
    from ins_list_le [OF this, of "inorder r"] 2 False show ?thesis
      by (simp add: sorted_append)
  qed
qed

lemma set_ins_list: "set (ins_list x xs) = insert x (set xs)"
  by (induction xs) auto

lemma sorted_ins_list:
  "sorted (map (\<lambda>(a, k, d). k) xs) \<Longrightarrow> sorted (map (\<lambda>(a, k, d). k) (ins_list x xs))"
proof (induction xs)
  case (Cons y ys)
  then show ?case by (cases x; cases y) (force simp: set_ins_list)
qed (auto split: prod.split)

text \<open>The walk of the code ends at the first frame of that path.\<close>

lemma insert_walk_runs:
  assumes "tree_rel t rp (plug C T)"
  shows "insert_walk t k (raddr T) (ctop y C) = Some (ctop y (ins_path k T C))"
  using assms
proof (induction k T C rule: ins_path.induct)
  case (1 k C)
  show ?case by (subst insert_walk.simps) simp
next
  case (2 k l a k' c d r C)
  from "2.prems" have "a \<noteq> Sent" by (auto simp: tree_rel_def)
  with 2 tree_rel_node [OF "2.prems"] show ?case
    by (subst insert_walk.simps) (simp add: fault_simps)
qed

text \<open>Adding a red leaf at the end of a path: the links of the new node and of its parent.\<close>

definition link_leaf :: "ptr \<Rightarrow> frame list \<Rightarrow> rbtree \<Rightarrow> rbtree option" where
  "link_leaf z D t =
     (case D of [] \<Rightarrow> set_parent z Sent (t\<lparr>root := z\<rparr>)
      | f # D' \<Rightarrow> do {
          t \<leftarrow> set_parent z (faddr f) t;
          (if is_left f then set_left (faddr f) z t else set_right (faddr f) z t) })"

lemma rep_link:
  assumes "crep h rp (f # C) Sent" and "distinct (caddrs (f # C))" and "z \<notin> set (caddrs (f # C))"
    and "h (faddr f) = Some n"
  shows "crep (h(faddr f \<mapsto> (if is_left f then n\<lparr>left := z\<rparr> else n\<lparr>right := z\<rparr>))) rp (f # C) z"
  using assms by (cases f) auto

lemma link_leaf_runs:
  assumes rel: "tree_rel t rp (plug D Lf)" and z: "mem t z = Some n" "key n = k" "data n = d"
    and fresh: "z \<noteq> Sent" "z \<notin> set (caddrs D)"
    and top: "D = [] \<longrightarrow> rp = Sent"
  shows "runs (do { t \<leftarrow> link_leaf z D t;
                    t \<leftarrow> set_left z Sent t;
                    t \<leftarrow> set_right z Sent t;
                    util_rbt_red z t })
           (\<lambda>t'. tree_rel t' rp (plug D (Nd Lf z k 0 d Lf)) \<and>
                 frame_rel (insert z (set (caddrs D))) t t')"
proof (cases D)
  case Nil
  have "n\<lparr>parent := Sent, left := Sent, right := Sent, color := 0\<rparr> =
        \<lparr>key = k, parent = Sent, right = Sent, left = Sent, color = 0, data = d\<rparr>"
    using z by (cases n) simp
  with Nil assms show ?thesis
    by (auto simp: link_leaf_def store_defs tree_rel_def frame_rel_def fault_simps)
next
  case (Cons f C)
  let ?p = "faddr f"
  from rel Cons have p: "\<exists>pn. mem t ?p = Some pn"
    by (cases f) (auto simp: tree_rel_def rep_plug)
  then obtain pn where pn: "mem t ?p = Some pn" by blast
  have zp: "z \<noteq> ?p" "?p \<noteq> z" using fresh Cons by auto
  have ps: "?p \<noteq> Sent" "?p \<noteq> NULL" using rel Cons by (cases f; auto simp: tree_rel_def)+
  let ?pn = "if is_left f then pn\<lparr>left := z\<rparr> else pn\<lparr>right := z\<rparr>"
  let ?zn = "\<lparr>key = k, parent = ?p, right = Sent, left = Sent, color = 0, data = d\<rparr>"
  have zn: "n\<lparr>parent := ?p, left := Sent, right := Sent, color := 0\<rparr> = ?zn"
    using z by (cases n) simp
  have run: "Option.bind (link_leaf z D t) (\<lambda>t. Option.bind (set_left z Sent t)
     (\<lambda>t. Option.bind (set_right z Sent t) (util_rbt_red z)))
     = Some (t\<lparr>mem := (mem t)(?p \<mapsto> ?pn, z \<mapsto> ?zn)\<rparr>)"
    using Cons z pn zp by (simp add: link_leaf_def store_defs fault_simps fun_upd_twist zn)
  have D: "crep (mem t) rp D Sent" "distinct (caddrs D)" "D \<noteq> []" "ctop rp D = ?p"
    "?p \<in> set (caddrs D)"
    using rel Cons by (simp_all add: tree_rel_def rep_plug del: plug.simps)
  have "crep ((mem t)(?p \<mapsto> ?pn)) rp D z"
    using rep_link [of "mem t" rp f C z pn] D fresh pn unfolding Cons by simp
  with D have "rep ((mem t)(?p \<mapsto> ?pn, z \<mapsto> ?zn)) rp (plug D (Nd Lf z k 0 d Lf))"
    using fresh by (simp add: rep_plug del: crep.simps)
  with rel z fresh D ps have
    "tree_rel (t\<lparr>mem := (mem t)(?p \<mapsto> ?pn, z \<mapsto> ?zn)\<rparr>) rp (plug D (Nd Lf z k 0 d Lf))"
    by (auto simp: tree_rel_def raddr_plug)
  moreover have "frame_rel (insert z (set (caddrs D))) t
                   (t\<lparr>mem := (mem t)(?p \<mapsto> ?pn, z \<mapsto> ?zn)\<rparr>)"
    using Cons z pn by (auto simp: frame_rel_def)
  ultimately show ?thesis unfolding run by simp
qed

section \<open>Insertion\<close>

lemma last_ins_path_color:
  "C \<noteq> [] \<or> T \<noteq> Lf \<Longrightarrow>
   fcolor (last (ins_path k T C)) = (if C = [] then rcolor T else fcolor (last C))"
  by (induction k T C rule: ins_path.induct) auto

lemma set_caddrs_ins_path: "set (caddrs (ins_path k T C)) = set (caddrs C) \<union> set (addrs T)"
  by (induction k T C rule: ins_path.induct) auto

fun fkey :: "frame \<Rightarrow> int" where
  "fkey (FL a k c d r) = k"
| "fkey (FR l a k c d) = k"

lemma is_left_ins_path:
  "T \<noteq> Lf \<Longrightarrow> is_left (hd (ins_path k T C)) \<longleftrightarrow> k < fkey (hd (ins_path k T C))"
proof (induction k T C rule: ins_path.induct)
  case (2 k l a k' c d r C)
  then show ?case by (cases l; cases r) auto
qed simp

text \<open>Up to the fix-up, \<open>util_rbtree_insert\<close> links the new node at the end of the path.\<close>

lemma insert_unfold:
  assumes rel: "tree_rel t rp T" and z: "mem t z = Some n" and fresh: "z \<noteq> Sent" "z \<notin> set (addrs T)"
  shows "util_rbtree_insert t z =
    Option.bind (Option.bind (link_leaf z (ins_path (key n) T []) t) (\<lambda>t.
                 Option.bind (set_left z Sent t) (\<lambda>t.
                 Option.bind (set_right z Sent t) (util_rbt_red z))))
      (\<lambda>t. Option.bind (rbtree_insert_fixup t z) (\<lambda>t. Some (t\<lparr>rbsize := rbsize t + 1\<rparr>)))"
proof -
  have nn: "z \<noteq> NULL" using rel z by (auto simp: tree_rel_def)
  have root: "root t = raddr T" using rel by (simp add: tree_rel_def)
  show ?thesis
  proof (cases T)
    case Lf
    with nn fresh root show ?thesis by (simp add: util_rbtree_insert_def link_leaf_def)
  next
    case (Nd l a k c d r)
    have "a \<noteq> Sent" using rel Nd by (auto simp: tree_rel_def)
    obtain f D where D: "ins_path (key n) T [] = f # D"
      using set_caddrs_ins_path [of "key n" T "[]"] Nd by (cases "ins_path (key n) T []") auto
    have walk: "insert_walk t (key n) (root t) NULL = Some (faddr f)"
      using insert_walk_runs [of t rp "[]" T "key n" NULL] rel root D by simp
    have left: "is_left f \<longleftrightarrow> key n < fkey f"
      using is_left_ins_path [of T "key n" "[]"] D Nd by simp
    have "tree_rel t rp (plug (f # D) Lf)"
      using rel plug_ins_path [of "key n" T "[]"] D by simp
    then obtain yn where yn: "mem t (faddr f) = Some yn" "key yn = fkey f"
      by (cases f) (auto dest!: tree_rel_node)
    have zf: "faddr f \<noteq> z"
      using fresh set_caddrs_ins_path [of "key n" T "[]"] D
      by (metis UnCI caddrs_simps(2) faddr_in set_append caddrs_simps(1) empty_set sup_bot_left)
    have "root t \<noteq> Sent" using root Nd \<open>a \<noteq> Sent\<close> by simp
    with nn fresh z walk D yn left zf show ?thesis
      by (simp add: util_rbtree_insert_def link_leaf_def set_parent_def store_def)
  qed
qed

lemma insert_runs:
  assumes rel: "tree_rel t rp T" and inv: "rb_inv T" and z: "mem t z = Some n"
    and fresh: "z \<noteq> Sent" "z \<notin> set (addrs T)" and top: "climbs (ins_path (key n) T []) \<longrightarrow> rp = Sent"
  shows "runs (util_rbtree_insert t z) (\<lambda>t'. \<exists>T'. tree_rel t' rp T' \<and> rb_inv T' \<and>
           inorder T' = ins_list (z, key n, data n) (inorder T) \<and>
           rbsize t' = rbsize t + 1 \<and> dom (mem t') = dom (mem t) \<and>
           (\<forall>p. p \<noteq> z \<longrightarrow> p \<notin> set (addrs T) \<longrightarrow> mem t' p = mem t p))"
proof -
  let ?D = "ins_path (key n) T []" and ?s = "Nd Lf z (key n) 0 (data n) Lf"
  let ?A = "insert z (set (addrs T))"
  have D: "plug ?D Lf = T" "set (caddrs ?D) = set (addrs T)"
    by (simp_all add: plug_ins_path set_caddrs_ins_path)
  have last: "?D \<noteq> [] \<Longrightarrow> fcolor (last ?D) = 1"
    using last_ins_path_color [of "[]" T "key n"] inv D by (cases T) (auto simp: rb_inv_def)
  have paths: "path_c ?D" "path_h ?D 0"
    using inv D(1) invc_plug [of ?D Lf] invh_plug [of ?D Lf] by (auto simp: rb_inv_def)
  have order: "inorder (plug ?D ?s) = ins_list (z, key n, data n) (inorder T)"
    using inorder_ins_path [of T "key n" "[]"] inv by (simp add: rb_inv_def)
  have inv': "rb_inv (ins_fix ?D ?s)"
    using ins_fix_inv [of ?s ?D] paths last inv
    by (simp add: rb_inv_def inorder_ins_fix order sorted_ins_list)
  have "tree_rel t rp (plug ?D Lf)" "z \<notin> set (caddrs ?D)"
    using rel D fresh by simp_all
  have "?D = [] \<longrightarrow> rp = Sent" using top by auto
  from link_leaf_runs [OF \<open>tree_rel t rp (plug ?D Lf)\<close> z refl refl fresh(1) \<open>z \<notin> set (caddrs ?D)\<close> this]
  show ?thesis unfolding insert_unfold [OF rel z fresh]
  proof (rule runs_bind, elim conjE)
    fix t1 assume 1: "tree_rel t1 rp (plug ?D ?s)" "frame_rel (insert z (set (caddrs ?D))) t t1"
    have "st t1 rp ?A t1 (plug ?D ?s)"
      using 1 D by (intro st_I) auto
    from insert_fixup_runs [OF this _ _ top] last
    have "runs (rbtree_insert_fixup t1 z) (\<lambda>t'. st t1 rp ?A t' (ins_fix ?D ?s))" by simp
    then show "runs (Option.bind (rbtree_insert_fixup t1 z) (\<lambda>t. Some (t\<lparr>rbsize := rbsize t + 1\<rparr>)))
       (\<lambda>t'. \<exists>T'. tree_rel t' rp T' \<and> rb_inv T' \<and>
           inorder T' = ins_list (z, key n, data n) (inorder T) \<and>
           rbsize t' = rbsize t + 1 \<and> dom (mem t') = dom (mem t) \<and>
           (\<forall>p. p \<noteq> z \<longrightarrow> p \<notin> set (addrs T) \<longrightarrow> mem t' p = mem t p))"
      using 1(2) inv' order D(2)
      by (elim runs_bind) (auto simp: st_def tree_rel_def frame_rel_def inorder_ins_fix
            intro!: exI [where x = "ins_fix ?D ?s"])
  qed
qed

lemma insert_faults:
  assumes rel: "tree_rel t rp T" and inv: "rb_inv T" "T \<noteq> Lf" and z: "mem t z = Some n"
    and fresh: "z \<noteq> Sent" "z \<notin> set (addrs T)" and climbs: "climbs (ins_path (key n) T [])" and rp: "mem t rp = None"
  shows "util_rbtree_insert t z = None"
proof -
  let ?D = "ins_path (key n) T []" and ?s = "Nd Lf z (key n) 0 (data n) Lf"
  have D: "plug ?D Lf = T" "set (caddrs ?D) = set (addrs T)" by (simp_all add: plug_ins_path set_caddrs_ins_path)
  then have ne: "?D \<noteq> []" using inv(2) by auto
  have "tree_rel t rp (plug ?D Lf)" "z \<notin> set (caddrs ?D)" using rel D fresh by simp_all
  from link_leaf_runs [OF this(1) z refl refl fresh(1) this(2)] ne obtain t1 where
    t1: "Option.bind (link_leaf z ?D t) (\<lambda>t. Option.bind (set_left z Sent t) (\<lambda>t. Option.bind (set_right z Sent t) (util_rbt_red z))) = Some t1"
      "tree_rel t1 rp (plug ?D ?s)" "frame_rel (insert z (set (caddrs ?D))) t t1" by (auto elim: runsE)
  have "st t1 rp (insert z (set (addrs T))) t1 (plug ?D ?s)" using t1(2) D by (intro st_I) auto
  moreover have "mem t1 rp = None" using t1(3) rp by (auto simp: frame_rel_def domIff)
  ultimately have "insert_fixup_loop t1 (raddr ?s) = None" by (intro insert_fixup_loop_faults [OF _ _ climbs]) simp_all
  then show ?thesis unfolding insert_unfold [OF rel z fresh] t1(1) by (simp add: rbtree_insert_fixup_def)
qed

end
