(* ===== verification/RbQuery.thy ===== *)
theory RbQuery
  imports RbInsert
begin

text \<open>
  Correctness of the operations of \<open>conhash/util_rbtree.c\<close> that read the tree: minimum, maximum,
  search, the successor lookup with wrap-around, the traversal and the consistency check.  Each
  is related to the in-order list of the abstract tree.
\<close>

section \<open>Minimum and maximum\<close>

text \<open>The path to the leftmost node, and that node's subtree.\<close>

fun leftmost :: "rbt \<Rightarrow> frame list \<Rightarrow> frame list \<times> rbt" where
  "leftmost (Nd (Nd l' a' k' c' d' r') a k c d r) D = leftmost (Nd l' a' k' c' d' r') (FL a k c d r # D)"
| "leftmost t D = (D, t)"

lemma leftmost_plug: "leftmost s D = (E, u) \<Longrightarrow> plug E u = plug D s"
  by (induction s D rule: leftmost.induct) auto

lemma leftmost_Lf: "leftmost s D = (E, u) \<Longrightarrow> s \<noteq> Lf \<Longrightarrow> \<exists>a k c d r. u = Nd Lf a k c d r"
  by (induction s D rule: leftmost.induct) auto

lemma leftmost_path: "leftmost s D = (E, u) \<Longrightarrow> \<exists>F. E = F @ D \<and> path_l F = []"
proof (induction s D rule: leftmost.induct)
  case (1 l' a' k' c' d' r' a k c d r D)
  then obtain F where F: "E = F @ FL a k c d r # D" "path_l F = []" by auto
  have "path_l (F @ [FL a k c d r]) = []"
    using F(2) by (induction F rule: path_l.induct) auto
  with F(1) show ?case by (intro exI [of _ "F @ [FL a k c d r]"]) simp
qed auto

lemma leftmost_first: "leftmost s [] = (E, u) \<Longrightarrow> s \<noteq> Lf \<Longrightarrow> raddr u = fst (hd (inorder s))"
  using leftmost_plug [of s "[]" E u] leftmost_Lf [of s "[]" E u] leftmost_path [of s "[]" E u]
  by (auto simp: inorder_plug dest: arg_cong [of "plug E u" s inorder])

lemma raddr_neq_Sent: "tree_rel t rp (plug C s) \<Longrightarrow> (raddr s = Sent) = (s = Lf)"
  by (cases s) (auto simp: tree_rel_def)

lemma subtree_min_stop:
  assumes "tree_rel t rp (plug D (Nd Lf a k c d r))"
  shows "subtree_min_loop t a = Some a"
  using tree_rel_node [OF assms] by (subst subtree_min_loop.simps) (simp add: fault_simps)

lemma subtree_min_loop_leftmost:
  assumes "tree_rel t rp (plug D s)" and "s \<noteq> Lf"
  shows "subtree_min_loop t (raddr s) = Some (raddr (snd (leftmost s D)))"
  using assms
proof (induction s D rule: leftmost.induct)
  case (1 l' a' k' c' d' r' a k c d r D)
  from "1.prems" have rel: "tree_rel t rp (plug (FL a k c d r # D) (Nd l' a' k' c' d' r'))" by simp
  from tree_rel_node [OF "1.prems"(1)] raddr_neq_Sent [OF rel] "1.IH" [OF rel] show ?case
    by (subst subtree_min_loop.simps) (simp add: fault_simps)
qed (auto intro: subtree_min_stop)

lemma snd_leftmost: "snd (leftmost s D) = snd (leftmost s [])"
proof (induction s D rule: leftmost.induct)
  case (1 l' a' k' c' d' r' a k c d r D)
  have "snd (leftmost (Nd l' a' k' c' d' r') D) = snd (leftmost (Nd l' a' k' c' d' r') D')" for D D'
    by (induction "Nd l' a' k' c' d' r'" D arbitrary: l' a' k' c' d' r' D' rule: leftmost.induct) auto
  then show ?case by simp
qed auto

lemma subtree_min_runs:
  assumes "tree_rel t rp (plug C s)"
  shows "util_rbsubtree_min t (raddr s) =
         Some (if s = Lf then NULL else fst (hd (inorder s)))"
proof (cases "s = Lf")
  case True
  then show ?thesis by (simp add: util_rbsubtree_min_def)
next
  case False
  obtain E u where "leftmost s [] = (E, u)" by fastforce
  with leftmost_first [OF this] False subtree_min_loop_leftmost [OF assms] raddr_neq_Sent [OF assms]
    snd_leftmost [of s C]
  show ?thesis by (simp add: util_rbsubtree_min_def)
qed

lemma subtree_max_loop_runs:
  assumes "tree_rel t rp (plug C s)" and "s \<noteq> Lf"
  shows "subtree_max_loop t (raddr s) = Some (fst (last (inorder s)))"
  using assms
proof (induction s arbitrary: C)
  case (Nd l a k c d r)
  have rel: "tree_rel t rp (plug (FR l a k c d # C) r)" using Nd.prems by simp
  from Nd.IH(2) [OF rel] tree_rel_node [OF Nd.prems(1)] raddr_neq_Sent [OF rel] show ?case
    by (subst subtree_max_loop.simps) (cases r; auto simp: fault_simps)
qed simp

lemma subtree_max_runs:
  assumes "tree_rel t rp (plug C s)"
  shows "util_rbsubtree_max t (raddr s) =
         Some (if s = Lf then NULL else fst (last (inorder s)))"
  using subtree_max_loop_runs [OF assms] raddr_neq_Sent [OF assms]
  by (auto simp: util_rbsubtree_max_def)

section \<open>Search\<close>

lemma search_loop_runs:
  assumes "tree_rel t rp (plug C s)" and "sorted (keys s)"
  shows "\<exists>p. search_loop t k (raddr s) = Some p \<and>
             (if k \<in> set (keys s) then \<exists>d. (p, k, d) \<in> set (inorder s) else p = NULL)"
  using assms
proof (induction s arbitrary: C)
  case Lf
  then show ?case by (subst search_loop.simps) simp
next
  case (Nd l a k' c d r)
  have l: "tree_rel t rp (plug (FL a k' c d r # C) l)" and r: "tree_rel t rp (plug (FR l a k' c d # C) r)"
    using Nd.prems by simp_all
  have "a \<noteq> Sent" using raddr_neq_Sent [OF Nd.prems(1)] by simp
  then have unf: "search_loop t k a = (if k < k' then search_loop t k (raddr l)
      else if k > k' then search_loop t k (raddr r) else Some a)"
    using tree_rel_node [OF Nd.prems(1)] by (subst search_loop.simps) (simp add: fault_simps)
  have ord: "\<forall>x\<in>set (keys l). x \<le> k'" "\<forall>x\<in>set (keys r). k' \<le> x" "sorted (keys l)" "sorted (keys r)"
    using Nd.prems(2) by (auto simp: sorted_append)
  consider "k < k'" | "k > k'" | "k = k'" by linarith
  then show ?case
  proof cases
    case 1
    with Nd.IH(1) [OF l ord(3)] unf ord(2) show ?thesis by (fastforce split: if_splits)
  next
    case 2
    with Nd.IH(2) [OF r ord(4)] unf ord(1) show ?thesis by (fastforce split: if_splits)
  next
    case 3
    with unf show ?thesis by auto
  qed
qed

section \<open>Lookup\<close>

text \<open>
  The first entry whose key is not below \<open>k\<close>, and the very first entry when there is none: the
  keys are a ring.
\<close>

definition ring_succ :: "int \<Rightarrow> (ptr \<times> int \<times> nat) list \<Rightarrow> ptr" where
  "ring_succ k xs =
     (case dropWhile (\<lambda>x. fst (snd x) < k) xs of
        y # ys \<Rightarrow> fst y
      | [] \<Rightarrow> (case xs of y # ys \<Rightarrow> fst y | [] \<Rightarrow> NULL))"

lemma dropWhile_keys:
  assumes "sorted (map (\<lambda>(a, k, d). k) xs)" and "dropWhile (\<lambda>x. fst (snd x) < k) xs = y # ys"
  shows "y \<in> set xs" and "k \<le> fst (snd y)"
    and "e \<in> set xs \<Longrightarrow> k \<le> fst (snd e) \<Longrightarrow> fst (snd y) \<le> fst (snd e)"
proof -
  from assms(2) have "y \<in> set (dropWhile (\<lambda>x. fst (snd x) < k) xs)" by simp
  then show "y \<in> set xs" by (rule set_dropWhileD)
  show "k \<le> fst (snd y)" using assms(2) by (metis dropWhile_eq_Cons_conv not_less)
  show "fst (snd y) \<le> fst (snd e)" if "e \<in> set xs" "k \<le> fst (snd e)"
    using assms that by (induction xs) (auto simp: case_prod_unfold split: if_splits)
qed

text \<open>What the entry found is, by its key.\<close>

lemma ring_succ_least:
  assumes "sorted (map (\<lambda>(a, k, d). k) xs)" and "xs \<noteq> []"
  shows "\<exists>k' d. (ring_succ k xs, k', d) \<in> set xs \<and>
     (if \<exists>x \<in> set xs. k \<le> fst (snd x) then k \<le> k' \<and> (\<forall>x \<in> set xs. k \<le> fst (snd x) \<longrightarrow> k' \<le> fst (snd x))
      else \<forall>x \<in> set xs. k' \<le> fst (snd x))"
proof (cases "dropWhile (\<lambda>x. fst (snd x) < k) xs")
  case Nil
  then have low: "\<not> (\<exists>x \<in> set xs. k \<le> fst (snd x))" by auto
  obtain a k' d ys where xs: "xs = (a, k', d) # ys" using assms(2) by (cases xs) auto
  have "\<forall>x \<in> set xs. k' \<le> fst (snd x)" using assms(1) xs by force
  with low Nil xs show ?thesis unfolding ring_succ_def Nil by auto
next
  case (Cons y ys)
  note D = dropWhile_keys [OF assms(1) Cons]
  obtain a k' d where y: "y = (a, k', d)" by (cases y)
  have "ring_succ k xs = a" by (simp add: ring_succ_def Cons y)
  moreover have "(a, k', d) \<in> set xs" "k \<le> k'" "\<forall>x \<in> set xs. k \<le> fst (snd x) \<longrightarrow> k' \<le> fst (snd x)"
    using D y by auto
  moreover from this(1,2) have "\<exists>x \<in> set xs. k \<le> fst (snd x)" by force
  ultimately show ?thesis by auto
qed

lemma dropWhile_append_if:
  "dropWhile P (xs @ ys) = (if dropWhile P xs = [] then dropWhile P ys else dropWhile P xs @ ys)"
  by (induction xs) auto

definition first_ge :: "int \<Rightarrow> (ptr \<times> int \<times> nat) list \<Rightarrow> ptr \<Rightarrow> ptr" where
  "first_ge k xs p = (case dropWhile (\<lambda>x. fst (snd x) < k) xs of y # ys \<Rightarrow> fst y | [] \<Rightarrow> p)"

lemma lookup_loop_runs:
  assumes "tree_rel t rp (plug C s)" and "sorted (keys s)"
  shows "lookup_loop t k p (raddr s) = Some (first_ge k (inorder s) p)"
  using assms
proof (induction s arbitrary: C p)
  case Lf
  then show ?case by (subst lookup_loop.simps) (simp add: first_ge_def)
next
  case (Nd l a k' c d r)
  have l: "tree_rel t rp (plug (FL a k' c d r # C) l)" and r: "tree_rel t rp (plug (FR l a k' c d # C) r)"
    using Nd.prems by simp_all
  have "a \<noteq> Sent" using raddr_neq_Sent [OF Nd.prems(1)] by simp
  then have unf: "lookup_loop t k p a = (if k \<le> k' then lookup_loop t k a (raddr l)
      else lookup_loop t k p (raddr r))"
    using tree_rel_node [OF Nd.prems(1)] by (subst lookup_loop.simps) (simp add: fault_simps)
  have ord: "\<And>x. x \<in> set (inorder l) \<Longrightarrow> fst (snd x) \<le> k'" "sorted (keys l)" "sorted (keys r)"
    using Nd.prems(2) by (force simp: sorted_append)+
  show ?case
  proof (cases "k \<le> k'")
    case True
    with Nd.IH(1) [OF l ord(2)] unf show ?thesis
      by (auto simp: first_ge_def dropWhile_append_if split: list.split simp del: dropWhile_eq_Nil_conv)
  next
    case False
    then have "\<And>x. x \<in> set (inorder l) \<Longrightarrow> fst (snd x) < k" using ord(1) by fastforce
    with Nd.IH(2) [OF r ord(3)] unf False show ?thesis
      by (simp add: first_ge_def dropWhile_append2)
  qed
qed

lemma lookup_runs:
  assumes rel: "tree_rel t rp T" and "sorted (keys T)"
  shows "util_rbtree_lookup t k = Some (ring_succ k (inorder T))"
proof (cases T)
  case Lf
  with rel show ?thesis
    by (simp add: util_rbtree_lookup_def util_rbtree_isempty_def ring_succ_def tree_rel_def)
next
  case (Nd l a k' c d r)
  have root: "root t = raddr T" "root t \<noteq> Sent" using rel Nd by (auto simp: tree_rel_def)
  have null: "fst x \<noteq> NULL" if "x \<in> set (inorder T)" for x
  proof -
    have "fst x \<in> set (addrs T)" using that by (auto simp flip: map_fst_inorder)
    with rel show ?thesis by (auto simp: tree_rel_def)
  qed
  have rel': "tree_rel t rp (plug [] T)" using rel by simp
  note L = lookup_loop_runs [OF rel' assms(2), of k NULL] and M = subtree_min_runs [OF rel']
  show ?thesis
  proof (cases "dropWhile (\<lambda>x. fst (snd x) < k) (inorder T)")
    case Nil
    obtain y ys where y: "inorder T = y # ys" using Nd by (cases "inorder T") auto
    have "lookup_loop t k NULL (root t) = Some NULL" "util_rbsubtree_min t (root t) = Some (fst y)"
      using L [unfolded first_ge_def Nil] M root(1) Nd y by simp_all
    moreover have "ring_succ k (inorder T) = fst y"
      unfolding ring_succ_def Nil by (simp add: y)
    ultimately show ?thesis using root(2)
      by (simp add: util_rbtree_lookup_def util_rbtree_isempty_def)
  next
    case (Cons y ys)
    then have "y \<in> set (inorder T)" by (metis list.set_intros(1) set_dropWhileD)
    with null Cons L root show ?thesis
      by (simp add: util_rbtree_lookup_def util_rbtree_isempty_def first_ge_def ring_succ_def fault_simps)
  qed
qed


section \<open>Traversal\<close>

lemma mid_travel_loop:
  assumes "tree_rel t rp (plug C s)" and "s \<noteq> Lf"
  shows "rbtree_mid_travel t opera (raddr s) x =
         Some (fold opera (map (\<lambda>e. the (mem t (fst e))) (inorder s)) x)"
  using assms
proof (induction s arbitrary: C x)
  case (Nd l a k c d r)
  have l: "tree_rel t rp (plug (FL a k c d r # C) l)" and r: "tree_rel t rp (plug (FR l a k c d # C) r)"
    using Nd.prems by simp_all
  show ?case
    using Nd.IH(1) [OF l] Nd.IH(2) [OF r] raddr_neq_Sent [OF l] raddr_neq_Sent [OF r]
      tree_rel_node [OF Nd.prems(1)]
    by (subst rbtree_mid_travel.simps) (cases "l = Lf"; cases "r = Lf"; simp add: fault_simps)
qed simp

lemma mid_travel_runs:
  assumes "tree_rel t rp T"
  shows "util_rbtree_mid_travel t opera x =
         Some (fold opera (map (\<lambda>e. the (mem t (fst e))) (inorder T)) x)"
  using mid_travel_loop [of t rp "[]" T opera x] raddr_neq_Sent [of t rp "[]" T] assms
  by (cases "T = Lf") (auto simp: util_rbtree_mid_travel_def util_rbtree_isempty_def tree_rel_def)

section \<open>The consistency check accepts red-black trees\<close>

fun maxdepth :: "rbt \<Rightarrow> int \<Rightarrow> int" where
  "maxdepth Lf n = 0"
| "maxdepth (Nd l a k c d r) n =
     (if l = Lf then n else if r = Lf then max n (maxdepth l (n + 1))
      else max (maxdepth l (n + 1)) (maxdepth r (n + 1)))"

lemma to_short_id: "0 \<le> x \<Longrightarrow> x < 32768 \<Longrightarrow> to_short x = x"
  by (simp add: to_short_def)

lemma check_rb_height_ok:
  assumes "rbh ch = 0 \<or> rbh ch = cur" and "0 < cur" "cur < 32768" "0 \<le> lv" "lv < 32768"
  shows "check_rb_height ch lv cur = ch\<lparr>rbh := cur, maxd := max (maxd ch) lv\<rparr>"
  using assms by (cases ch) (auto simp: check_rb_height_def Let_def to_short_id)

lemma maxdepth_ge: "T \<noteq> Lf \<Longrightarrow> lv \<le> maxdepth T lv"
proof (induction T arbitrary: lv)
  case (Nd l a k c d r)
  from Nd.IH(1) [of "lv + 1"] Nd.IH(2) [of "lv + 1"] show ?case
    by (cases "l = Lf"; cases "r = Lf") (auto simp: max_def)
qed simp

lemma check_subtree_runs:
  assumes "tree_rel t rp (plug C s)" and "s \<noteq> Lf" and "invc s" and "invh s" and "sorted (keys s)"
    and "fini ch = 0" and "rbh ch = 0 \<or> rbh ch = cur + int (bheight s)"
    and "0 \<le> cur" and "cur = 0 \<Longrightarrow> rcolor s = 1"
    and "cur + int (bheight s) < 32768" and "0 \<le> level" and "maxdepth s level < 32768"
  shows "rbtree_check_subtree t (raddr s) ch level cur =
         Some (ch\<lparr>rbh := cur + int (bheight s), maxd := max (maxd ch) (maxdepth s level)\<rparr>)"
  using assms
proof (induction s arbitrary: C ch level cur)
  case (Nd l a k c d r)
  have l: "tree_rel t rp (plug (FL a k c d r # C) l)" and r: "tree_rel t rp (plug (FR l a k c d # C) r)"
    using Nd.prems by simp_all
  have keyl: "\<exists>n. mem t (raddr l) = Some n \<and> color n = rcolor l \<and> key n \<le> k" if "l \<noteq> Lf"
    using that tree_rel_node [of t rp "FL a k c d r # C"] l Nd.prems(5)
    by (cases l) (auto simp: sorted_append)
  have keyr: "\<exists>n. mem t (raddr r) = Some n \<and> color n = rcolor r \<and> k \<le> key n" if "r \<noteq> Lf"
    using that tree_rel_node [of t rp "FR l a k c d # C"] r Nd.prems(5)
    by (cases r) (auto simp: sorted_append)
  let ?cur = "if c = 1 then cur + 1 else cur"
  have cur: "0 < ?cur" "c \<noteq> 1 \<longrightarrow> c = 0" using Nd.prems(3,8,9) by (cases "cur = 0"; auto)+
  have IHl: "fini ch = 0 \<Longrightarrow> rbh ch = 0 \<or> rbh ch = ?cur + int (bheight l) \<Longrightarrow> l \<noteq> Lf \<Longrightarrow>
      rbtree_check_subtree t (raddr l) ch lv ?cur =
      Some (ch\<lparr>rbh := ?cur + int (bheight l), maxd := max (maxd ch) (maxdepth l lv)\<rparr>)"
    if "0 \<le> lv" "maxdepth l lv < 32768" for ch lv
    using Nd.IH(1) [OF l] Nd.prems cur that by (cases "c = 1") (simp_all add: sorted_append)
  have IHr: "fini ch = 0 \<Longrightarrow> rbh ch = 0 \<or> rbh ch = ?cur + int (bheight r) \<Longrightarrow> r \<noteq> Lf \<Longrightarrow>
      rbtree_check_subtree t (raddr r) ch lv ?cur =
      Some (ch\<lparr>rbh := ?cur + int (bheight r), maxd := max (maxd ch) (maxdepth r lv)\<rparr>)"
    if "0 \<le> lv" "maxdepth r lv < 32768" for ch lv
    using Nd.IH(2) [OF r] Nd.prems cur that by (cases "c = 1") (simp_all add: sorted_append)
  note node = tree_rel_node [OF Nd.prems(1)] raddr_neq_Sent [OF l] raddr_neq_Sent [OF r]
  have inv: "bheight l = bheight r" "c = 0 \<Longrightarrow> rcolor l = 1 \<and> rcolor r = 1"
    using Nd.prems by auto
  have rbh: "rbh ch = 0 \<or> rbh ch = ?cur + int (bheight l)"
    using Nd.prems(7) by auto
  have lv: "0 \<le> level" "level < 32768" "?cur < 32768"
    "l \<noteq> Lf \<Longrightarrow> maxdepth l (level + 1) < 32768" "l \<noteq> Lf \<Longrightarrow> r \<noteq> Lf \<Longrightarrow> maxdepth r (level + 1) < 32768"
    using Nd.prems(10-12) maxdepth_ge [OF Nd.prems(2), of level]
    by (auto split: if_splits)
  show ?case
  proof (cases "l = Lf")
    case True
    with rbh have "rbh ch = 0 \<or> rbh ch = ?cur" by simp
    from check_rb_height_ok [OF this cur(1) lv(3,1,2)] True node Nd.prems(6) cur inv show ?thesis
      by (subst rbtree_check_subtree.simps) (auto simp: fault_simps Let_def)
  next
    case False
    note lf = False
    from keyl [OF lf] obtain ln where ln: "mem t (raddr l) = Some ln" "color ln = rcolor l" "key ln \<le> k"
      by blast
    show ?thesis
    proof (cases "r = Lf")
      case True
      with lf node Nd.prems(6) rbh cur inv ln lv IHl [of "level + 1", OF _ lv(4) Nd.prems(6) rbh lf] show ?thesis
        by (subst rbtree_check_subtree.simps, cases "c = 1")
           (simp_all add: fault_simps Let_def check_rb_height_ok max.left_commute max.commute)
    next
      case False
      from keyr [OF False] obtain rn where
        rn: "mem t (raddr r) = Some rn" "color rn = rcolor r" "k \<le> key rn" by blast
      have "cur + int (bheight (Nd l a k c d r)) = ?cur + int (bheight r)" using inv by simp
      with False lf node Nd.prems(6) inv cur ln rn lv IHl [of "level + 1", OF _ lv(4) Nd.prems(6) rbh lf]
        IHr [of "level + 1" "ch\<lparr>rbh := ?cur + int (bheight r), maxd := max (maxd ch) (maxdepth l (level + 1))\<rparr>"]
      show ?thesis
        by (subst rbtree_check_subtree.simps, cases "c = 1")
           (simp_all add: fault_simps Let_def max.assoc add.assoc)
    qed
  qed
qed simp

lemma check_runs:
  assumes "tree_rel t rp T" and "rb_inv T" and "T \<noteq> Lf"
    and "bheight T < 32768" and "maxdepth T 1 < 32768"
  shows "util_rbtree_check t = Some (0, Some (int (bheight T), max 0 (maxdepth T 1)))"
proof -
  have "tree_rel t rp (plug [] T)" "root t = raddr T" "raddr T \<noteq> Sent"
    using assms raddr_neq_Sent [of t rp "[]" T] by (auto simp: tree_rel_def)
  with check_subtree_runs [of t rp "[]" T "\<lparr>rbh = 0, maxd = 0, fini = 0\<rparr>" 0 1]
    tree_rel_isblack [of t rp "[]" T] assms show ?thesis
    by (simp add: util_rbtree_check_def rb_inv_def fault_simps)
qed

end
