(* ===== verification/RbDelete.thy ===== *)
theory RbDelete
  imports RbQuery
begin

text \<open>
  Correctness of \<open>util_rbtree_delete\<close>.  \<open>del_fix\<close> is the fix-up as a function on a path and the
  subtree at its end, which is one black node short; the loop of the code computes it.
\<close>

section \<open>The fix-up as a function\<close>

text \<open>A red sibling rotates up: the two frames above the subtree afterwards.\<close>

fun red_sib :: "frame \<Rightarrow> frame \<times> frame" where
  "red_sib (FL a k c d (Nd wl b kb cb db wr)) = (FL a k 0 d wl, FL b kb 1 db wr)"
| "red_sib (FR (Nd wl b kb cb db wr) a k c d) = (FR wr a k 0 d, FR wl b kb 1 db)"
| "red_sib f = (f, f)"

fun black_nephews :: "frame \<Rightarrow> bool" where
  "black_nephews (FL a k c d (Nd wl b kb cb db wr)) = (rcolor wl = 1 \<and> rcolor wr = 1)"
| "black_nephews (FR (Nd wl b kb cb db wr) a k c d) = (rcolor wl = 1 \<and> rcolor wr = 1)"
| "black_nephews f = False"

text \<open>A red nephew: one rotation when it is the outer one, two when only the inner one is red.\<close>

fun del_rot :: "frame \<Rightarrow> rbt \<Rightarrow> rbt" where
  "del_rot (FL a k c d (Nd wl b kb cb db wr)) s =
     (if rcolor wr = 1 then
        (case wl of Nd x e ke ce de y \<Rightarrow> Nd (Nd s a k 1 d x) e ke c de (Nd y b kb 1 db wr)
         | Lf \<Rightarrow> Lf)
      else Nd (Nd s a k 1 d wl) b kb c db (paint 1 wr))"
| "del_rot (FR (Nd wl b kb cb db wr) a k c d) s =
     (if rcolor wl = 1 then
        (case wr of Nd x e ke ce de y \<Rightarrow> Nd (Nd wl b kb 1 db x) e ke c de (Nd y a k 1 d s)
         | Lf \<Rightarrow> Lf)
      else Nd (paint 1 wl) b kb c db (Nd wr a k 1 d s))"
| "del_rot f s = plugf f s"

fun del_fix :: "frame list \<Rightarrow> rbt \<Rightarrow> rbt" where
  "del_fix [] s = paint 1 s"
| "del_fix (f # C) s =
     (if rcolor s \<noteq> 1 then plug (f # C) (paint 1 s)
      else if rcolor (sibling f) = 0 then
        (if black_nephews (fst (red_sib f))
         then plug (snd (red_sib f) # C) (plugf (paintf 1 (paint_sib 0 (fst (red_sib f)))) s)
         else paint 1 (plug C (plugf (snd (red_sib f)) (del_rot (fst (red_sib f)) s))))
      else if black_nephews f then del_fix C (plugf (paint_sib 0 f) s)
      else paint 1 (plug C (del_rot f s)))"

text \<open>What a path and a subtree one black node short of it satisfy.\<close>

definition deficient :: "frame list \<Rightarrow> rbt \<Rightarrow> bool" where
  "deficient C s \<longleftrightarrow> path_c C \<and> (C \<noteq> [] \<longrightarrow> fcolor (last C) = 1) \<and> path_h C (Suc (bheight s)) \<and>
     invc (paint 1 s) \<and> invh s \<and> (rcolor s = 0 \<or> rcolor s = 1)"

lemma invc_paint_one: "rcolor s = 1 \<Longrightarrow> invc (paint 1 s) = invc s"
  by (cases s) auto

lemma rcolor_paint_one [simp]: "rcolor (paint 1 t) = 1"
  by (cases t) auto

lemma bheight_Suc: "bheight t = Suc h \<Longrightarrow> t \<noteq> Lf"
  by auto

lemma deficient_sibling: "deficient (f # C) s \<Longrightarrow> sibling f \<noteq> Lf"
  by (auto simp: deficient_def)

text \<open>Each case of the fix-up.\<close>

lemma del_rot_inv:
  assumes def: "deficient (f # C) s" and s: "rcolor s = 1" and w: "rcolor (sibling f) = 1"
    and n: "\<not> black_nephews f"
  shows "invc (del_rot f s) \<and> invh (del_rot f s) \<and> rcolor (del_rot f s) = fcolor f \<and>
         bheight (del_rot f s) = (if fcolor f = 1 then Suc (Suc (bheight s)) else Suc (bheight s)) \<and>
         inorder (del_rot f s) = inorder (plugf f s) \<and> del_rot f s \<noteq> Lf"
proof -
  have sib: "invc (sibling f)" "invh (sibling f)" "bheight (sibling f) = Suc (bheight s)"
    "fcolor f = 0 \<or> fcolor f = 1" and s2: "invc s" "invh s"
    using def s by (auto simp: deficient_def invc_paint_one)
  show ?thesis
  proof (cases f)
    case (FL a k c d w)
    then obtain wl b kb cb db wr where "w = Nd wl b kb cb db wr"
      using deficient_sibling [OF def] by (cases w) auto
    with FL sib s2 n s \<open>rcolor (sibling f) = 1\<close> invc_rcolor [of wl] invc_rcolor [of wr] show ?thesis
      by (cases "rcolor wr = 1"; cases wl) (auto simp: invc_paint_one)
  next
    case (FR w a k c d)
    then obtain wl b kb cb db wr where "w = Nd wl b kb cb db wr"
      using deficient_sibling [OF def] by (cases w) auto
    with FR sib s2 n s \<open>rcolor (sibling f) = 1\<close> invc_rcolor [of wl] invc_rcolor [of wr] show ?thesis
      by (cases "rcolor wl = 1"; cases wr) (auto simp: invc_paint_one)
  qed
qed

text \<open>After a red sibling was rotated away, the case of a black sibling applies one level down.\<close>

lemma red_sib_inv:
  assumes def: "deficient (f # C) s" and s: "rcolor s = 1" and w: "rcolor (sibling f) = 0"
    and f12: "red_sib f = (f1, f2)"
  shows "deficient (f1 # f2 # C) s" and "rcolor (sibling f1) = 1" and "fcolor f1 = 0"
    and "faddr f1 = faddr f" and "fcolor f2 = 1"
    and "inorder (plugf f2 (plugf f1 s)) = inorder (plugf f s)"
proof -
  have "sibling f \<noteq> Lf" by (rule deficient_sibling [OF def])
  then obtain wl b kb cb db wr where sib: "sibling f = Nd wl b kb cb db wr" by (cases "sibling f") auto
  have c: "fcolor f = 1" using def sib w by (auto simp: deficient_def)
  have "invc wl" "invc wr" "rcolor wl = 1" "rcolor wr = 1" "invh wl" "invh wr"
    "bheight wl = Suc (bheight s)" "bheight wr = Suc (bheight s)"
    using def sib w by (auto simp: deficient_def)
  note facts = this def sib w c s f12
  show "deficient (f1 # f2 # C) s" "rcolor (sibling f1) = 1" "fcolor f1 = 0"
    "faddr f1 = faddr f" "fcolor f2 = 1"
    "inorder (plugf f2 (plugf f1 s)) = inorder (plugf f s)"
    using facts by (cases f; auto simp: deficient_def split: if_splits)+
qed

lemma recolor_inv:
  assumes def: "deficient (f # C) s" and s: "rcolor s = 1" and w: "rcolor (sibling f) = 1"
    and n: "black_nephews f"
  shows "deficient C (plugf (paint_sib 0 f) s)"
    and "inorder (plugf (paint_sib 0 f) s) = inorder (plugf f s)"
proof -
  have "sibling f \<noteq> Lf" by (rule deficient_sibling [OF def])
  then obtain wl b kb cb db wr where sib: "sibling f = Nd wl b kb cb db wr" by (cases "sibling f") auto
  with def s w n show "deficient C (plugf (paint_sib 0 f) s)"
    by (cases f) (auto simp: deficient_def invc_paint_one split: if_splits)
  show "inorder (plugf (paint_sib 0 f) s) = inorder (plugf f s)"
    by (cases f) auto
qed

lemma fcolor_paintf [simp]:
  "fcolor (paintf c f) = c" "fcolor (paint_sib c f) = fcolor f"
  "sibling (paintf c f) = sibling f" "sibling (paint_sib c f) = paint c (sibling f)"
  by (cases f; simp)+

lemma inorder_paintf [simp]: "inorder (plugf (paintf c f) s) = inorder (plugf f s)"
  "inorder (plugf (paint_sib c f) s) = inorder (plugf f s)"
  by (cases f; simp)+

lemma rb_plug:
  assumes "path_c C" "path_h C (bheight t)" "invc t" "invh t" "C = [] \<or> fcolor (hd C) = 1 \<or> rcolor t = 1"
  shows "invc (plug C t) \<and> invh (plug C t)"
  using assms by (auto simp: invc_plug invh_plug)

lemma deficient_red:
  assumes "deficient C s" and "rcolor s = 0"
  shows "invc (plug C (paint 1 s)) \<and> invh (plug C (paint 1 s)) \<and> rcolor (plug C (paint 1 s)) = 1"
  using assms rb_plug [of C "paint 1 s"] by (auto simp: deficient_def rcolor_plug)

lemma deficient_rot:
  assumes def: "deficient (f # C) s" and "rcolor s = 1" "rcolor (sibling f) = 1" "\<not> black_nephews f"
  shows "invc (plug C (del_rot f s)) \<and> invh (plug C (del_rot f s)) \<and>
         inorder (plug C (del_rot f s)) = inorder (plug C (plugf f s))"
  using del_rot_inv [OF assms] def rb_plug [of C "del_rot f s"]
  by (auto simp: deficient_def inorder_plug split: if_splits)

lemma paint_plugf [simp]: "paint c (plugf f s) = plugf (paintf c f) s"
  by (cases f) auto

lemma paintf_paint_sib: "paintf c (paint_sib c' f) = paint_sib c' (paintf c f)"
  by (cases f) auto

lemma del_fix_inv:
  assumes "deficient C s" and "C \<noteq> [] \<or> s \<noteq> Lf"
  shows "invc (del_fix C s) \<and> invh (del_fix C s) \<and> rcolor (del_fix C s) = 1 \<and>
         inorder (del_fix C s) = inorder (plug C s)"
  using assms
proof (induction C s rule: del_fix.induct)
  case (1 s)
  then show ?case by (auto simp: deficient_def)
next
  case (2 f C s)
  note def = "2.prems"(1)
  have "sibling f \<noteq> Lf" by (rule deficient_sibling [OF def])
  consider (red) "rcolor s = 0" | (sib) "rcolor s = 1" "rcolor (sibling f) = 0"
    | (up) "rcolor s = 1" "rcolor (sibling f) = 1" "black_nephews f"
    | (rot) "rcolor s = 1" "rcolor (sibling f) = 1" "\<not> black_nephews f"
    using def invc_rcolor [of "sibling f"] by (auto simp: deficient_def)
  then show ?case
  proof cases
    case red
    with deficient_red [OF def red] show ?thesis by (cases f) (auto simp: inorder_plug)
  next
    case sib
    obtain f1 f2 where f12: "red_sib f = (f1, f2)" by (cases "red_sib f") auto
    note R = red_sib_inv [OF def sib f12]
    show ?thesis
    proof (cases "black_nephews f1")
      case True
      from recolor_inv [OF R(1) sib(1) R(2) True] deficient_red [of "f2 # C" "plugf (paint_sib 0 f1) s"]
      show ?thesis using sib True f12 R(3,6)
        by (cases f1; cases f2) (auto simp: paintf_paint_sib inorder_plug)
    next
      case False
      from deficient_rot [OF R(1) sib(1) R(2) False] sib False f12 R(6) show ?thesis
        by (simp add: inorder_plug)
    qed
  next
    case up
    from recolor_inv [OF def up] up "2.IH" show ?thesis by (simp add: inorder_plug)
  next
    case rot
    from deficient_rot [OF def rot] rot show ?thesis by simp
  qed
qed

section \<open>The fix-up loop computes it\<close>

text \<open>
  The fix-up may start at the sentinel, whose parent link was set for it; no later step moves
  that link.
\<close>

definition sent_parent :: "rbtree \<Rightarrow> ptr \<Rightarrow> bool" where
  "sent_parent t a \<longleftrightarrow> (\<exists>n. mem t Sent = Some n \<and> parent n = a)"

lemma st_parent:
  assumes S: "st t0 rp A t (plug (f # C) s)" and H: "s = Lf \<Longrightarrow> sent_parent t0 (faddr f)"
  shows "\<exists>n. mem t (raddr s) = Some n \<and> parent n = faddr f"
proof (cases s)
  case Lf
  have "Sent \<notin> A" using S by (auto simp: st_def tree_rel_def)
  with S have "mem t Sent = mem t0 Sent" by (simp add: st_def frame_rel_def)
  with Lf H show ?thesis by (auto simp: sent_parent_def)
next
  case (Nd l b k c d r)
  with S st_node [of t0 rp A t "f # C" l b k c d r] show ?thesis by simp
qed

lemma delete_red_left_runs:
  assumes S: "st t0 rp A t (plug C (Nd s a k c d (Nd wl b kb 0 db wr)))"
    and H: "s = Lf \<Longrightarrow> sent_parent t0 a"
  shows "runs (delete_red_left t (raddr s) b) (\<lambda>(t', w).
           w = raddr wl \<and> st t0 rp A t' (plug (FL a k 0 d wl # FL b kb 1 db wr # C) s))"
proof -
  from S have "st t0 rp A t (plug (FR s a k c d # C) (Nd wl b kb 0 db wr))" by simp
  from st_isred [OF this] st_black [OF this] obtain t1 where
    1: "util_rbt_isred t b = Some True" "util_rbt_black b t = Some t1"
       "st t0 rp A t1 (plug C (Nd s a k c d (Nd wl b kb 1 db wr)))"
    by (auto elim: runsE)
  from st_parent [of t0 rp A t1 "FL a k c d (Nd wl b kb 1 db wr)" C s] 1(3) H obtain n1 where
    n1: "mem t1 (raddr s) = Some n1" "parent n1 = a" by auto
  from st_red [OF 1(3)] obtain t2 where
    2: "util_rbt_red a t1 = Some t2" "st t0 rp A t2 (plug C (Nd s a k 0 d (Nd wl b kb 1 db wr)))"
    by (auto elim: runsE)
  from st_parent [of t0 rp A t2 "FL a k 0 d (Nd wl b kb 1 db wr)" C s] 2(2) H obtain n2 where
    n2: "mem t2 (raddr s) = Some n2" "parent n2 = a" by auto
  from st_left_rotate [OF 2(2)] obtain t3 where
    3: "rbtree_left_rotate t2 a = Some t3"
       "st t0 rp A t3 (plug (FL a k 0 d wl # FL b kb 1 db wr # C) s)"
    by (auto elim: runsE)
  from st_parent [OF 3(2)] H obtain n3 where
    n3: "mem t3 (raddr s) = Some n3" "parent n3 = a" by auto
  from st_frame [OF 3(2) [unfolded plug.simps(2)[of "FL a k 0 d wl"]]] obtain pn where
    pn: "mem t3 a = Some pn" "right pn = raddr wl" by auto
  show ?thesis
    using 1 2 3 n1 n2 n3 pn by (simp add: delete_red_left_def fault_simps)
qed

lemma delete_inner_left_runs:
  assumes S: "st t0 rp A t (plug C (Nd s a k c d (Nd (Nd x e ke ce de y) b kb cb db wr)))"
    and H: "s = Lf \<Longrightarrow> sent_parent t0 a" and far: "rcolor wr = 1"
  shows "runs (delete_inner_left t (raddr s) b) (\<lambda>(t', w). w = e \<and>
           st t0 rp A t' (plug C (Nd s a k c d (Nd x e ke 1 de (Nd y b kb 0 db wr)))))"
proof -
  from S have S1: "st t0 rp A t (plug (FR s a k c d # C) (Nd (Nd x e ke ce de y) b kb cb db wr))" by simp
  have S2: "st t0 rp A t (plug (FR (Nd x e ke ce de y) b kb cb db # FR s a k c d # C) wr)"
    using S by simp
  from S have "st t0 rp A t (plug (FL b kb cb db wr # FR s a k c d # C) (Nd x e ke ce de y))" by simp
  from st_black [OF this] obtain t1 where
    1: "util_rbt_black e t = Some t1" "st t0 rp A t1 (plug (FR s a k c d # C) (Nd (Nd x e ke 1 de y) b kb cb db wr))"
    by (auto elim: runsE)
  from st_red [OF 1(2)] obtain t2 where
    2: "util_rbt_red b t1 = Some t2" "st t0 rp A t2 (plug (FR s a k c d # C) (Nd (Nd x e ke 1 de y) b kb 0 db wr))"
    by (auto elim: runsE)
  from st_right_rotate [OF 2(2)] obtain t3 where
    3: "rbtree_right_rotate t2 b = Some t3"
       "st t0 rp A t3 (plug (FL a k c d (Nd x e ke 1 de (Nd y b kb 0 db wr)) # C) s)"
    by (auto elim: runsE)
  from st_parent [OF 3(2)] H obtain n3 where
    n3: "mem t3 (raddr s) = Some n3" "parent n3 = a" by auto
  from st_frame [OF 3(2) [unfolded plug.simps(2)]] obtain pn where
    pn: "mem t3 a = Some pn" "right pn = e" by auto
  show ?thesis
    using 1 2 3 n3 pn st_node [OF S1] st_isblack [OF S2] far
    by (simp add: delete_inner_left_def fault_simps)
qed

lemma delete_outer_left_runs:
  assumes S: "st t0 rp A t (plug C (Nd s a k c d (Nd wl b kb cb db wr)))"
    and H: "s = Lf \<Longrightarrow> sent_parent t0 a" and far: "wr \<noteq> Lf"
  shows "runs (delete_outer_left t (raddr s) b) (\<lambda>(t', node). node = root t' \<and>
           st t0 rp A t' (plug C (Nd (Nd s a k 1 d wl) b kb c db (paint 1 wr))))"
proof -
  have Sa: "st t0 rp A u (plug C (Nd s a k x d z)) \<Longrightarrow> \<exists>n. mem u (raddr s) = Some n \<and> parent n = a"
    for u x z using st_parent [of t0 rp A u "FL a k x d z" C s] H by simp
  from S have "st t0 rp A t (plug (FR s a k c d # C) (Nd wl b kb cb db wr))" by simp
  from st_set_color [OF this, of c] obtain t1 where
    1: "set_color b c t = Some t1" "st t0 rp A t1 (plug C (Nd s a k c d (Nd wl b kb c db wr)))"
    by (auto elim: runsE)
  from st_black [OF 1(2)] obtain t2 where
    2: "util_rbt_black a t1 = Some t2" "st t0 rp A t2 (plug (FR s a k 1 d # C) (Nd wl b kb c db wr))"
    by (auto elim: runsE)
  obtain fl fa fk fc fd fr where f: "wr = Nd fl fa fk fc fd fr" using far by (cases wr) auto
  from 2(2) have "st t0 rp A t2 (plug (FR wl b kb c db # FR s a k 1 d # C) (Nd fl fa fk fc fd fr))"
    using f by simp
  from st_black [OF this] obtain t3 where
    3: "util_rbt_black (raddr wr) t2 = Some t3" "st t0 rp A t3 (plug C (Nd s a k 1 d (Nd wl b kb c db (paint 1 wr))))"
    using f by (auto elim: runsE)
  from st_left_rotate [OF 3(2)] obtain t4 where
    4: "rbtree_left_rotate t3 a = Some t4" "st t0 rp A t4 (plug C (Nd (Nd s a k 1 d wl) b kb c db (paint 1 wr)))"
    by (auto elim: runsE)
  from Sa [OF S] Sa [OF 1(2)] Sa [OF 3(2)] obtain n n1 n3 where
    n: "mem t (raddr s) = Some n" "parent n = a" "mem t1 (raddr s) = Some n1" "parent n1 = a"
       "mem t3 (raddr s) = Some n3" "parent n3 = a" by blast
  show ?thesis
    using 1 2 3 4 n st_node [OF S] st_node [OF 2(2)]
    by (simp add: delete_outer_left_def fault_simps)
qed

lemma delete_red_right_runs:
  assumes S: "st t0 rp A t (plug C (Nd (Nd wl b kb 0 db wr) a k c d s))"
    and H: "s = Lf \<Longrightarrow> sent_parent t0 a"
  shows "runs (delete_red_right t (raddr s) b) (\<lambda>(t', w).
           w = raddr wr \<and> st t0 rp A t' (plug (FR wr a k 0 d # FR wl b kb 1 db # C) s))"
proof -
  from S have "st t0 rp A t (plug (FL a k c d s # C) (Nd wl b kb 0 db wr))" by simp
  from st_isred [OF this] st_black [OF this] obtain t1 where
    1: "util_rbt_isred t b = Some True" "util_rbt_black b t = Some t1"
       "st t0 rp A t1 (plug C (Nd (Nd wl b kb 1 db wr) a k c d s))"
    by (auto elim: runsE)
  from st_parent [of t0 rp A t1 "FR (Nd wl b kb 1 db wr) a k c d" C s] 1(3) H obtain n1 where
    n1: "mem t1 (raddr s) = Some n1" "parent n1 = a" by auto
  from st_red [OF 1(3)] obtain t2 where
    2: "util_rbt_red a t1 = Some t2" "st t0 rp A t2 (plug C (Nd (Nd wl b kb 1 db wr) a k 0 d s))"
    by (auto elim: runsE)
  from st_parent [of t0 rp A t2 "FR (Nd wl b kb 1 db wr) a k 0 d" C s] 2(2) H obtain n2 where
    n2: "mem t2 (raddr s) = Some n2" "parent n2 = a" by auto
  from st_right_rotate [OF 2(2)] obtain t3 where
    3: "rbtree_right_rotate t2 a = Some t3"
       "st t0 rp A t3 (plug (FR wr a k 0 d # FR wl b kb 1 db # C) s)"
    by (auto elim: runsE)
  from st_parent [OF 3(2)] H obtain n3 where
    n3: "mem t3 (raddr s) = Some n3" "parent n3 = a" by auto
  from st_frame [OF 3(2) [unfolded plug.simps(2)[of "FR wr a k 0 d"]]] obtain pn where
    pn: "mem t3 a = Some pn" "left pn = raddr wr" by auto
  show ?thesis
    using 1 2 3 n1 n2 n3 pn by (simp add: delete_red_right_def fault_simps)
qed

lemma delete_inner_right_runs:
  assumes S: "st t0 rp A t (plug C (Nd (Nd wl b kb cb db (Nd x e ke ce de y)) a k c d s))"
    and H: "s = Lf \<Longrightarrow> sent_parent t0 a" and far: "rcolor wl = 1"
  shows "runs (delete_inner_right t (raddr s) b) (\<lambda>(t', w). w = e \<and>
           st t0 rp A t' (plug C (Nd (Nd (Nd wl b kb 0 db x) e ke 1 de y) a k c d s)))"
proof -
  from S have S1: "st t0 rp A t (plug (FL a k c d s # C) (Nd wl b kb cb db (Nd x e ke ce de y)))" by simp
  have S2: "st t0 rp A t (plug (FL b kb cb db (Nd x e ke ce de y) # FL a k c d s # C) wl)"
    using S by simp
  from S have "st t0 rp A t (plug (FR wl b kb cb db # FL a k c d s # C) (Nd x e ke ce de y))" by simp
  from st_black [OF this] obtain t1 where
    1: "util_rbt_black e t = Some t1" "st t0 rp A t1 (plug (FL a k c d s # C) (Nd wl b kb cb db (Nd x e ke 1 de y)))"
    by (auto elim: runsE)
  from st_red [OF 1(2)] obtain t2 where
    2: "util_rbt_red b t1 = Some t2" "st t0 rp A t2 (plug (FL a k c d s # C) (Nd wl b kb 0 db (Nd x e ke 1 de y)))"
    by (auto elim: runsE)
  from st_left_rotate [OF 2(2)] obtain t3 where
    3: "rbtree_left_rotate t2 b = Some t3"
       "st t0 rp A t3 (plug (FR (Nd (Nd wl b kb 0 db x) e ke 1 de y) a k c d # C) s)"
    by (auto elim: runsE)
  from st_parent [OF 3(2)] H obtain n3 where
    n3: "mem t3 (raddr s) = Some n3" "parent n3 = a" by auto
  from st_frame [OF 3(2) [unfolded plug.simps(2)]] obtain pn where
    pn: "mem t3 a = Some pn" "left pn = e" by auto
  show ?thesis
    using 1 2 3 n3 pn st_node [OF S1] st_isblack [OF S2] far
    by (simp add: delete_inner_right_def fault_simps)
qed

lemma delete_outer_right_runs:
  assumes S: "st t0 rp A t (plug C (Nd (Nd wl b kb cb db wr) a k c d s))"
    and H: "s = Lf \<Longrightarrow> sent_parent t0 a" and far: "wl \<noteq> Lf"
  shows "runs (delete_outer_right t (raddr s) b) (\<lambda>(t', node). node = root t' \<and>
           st t0 rp A t' (plug C (Nd (paint 1 wl) b kb c db (Nd wr a k 1 d s))))"
proof -
  have Sa: "st t0 rp A u (plug C (Nd z a k x d s)) \<Longrightarrow> \<exists>n. mem u (raddr s) = Some n \<and> parent n = a"
    for u x z using st_parent [of t0 rp A u "FR z a k x d" C s] H by simp
  from S have "st t0 rp A t (plug (FL a k c d s # C) (Nd wl b kb cb db wr))" by simp
  from st_set_color [OF this, of c] obtain t1 where
    1: "set_color b c t = Some t1" "st t0 rp A t1 (plug C (Nd (Nd wl b kb c db wr) a k c d s))"
    by (auto elim: runsE)
  from st_black [OF 1(2)] obtain t2 where
    2: "util_rbt_black a t1 = Some t2" "st t0 rp A t2 (plug (FL a k 1 d s # C) (Nd wl b kb c db wr))"
    by (auto elim: runsE)
  obtain fl fa fk fc fd fr where f: "wl = Nd fl fa fk fc fd fr" using far by (cases wl) auto
  from 2(2) have "st t0 rp A t2 (plug (FL b kb c db wr # FL a k 1 d s # C) (Nd fl fa fk fc fd fr))"
    using f by simp
  from st_black [OF this] obtain t3 where
    3: "util_rbt_black (raddr wl) t2 = Some t3" "st t0 rp A t3 (plug C (Nd (Nd (paint 1 wl) b kb c db wr) a k 1 d s))"
    using f by (auto elim: runsE)
  from st_right_rotate [OF 3(2)] obtain t4 where
    4: "rbtree_right_rotate t3 a = Some t4" "st t0 rp A t4 (plug C (Nd (paint 1 wl) b kb c db (Nd wr a k 1 d s)))"
    by (auto elim: runsE)
  from Sa [OF S] Sa [OF 1(2)] Sa [OF 3(2)] obtain n n1 n3 where
    n: "mem t (raddr s) = Some n" "parent n = a" "mem t1 (raddr s) = Some n1" "parent n1 = a"
       "mem t3 (raddr s) = Some n3" "parent n3 = a" by blast
  show ?thesis
    using 1 2 3 4 n st_node [OF S] st_node [OF 2(2)]
    by (simp add: delete_outer_right_def fault_simps)
qed

lemma st_isblack_pair:
  assumes "st t0 rp A t (plug C (Nd wl b kb cb db wr))"
  shows "util_rbt_isblack t (raddr wl) = Some (rcolor wl = 1)"
    and "util_rbt_isblack t (raddr wr) = Some (rcolor wr = 1)"
  using st_isblack [of t0 rp A t "FL b kb cb db wr # C" wl]
        st_isblack [of t0 rp A t "FR wl b kb cb db # C" wr] assms by simp_all

text \<open>With a black sibling \<open>b\<close>: recolour and go up, or rotate and stop.\<close>

lemma delete_left_black_runs:
  assumes S: "st t0 rp A t (plug C (Nd s a k c d (Nd wl b kb cb db wr)))"
    and H: "s = Lf \<Longrightarrow> sent_parent t0 a"
  shows "runs (do { wn \<leftarrow> mem t b;
                    lb \<leftarrow> util_rbt_isblack t (left wn);
                    rb \<leftarrow> (if lb then util_rbt_isblack t (right wn) else Some False);
                    (if lb \<and> rb then do {
                       t \<leftarrow> util_rbt_red b t;
                       n \<leftarrow> mem t (raddr s);
                       Some (t, parent n) }
                     else do {
                       (t, w) \<leftarrow> delete_inner_left t (raddr s) b;
                       delete_outer_left t (raddr s) w }) })
         (\<lambda>(t', node). if rcolor wl = 1 \<and> rcolor wr = 1
               then node = a \<and> st t0 rp A t' (plug C (Nd s a k c d (Nd wl b kb 0 db wr)))
               else node = root t' \<and>
                    st t0 rp A t' (plug C (del_rot (FL a k c d (Nd wl b kb cb db wr)) s)))"
proof -
  from S have Sw: "st t0 rp A t (plug (FR s a k c d # C) (Nd wl b kb cb db wr))" by simp
  note reads = st_node [OF Sw] st_isblack_pair [OF Sw]
  consider (up) "rcolor wl = 1" "rcolor wr = 1"
    | (outer) "rcolor wr \<noteq> 1" | (inner) "rcolor wl \<noteq> 1" "rcolor wr = 1" by blast
  then show ?thesis
  proof cases
    case up
    from st_red [OF Sw] obtain t1 where
      1: "util_rbt_red b t = Some t1" "st t0 rp A t1 (plug (FL a k c d (Nd wl b kb 0 db wr) # C) s)"
      by (auto elim: runsE)
    from st_parent [OF 1(2)] H obtain n where "mem t1 (raddr s) = Some n" "parent n = a" by auto
    with 1 up reads show ?thesis by (simp add: fault_simps)
  next
    case outer
    then have "wr \<noteq> Lf" by auto
    have "delete_inner_left t (raddr s) b = Some (t, b)"
      using reads outer by (simp add: delete_inner_left_def fault_simps)
    with delete_outer_left_runs [OF S H \<open>wr \<noteq> Lf\<close>] outer reads show ?thesis
      by (simp add: fault_simps)
  next
    case inner
    then obtain x e ke ce de y where wl: "wl = Nd x e ke ce de y" by (cases wl) auto
    from delete_inner_left_runs [of t0 rp A t C s a k c d x e ke ce de y b kb cb db wr] S H inner wl
    obtain t1 where 1: "delete_inner_left t (raddr s) b = Some (t1, e)"
      "st t0 rp A t1 (plug C (Nd s a k c d (Nd x e ke 1 de (Nd y b kb 0 db wr))))"
      by (auto elim: runsE)
    from delete_outer_left_runs [OF 1(2)] H inner reads 1 wl show ?thesis
      by (simp add: fault_simps)
  qed
qed

lemma delete_right_black_runs:
  assumes S: "st t0 rp A t (plug C (Nd (Nd wl b kb cb db wr) a k c d s))"
    and H: "s = Lf \<Longrightarrow> sent_parent t0 a"
  shows "runs (do { wn \<leftarrow> mem t b;
                    lb \<leftarrow> util_rbt_isblack t (left wn);
                    rb \<leftarrow> (if lb then util_rbt_isblack t (right wn) else Some False);
                    (if lb \<and> rb then do {
                       t \<leftarrow> util_rbt_red b t;
                       n \<leftarrow> mem t (raddr s);
                       Some (t, parent n) }
                     else do {
                       (t, w) \<leftarrow> delete_inner_right t (raddr s) b;
                       delete_outer_right t (raddr s) w }) })
         (\<lambda>(t', node). if rcolor wl = 1 \<and> rcolor wr = 1
               then node = a \<and> st t0 rp A t' (plug C (Nd (Nd wl b kb 0 db wr) a k c d s))
               else node = root t' \<and>
                    st t0 rp A t' (plug C (del_rot (FR (Nd wl b kb cb db wr) a k c d) s)))"
proof -
  from S have Sw: "st t0 rp A t (plug (FL a k c d s # C) (Nd wl b kb cb db wr))" by simp
  note reads = st_node [OF Sw] st_isblack_pair [OF Sw]
  consider (up) "rcolor wl = 1" "rcolor wr = 1"
    | (outer) "rcolor wl \<noteq> 1" | (inner) "rcolor wr \<noteq> 1" "rcolor wl = 1" by blast
  then show ?thesis
  proof cases
    case up
    from st_red [OF Sw] obtain t1 where
      1: "util_rbt_red b t = Some t1" "st t0 rp A t1 (plug (FR (Nd wl b kb 0 db wr) a k c d # C) s)"
      by (auto elim: runsE)
    from st_parent [OF 1(2)] H obtain n where "mem t1 (raddr s) = Some n" "parent n = a" by auto
    with 1 up reads show ?thesis by (simp add: fault_simps)
  next
    case outer
    then have "wl \<noteq> Lf" by auto
    have "delete_inner_right t (raddr s) b = Some (t, b)"
      using reads outer by (simp add: delete_inner_right_def fault_simps)
    with delete_outer_right_runs [OF S H \<open>wl \<noteq> Lf\<close>] outer reads show ?thesis
      by (simp add: fault_simps)
  next
    case inner
    then obtain x e ke ce de y where wr: "wr = Nd x e ke ce de y" by (cases wr) auto
    from delete_inner_right_runs [of t0 rp A t C wl b kb cb db x e ke ce de y a k c d s] S H inner wr
    obtain t1 where 1: "delete_inner_right t (raddr s) b = Some (t1, e)"
      "st t0 rp A t1 (plug C (Nd (Nd (Nd wl b kb 0 db x) e ke 1 de y) a k c d s))"
      by (auto elim: runsE)
    from delete_outer_right_runs [OF 1(2)] H inner reads 1 wr show ?thesis
      by (simp add: fault_simps)
  qed
qed


text \<open>
  The outcome of an iteration on a path of length \<open>n\<close> whose fix-up is \<open>R\<close>: the loop has reached
  the root of the final tree, or the fix-up goes on nearer to the root or at a red node.
\<close>

definition fixup_next :: "rbtree \<Rightarrow> ptr \<Rightarrow> ptr set \<Rightarrow> nat \<Rightarrow> rbt \<Rightarrow> rbtree \<Rightarrow> ptr \<Rightarrow> bool" where
  "fixup_next t0 rp A n R t node \<longleftrightarrow>
     (\<exists>D u. st t0 rp A t (plug D u) \<and> u \<noteq> Lf \<and> node = raddr u \<and>
       (D = [] \<and> paint 1 u = R \<or>
        deficient D u \<and> del_fix D u = R \<and> (length D < n \<or> length D = n \<and> rcolor u = 0)))"

lemma fixup_next_root:
  assumes "st t0 rp A t T" and "node = root t" and "T \<noteq> Lf" and "paint 1 T = R"
  shows "fixup_next t0 rp A n R t node"
proof -
  have "node = raddr T" using assms(1,2) by (simp add: st_def tree_rel_def)
  with assms show ?thesis
    unfolding fixup_next_def by (intro exI [of _ "[]"] exI [of _ T]) simp
qed

text \<open>An iteration with a black sibling, for either side.\<close>

definition black_part :: "bool \<Rightarrow> rbtree \<Rightarrow> ptr \<Rightarrow> ptr \<Rightarrow> (rbtree \<times> ptr) option" where
  "black_part lft t node w = do {
     wn \<leftarrow> mem t w;
     lb \<leftarrow> util_rbt_isblack t (left wn);
     rb \<leftarrow> (if lb then util_rbt_isblack t (right wn) else Some False);
     (if lb \<and> rb then do {
        t \<leftarrow> util_rbt_red w t;
        n \<leftarrow> mem t node;
        Some (t, parent n) }
      else do {
        (t, w) \<leftarrow> (if lft then delete_inner_left t node w else delete_inner_right t node w);
        (if lft then delete_outer_left t node w else delete_outer_right t node w) }) }"

lemma black_part_runs:
  assumes S: "st t0 rp A t (plug C (plugf f s))" and H: "s = Lf \<Longrightarrow> sent_parent t0 (faddr f)"
    and w: "sibling f \<noteq> Lf"
  shows "runs (black_part (is_left f) t (raddr s) (raddr (sibling f)))
         (\<lambda>(t', node). if black_nephews f
            then node = faddr f \<and> st t0 rp A t' (plug C (plugf (paint_sib 0 f) s))
            else node = root t' \<and> st t0 rp A t' (plug C (del_rot f s)))"
proof (cases f)
  case (FL a k c d w)
  with w obtain wl b kb cb db wr where "w = Nd wl b kb cb db wr" by (cases w) auto
  with delete_left_black_runs [of t0 rp A t C s a k c d wl b kb cb db wr] S H FL
  show ?thesis by (simp add: black_part_def del: del_rot.simps cong: if_cong)
next
  case (FR w a k c d)
  with w obtain wl b kb cb db wr where "w = Nd wl b kb cb db wr" by (cases w) auto
  with delete_right_black_runs [of t0 rp A t C wl b kb cb db wr a k c d s] S H FR
  show ?thesis by (simp add: black_part_def del: del_rot.simps cong: if_cong)
qed

text \<open>The sibling test in front of it.\<close>

definition red_part :: "bool \<Rightarrow> rbtree \<Rightarrow> ptr \<Rightarrow> ptr \<Rightarrow> (rbtree \<times> ptr) option" where
  "red_part lft t node w =
     (if lft then delete_red_left t node w else delete_red_right t node w)"

lemma red_part_runs:
  assumes S: "st t0 rp A t (plug C (plugf f s))" and H: "s = Lf \<Longrightarrow> sent_parent t0 (faddr f)"
    and w: "sibling f \<noteq> Lf" "rcolor (sibling f) = 0" and f12: "red_sib f = (f1, f2)"
  shows "runs (red_part (is_left f) t (raddr s) (raddr (sibling f)))
         (\<lambda>(t', w'). w' = raddr (sibling f1) \<and> st t0 rp A t' (plug (f1 # f2 # C) s))"
    and "is_left f1 = is_left f"
proof -
  show "runs (red_part (is_left f) t (raddr s) (raddr (sibling f)))
         (\<lambda>(t', w'). w' = raddr (sibling f1) \<and> st t0 rp A t' (plug (f1 # f2 # C) s))"
  proof (cases f)
    case (FL a k c d w)
    with w obtain wl b kb db wr where "w = Nd wl b kb 0 db wr" by (cases w) auto
    with delete_red_left_runs [of t0 rp A t C s a k c d wl b kb db wr] S H FL f12
    show ?thesis by (auto simp: red_part_def)
  next
    case (FR w a k c d)
    with w obtain wl b kb db wr where "w = Nd wl b kb 0 db wr" by (cases w) auto
    with delete_red_right_runs [of t0 rp A t C wl b kb db wr a k c d s] S H FR f12
    show ?thesis by (auto simp: red_part_def)
  qed
  show "is_left f1 = is_left f"
    using f12 w by (cases f rule: red_sib.cases) auto
qed

lemma sibling_neq2:
  assumes S: "st t0 rp A t (plug C (plugf f s))" and "sibling f \<noteq> Lf"
  shows "raddr s \<noteq> raddr (sibling f)"
proof -
  have "raddr (sibling f) \<in> set (addrs (sibling f))" using assms(2) by simp
  moreover have "set (addrs s) \<inter> set (addrs (sibling f)) = {}" "Sent \<notin> set (addrs (sibling f))"
    using st_distinct [OF S] by (cases f; auto)+
  ultimately show ?thesis using raddr_cases [of s] by auto
qed

lemma delete_fixup_step_unfold:
  assumes S: "st t0 rp A t (plug C (plugf f s))" and H: "s = Lf \<Longrightarrow> sent_parent t0 (faddr f)"
    and w: "sibling f \<noteq> Lf"
  shows "delete_fixup_step t (raddr s) =
    Option.bind (red_part (is_left f) t (raddr s) (raddr (sibling f)))
      (\<lambda>(t, w). black_part (is_left f) t (raddr s) w)"
proof -
  from st_parent [of t0 rp A t f C s] S H obtain n where
    n: "mem t (raddr s) = Some n" "parent n = faddr f" by auto
  from st_frame [OF S] obtain pn where
    pn: "mem t (faddr f) = Some pn" "left pn = (if is_left f then raddr s else raddr (sibling f))"
      "right pn = (if is_left f then raddr (sibling f) else raddr s)" by auto
  from sibling_neq2 [OF S w] n pn show ?thesis
    by (cases "is_left f")
       (simp_all add: delete_fixup_step_def delete_fixup_left_def delete_fixup_right_def
          red_part_def black_part_def fault_simps case_prod_unfold cong: if_cong)
qed

lemma black_step_runs:
  assumes S: "st t0 rp A t (plug (f # C) s)" and H: "s = Lf \<Longrightarrow> sent_parent t0 (faddr f)"
    and def: "deficient (f # C) s" and s: "rcolor s = 1" and w: "rcolor (sibling f) = 1"
    and n: "length C < n \<or> length C = n \<and> fcolor f = 0"
  shows "runs (black_part (is_left f) t (raddr s) (raddr (sibling f)))
           (\<lambda>(t', node). fixup_next t0 rp A n (del_fix (f # C) s) t' node)"
proof -
  have sib: "sibling f \<noteq> Lf" by (rule deficient_sibling [OF def])
  have "st t0 rp A t (plug C (plugf f s))" using S by simp
  note B = black_part_runs [OF this H sib]
  show ?thesis
  proof (rule runs_conseq [OF B], assumption, clarify)
    fix t' node
    assume R: "if black_nephews f
      then node = faddr f \<and> st t0 rp A t' (plug C (plugf (paint_sib 0 f) s))
      else node = root t' \<and> st t0 rp A t' (plug C (del_rot f s))"
    show "fixup_next t0 rp A n (del_fix (f # C) s) t' node"
    proof (cases "black_nephews f")
      case True
      have "plugf (paint_sib 0 f) s \<noteq> Lf" "rcolor (plugf (paint_sib 0 f) s) = fcolor f"
        by (cases f; simp)+
      with R True recolor_inv [OF def s w True] n s w show ?thesis
        unfolding fixup_next_def
        by (intro exI [of _ C] exI [of _ "plugf (paint_sib 0 f) s"]) auto
    next
      case False
      have "del_rot f s \<noteq> Lf" using del_rot_inv [OF def s w False] by simp
      then have "plug C (del_rot f s) \<noteq> Lf"
        using inorder_plug [of C "del_rot f s"] by (cases "del_rot f s") auto
      with R False s w show ?thesis by (intro fixup_next_root) auto
    qed
  qed
qed

lemma red_sib_fix:
  assumes "red_sib f = (f1, f2)" and "rcolor s = 1" "rcolor (sibling f) = 0"
    and "rcolor (sibling f1) = 1" "fcolor f1 = 0"
  shows "del_fix (f1 # f2 # C) s = del_fix (f # C) s"
proof -
  have "rcolor (plugf (paint_sib 0 f1) s) = 0" using assms(5) by (cases f1) auto
  with assms show ?thesis by (simp add: paintf_paint_sib)
qed

lemma delete_fixup_step_runs:
  assumes S: "st t0 rp A t (plug (f # C) s)" and H: "s = Lf \<Longrightarrow> sent_parent t0 (faddr f)"
    and def: "deficient (f # C) s" and s: "rcolor s = 1"
  shows "runs (delete_fixup_step t (raddr s))
           (\<lambda>(t', node). fixup_next t0 rp A (length (f # C)) (del_fix (f # C) s) t' node)"
proof -
  have sib: "sibling f \<noteq> Lf" by (rule deficient_sibling [OF def])
  have S': "st t0 rp A t (plug C (plugf f s))" using S by simp
  note unf = delete_fixup_step_unfold [OF S' H sib, simplified]
  show ?thesis
  proof (cases "rcolor (sibling f) = 0")
    case True
    obtain f1 f2 where f12: "red_sib f = (f1, f2)" by (cases "red_sib f") auto
    note R = red_sib_inv [OF def s True f12]
    note P = red_part_runs [OF S' H sib True f12]
    from P(1) obtain t1 where
      1: "red_part (is_left f) t (raddr s) (raddr (sibling f)) = Some (t1, raddr (sibling f1))"
         "st t0 rp A t1 (plug (f1 # f2 # C) s)"
      by (auto elim: runsE)
    have "s = Lf \<Longrightarrow> sent_parent t0 (faddr f1)" using H R(4) by simp
    from black_step_runs [OF 1(2) this R(1) s R(2), of "length (f # C)"] R(3)
    show ?thesis using 1 P(2) unfolding unf red_sib_fix [OF f12 s True R(2,3)]
      by (simp del: del_fix.simps)
  next
    case False
    then have w: "rcolor (sibling f) = 1"
      using def invc_rcolor [of "sibling f"] by (auto simp: deficient_def)
    have "red_part (is_left f) t (raddr s) (raddr (sibling f)) = Some (t, raddr (sibling f))"
      using st_isred_sib [OF S'] False
      by (auto simp: red_part_def delete_red_left_def delete_red_right_def)
    with black_step_runs [OF S H def s w, of "length (f # C)"] show ?thesis
      unfolding unf by (simp del: del_fix.simps)
  qed
qed


text \<open>A black node that is not the root goes through another iteration.\<close>

lemma delete_fixup_iterate:
  assumes S: "st t0 rp A t (plug (f # C) s)" and H: "s = Lf \<Longrightarrow> sent_parent t0 (faddr f)"
    and def: "deficient (f # C) s" and b: "rcolor s = 1"
  shows "\<exists>t1 D u. delete_fixup_loop t (raddr s) = delete_fixup_loop t1 (raddr u) \<and> st t0 rp A t1 (plug D u) \<and> u \<noteq> Lf \<and>
     (D = [] \<and> paint 1 u = del_fix (f # C) s \<or> deficient D u \<and> del_fix D u = del_fix (f # C) s \<and>
        (length D < length (f # C) \<or> length D = length (f # C) \<and> rcolor u = 0))"
proof -
  have root: "root t = raddr (plug (f # C) s)" using S by (simp add: st_def tree_rel_def)
  have nr: "raddr s \<noteq> root t"
    using st_distinct [OF S] root raddr_cases [of s] last_faddr_in [of "f # C"] by (auto simp: raddr_plug)
  from delete_fixup_step_runs [of t0 rp A t f C s] S H def b obtain t1 node where
    1: "delete_fixup_step t (raddr s) = Some (t1, node)" "fixup_next t0 rp A (length (f # C)) (del_fix (f # C) s) t1 node"
    by (auto elim!: runsE simp del: del_fix.simps)
  have "delete_fixup_loop t (raddr s) = delete_fixup_loop t1 node"
    using nr b st_isblack [OF S] 1(1) by (subst delete_fixup_loop.simps) (simp add: fault_simps)
  with 1(2) show ?thesis unfolding fixup_next_def by blast
qed

lemma delete_fixup_stop:
  assumes "st t0 rp A t (plug C s)" and "s \<noteq> Lf" and "C = [] \<or> rcolor s \<noteq> 1"
  shows "delete_fixup_loop t (raddr s) = Some (t, raddr s)"
proof (cases "raddr s = root t")
  case False
  with assms have "rcolor s \<noteq> 1" by (auto simp: st_def tree_rel_def)
  with False st_isblack [OF assms(1)] show ?thesis by (subst delete_fixup_loop.simps) (simp add: fault_simps)
qed (subst delete_fixup_loop.simps, simp)

lemma delete_fixup_loop_runs:
  assumes "st t0 rp A t (plug C s)" and "s = Lf \<Longrightarrow> C \<noteq> [] \<and> sent_parent t0 (faddr (hd C))"
    and "deficient C s"
  shows "runs (delete_fixup_loop t (raddr s))
           (\<lambda>(t', node). \<exists>D u. st t0 rp A t' (plug D u) \<and> u \<noteq> Lf \<and> node = raddr u \<and>
              plug D (paint 1 u) = del_fix C s)"
  using assms
proof (induction "2 * length C + (if rcolor s = 1 then 1 else 0)" arbitrary: C s t rule: less_induct)
  case less
  note S = less.prems(1) and H = less.prems(2) and def = less.prems(3)
  show ?case
  proof (cases "C = [] \<or> rcolor s \<noteq> 1")
    case True
    with H have s: "s \<noteq> Lf" by auto
    have "plug C (paint 1 s) = del_fix C s" using True by (cases C) auto
    with delete_fixup_stop [OF S s True] S s show ?thesis by auto
  next
    case False
    then obtain f C' where C: "C = f # C'" and b: "rcolor s = 1" by (cases C) auto
    with H have "s = Lf \<Longrightarrow> sent_parent t0 (faddr f)" by simp
    from delete_fixup_iterate [OF S [unfolded C] this def [unfolded C] b, folded C] obtain t1 D u where
      D: "delete_fixup_loop t (raddr s) = delete_fixup_loop t1 (raddr u)" "st t0 rp A t1 (plug D u)" "u \<noteq> Lf"
      "D = [] \<and> paint 1 u = del_fix C s \<or> deficient D u \<and> del_fix D u = del_fix C s \<and>
         (length D < length C \<or> length D = length C \<and> rcolor u = 0)" by blast
    from D(4) show ?thesis
    proof
      assume top: "D = [] \<and> paint 1 u = del_fix C s"
      with D(1,3) delete_fixup_stop [OF D(2,3)] D(2) show ?thesis by (auto intro!: exI [of _ "[]"] exI [of _ u])
    next
      assume next': "deficient D u \<and> del_fix D u = del_fix C s \<and> (length D < length C \<or> length D = length C \<and> rcolor u = 0)"
      with b have "2 * length D + (if rcolor u = 1 then 1 else 0) < 2 * length C + (if rcolor s = 1 then 1 else 0)" by auto
      from less.hyps [OF this D(2)] D(1,3) next' show ?thesis by simp
    qed
  qed
qed

lemma delete_fixup_runs:
  assumes "st t0 rp A t (plug C s)" and "s = Lf \<Longrightarrow> C \<noteq> [] \<and> sent_parent t0 (faddr (hd C))"
    and "deficient C s"
  shows "runs (rbtree_delete_fixup t (raddr s)) (\<lambda>t'. st t0 rp A t' (del_fix C s))"
proof -
  from delete_fixup_loop_runs [OF assms] obtain t1 D u where
    1: "delete_fixup_loop t (raddr s) = Some (t1, raddr u)" "st t0 rp A t1 (plug D u)" "u \<noteq> Lf"
       "plug D (paint 1 u) = del_fix C s"
    by (auto elim!: runsE)
  obtain l a k c d r where u: "u = Nd l a k c d r" using 1(3) by (cases u) auto
  from st_black [OF 1(2) [unfolded u]] 1 u show ?thesis
    by (simp add: rbtree_delete_fixup_def fault_simps del: del_fix.simps)
qed

section \<open>Unlinking a node\<close>

text \<open>A parent link set without a look at what the node is: the sentinel gets one, too.\<close>

definition set_par :: "ptr \<Rightarrow> ptr \<Rightarrow> (ptr \<rightharpoonup> rbnode) \<Rightarrow> (ptr \<rightharpoonup> rbnode)" where
  "set_par p a h = (case h p of None \<Rightarrow> h | Some n \<Rightarrow> h(p \<mapsto> n\<lparr>parent := a\<rparr>))"

lemma set_par_other [simp]: "q \<noteq> p \<Longrightarrow> set_par p a h q = h q"
  by (auto simp: set_par_def split: option.splits)

lemma dom_set_par [simp]: "dom (set_par p a h) = dom h"
  by (auto simp: set_par_def split: option.splits)

lemma rep_set_par_other [simp]: "p \<notin> set (addrs t) \<Longrightarrow> rep (set_par p a h) q t = rep h q t"
  by (auto simp: set_par_def split: option.splits)

lemma crep_set_par_other [simp]:
  "p \<notin> set (caddrs C) \<Longrightarrow> crep (set_par p a h) rp C q = crep h rp C q"
  by (auto simp: set_par_def split: option.splits)

lemma rep_set_par:
  "rep h b t \<Longrightarrow> distinct (addrs t) \<Longrightarrow> rep (set_par (raddr t) a h) a t"
  by (cases t) (auto simp: set_par_def)

lemma rep_set_hole_par:
  "rep h b t \<Longrightarrow> distinct (addrs t) \<Longrightarrow> p \<notin> set (addrs t) \<Longrightarrow>
   rep (set_hole p x y (set_par (raddr t) a h)) a t"
  using rep_set_par [of h b t a] by simp

lemma live_raddr:
  assumes "tree_rel t rp (plug C s)"
  shows "\<exists>n. mem t (raddr s) = Some n"
  using tree_rel_color [OF assms] by blast

text \<open>The node \<open>m\<close>, with at most the child \<open>x\<close>, and its parent's frame \<open>f\<close>.\<close>

lemma delete_unlink_run:
  assumes rel: "tree_rel t rp (plug (f # E) (Nd lc m k c d rc))"
    and x: "lc = Lf \<and> x = rc \<or> rc = Lf \<and> x = lc"
  shows "delete_unlink t z m (raddr x) = Some (t\<lparr>mem :=
    set_hole (faddr f) m (raddr x)
      (set_par (raddr x) (if faddr f = z then m else faddr f) (mem t))\<rparr>)"
proof -
  from x have "tree_rel t rp (plug ((if lc = Lf then FR lc m k c d else FL m k c d rc) # f # E) x)
      \<or> tree_rel t rp (plug (FL m k c d rc # f # E) x)"
    using rel by auto
  then obtain xn where xn: "mem t (raddr x) = Some xn" using live_raddr by metis
  note m = tree_rel_node [OF rel]
  obtain pn where pn: "mem t (faddr f) = Some pn"
    using rel by (cases f; auto simp: tree_rel_def rep_plug)
  have neq: "m \<noteq> raddr x" "faddr f \<noteq> m" "faddr f \<noteq> raddr x"
    using rel x raddr_cases [of x] by (cases f; auto simp: tree_rel_def)+
  then have "raddr x \<noteq> m" "m \<noteq> faddr f" "raddr x \<noteq> faddr f" by auto
  with neq m xn pn show ?thesis
    by (auto simp: delete_unlink_def store_defs set_par_def set_hole_def set_child_def fun_upd_twist)
qed

lemma unlinked_rep:
  assumes rel: "tree_rel t rp (plug (f # E) (Nd lc m k c d rc))"
    and x: "lc = Lf \<and> x = rc \<or> rc = Lf \<and> x = lc"
    and h: "h = set_hole (faddr f) m (raddr x) (set_par (raddr x) q (mem t))"
  shows "crep h rp (f # E) (raddr x)" and "rep h q x" and "h m = mem t m" and "dom h = dom (mem t)"
    and "y \<notin> set (addrs (plug (f # E) x)) \<Longrightarrow> y \<noteq> raddr x \<Longrightarrow> h y = mem t y"
    and "h Sent = (if x = Lf then map_option (\<lambda>n. n\<lparr>parent := q\<rparr>) (mem t Sent) else mem t Sent)"
proof -
  have R: "crep (mem t) rp (f # E) m" "rep (mem t) m x" "distinct (caddrs (f # E))"
    "m \<notin> set (caddrs (f # E))" "m \<noteq> Sent" "distinct (addrs x)" "m \<notin> set (addrs x)"
    "set (addrs x) \<inter> set (caddrs (f # E)) = {}" "Sent \<notin> set (caddrs (f # E))" "Sent \<notin> set (addrs x)"
    using rel x by (auto simp: tree_rel_def rep_plug simp del: plug.simps crep.simps caddrs_simps(2))
  have ff: "faddr f \<in> set (caddrs (f # E))" by simp
  have rx: "raddr x \<notin> set (caddrs (f # E))" "raddr x \<noteq> m" using R raddr_cases [of x] by auto
  from R rx have "crep (set_par (raddr x) q (mem t)) rp (f # E) m" by (simp del: crep.simps)
  from crep_set_hole [OF this R(3,5,4)] show "crep h rp (f # E) (raddr x)" by (simp only: h)
  have "faddr f \<notin> set (addrs x)" using ff R(8) by blast
  with rep_set_hole_par [OF R(2,6)] show "rep h q x" by (simp add: h)
  have "m \<noteq> faddr f" using ff R(4) by metis
  with rx show "h m = mem t m" by (simp add: h)
  show "dom h = dom (mem t)" by (simp add: h)
  show "h y = mem t y" if "y \<notin> set (addrs (plug (f # E) x))" "y \<noteq> raddr x"
  proof -
    have "faddr f \<in> set (addrs (plug (f # E) x))" by (cases f) auto
    with that(1) have "y \<noteq> faddr f" by metis
    with that(2) show ?thesis by (simp add: h)
  qed
  have "Sent \<noteq> faddr f" using ff R(9) by metis
  then show "h Sent = (if x = Lf then map_option (\<lambda>n. n\<lparr>parent := q\<rparr>) (mem t Sent) else mem t Sent)"
    using R(10) raddr_in [of x]
    by (cases x) (auto simp: h set_par_def split: option.splits)
qed


section \<open>Moving the successor into the place of the node\<close>

lemma replace_root:
  assumes "mem t z = Some zn" "mem t m = Some mn" "root t = z" "m \<noteq> z"
    and "left zn \<noteq> m" "right zn \<noteq> m" "left zn \<noteq> z" "right zn \<noteq> z"
    and "left zn \<noteq> Sent \<Longrightarrow> mem t (left zn) \<noteq> None" "right zn \<noteq> Sent \<Longrightarrow> mem t (right zn) \<noteq> None"
  shows "delete_replace t z m = Some (t\<lparr>root := m, mem := set_up (right zn) m (set_up (left zn) m
    ((mem t)(m \<mapsto> mn\<lparr>parent := parent zn, right := right zn, left := left zn, color := color zn\<rparr>)))\<rparr>)"
proof -
  have "m \<noteq> left zn" "m \<noteq> right zn" "z \<noteq> left zn" "z \<noteq> right zn" using assms by auto
  with assms show ?thesis
    by (cases "left zn = Sent"; cases "right zn = Sent"; cases "left zn = right zn")
       (auto simp: delete_replace_def store_defs set_up_def fun_upd_twist)
qed

lemma replace_inner:
  assumes "mem t z = Some zn" "mem t m = Some mn" "root t \<noteq> z" "m \<noteq> z"
    and "left zn \<noteq> m" "right zn \<noteq> m" "left zn \<noteq> z" "right zn \<noteq> z"
    and "left zn \<noteq> Sent \<Longrightarrow> mem t (left zn) \<noteq> None" "right zn \<noteq> Sent \<Longrightarrow> mem t (right zn) \<noteq> None"
    and "mem t (parent zn) = Some pn" "parent zn \<noteq> m" "parent zn \<noteq> z"
    and "left zn \<noteq> parent zn" "right zn \<noteq> parent zn"
  shows "delete_replace t z m = Some (t\<lparr>mem := set_up (right zn) m (set_up (left zn) m
    (set_hole (parent zn) z m ((mem t)(m \<mapsto>
       mn\<lparr>parent := parent zn, right := right zn, left := left zn, color := color zn\<rparr>))))\<rparr>)"
proof -
  have "m \<noteq> left zn" "m \<noteq> right zn" "z \<noteq> left zn" "z \<noteq> right zn" "m \<noteq> parent zn" "z \<noteq> parent zn"
    "z \<noteq> root t" using assms by auto
  with assms show ?thesis
    by (cases "left zn = Sent"; cases "right zn = Sent"; cases "left zn = right zn")
       (auto simp: delete_replace_def store_defs set_up_def set_hole_def set_child_def fun_upd_twist)
qed

text \<open>The heap afterwards holds the tree with \<open>m\<close> in the place of \<open>z\<close>.\<close>

lemma replaced_rep:
  assumes C: "crep h rp C z" "distinct (caddrs C)" "z \<notin> set (caddrs C)" "z \<noteq> Sent" "m \<notin> set (caddrs C)"
    and l: "rep h z l" "distinct (addrs l)" and r: "rep h q r" "distinct (addrs r)"
    and dis: "distinct (caddrs C @ addrs l @ addrs r)" "m \<notin> set (addrs l)" "m \<notin> set (addrs r)"
      "Sent \<notin> set (addrs l)" "Sent \<notin> set (addrs r)" "Sent \<notin> set (caddrs C)" "m \<noteq> Sent"
    and h': "h' = set_up (raddr r) m (set_up (raddr l) m ((if C = [] then id else set_hole (ctop rp C) z m)
        (h(m \<mapsto> \<lparr>key = k, parent = ctop rp C, right = raddr r, left = raddr l, color = c, data = d\<rparr>))))"
  shows "rep h' rp (plug C (Nd l m k c d r))"
proof -
  let ?n = "\<lparr>key = k, parent = ctop rp C, right = raddr r, left = raddr l, color = c, data = d\<rparr>"
  let ?h1 = "(if C = [] then id else set_hole (ctop rp C) z m) (h(m \<mapsto> ?n))"
  have c1: "crep ?h1 rp C m"
  proof (cases C)
    case (Cons f C')
    have "crep (h(m \<mapsto> ?n)) rp C z" using C by simp
    from crep_set_hole [OF this [unfolded Cons] C(2) [unfolded Cons] C(4) C(3) [unfolded Cons]] Cons
    show ?thesis by simp
  qed simp
  have top: "C \<noteq> [] \<Longrightarrow> ctop rp C \<in> set (caddrs C)" by (cases C) auto
  have hole: "C \<noteq> [] \<Longrightarrow> ctop rp C \<notin> set (addrs l)" "C \<noteq> [] \<Longrightarrow> ctop rp C \<notin> set (addrs r)"
    "C \<noteq> [] \<Longrightarrow> ctop rp C \<noteq> m"
    using top dis C(5) by auto
  have l1: "rep ?h1 z l" "rep ?h1 q r" "?h1 m = Some ?n"
    using l r dis hole by auto
  have ra: "raddr l \<notin> set (caddrs C)" "raddr r \<notin> set (caddrs C)" "raddr r \<notin> set (addrs l)"
    "raddr l \<notin> set (addrs r)" "raddr l \<noteq> m" "raddr r \<noteq> m"
    using dis raddr_cases [of l] raddr_cases [of r] by auto
  have "crep h' rp C m" "h' m = Some ?n"
    using c1 l1(3) ra by (simp_all add: h')
  moreover have "rep h' m l"
    using rep_set_up [OF l1(1) l(2) dis(4)] ra(3) by (simp add: h')
  moreover have "rep h' m r"
    using rep_set_up [of "set_up (raddr l) m ?h1" q r m] l1(2) r(2) dis(5) ra(4) by (simp add: h')
  ultimately show ?thesis by (simp add: rep_plug)
qed

end
