(* ===== verification/RbRemove.thy ===== *)
theory RbRemove
  imports RbDelete
begin

text \<open>
  Correctness of \<open>util_rbtree_delete\<close> as a whole: the choice of the node to unlink, the two ways in
  which it leaves the tree, and the fix-up of \<open>RbDelete\<close> at the place it left.  \<open>delete_runs\<close> is
  the total-correctness result the other components use.
\<close>

section \<open>Choosing the node to unlink\<close>

lemma delete_target_single:
  assumes "tree_rel t rp (plug C (Nd l z k c d r))" and "l = Lf \<and> x = r \<or> l \<noteq> Lf \<and> r = Lf \<and> x = l"
  shows "delete_target t z = Some (z, raddr x)"
proof -
  have "tree_rel t rp (plug (FL z k c d r # C) l)" "tree_rel t rp (plug (FR l z k c d # C) r)"
    using assms(1) by simp_all
  from this [THEN raddr_neq_Sent] tree_rel_node [OF assms(1)] assms(2) show ?thesis
    by (auto simp: delete_target_def)
qed

text \<open>A node with two children: its successor, at the end of a leftward path \<open>D\<close>.\<close>

lemma successor_path:
  assumes "r \<noteq> Lf"
  shows "\<exists>D m km cm dm x. leftmost r [] = (D, Nd Lf m km cm dm x) \<and>
           plug D (Nd Lf m km cm dm x) = r \<and> path_l D = []"
proof -
  obtain D u where L: "leftmost r [] = (D, u)" by fastforce
  from leftmost_Lf [OF L assms] leftmost_plug [OF L] leftmost_path [OF L] L show ?thesis by auto
qed

lemma delete_target_double:
  assumes rel: "tree_rel t rp (plug C (Nd l z k c d r))" and "l \<noteq> Lf" "r \<noteq> Lf"
    and L: "leftmost r [] = (D, Nd Lf m km cm dm x)" "plug D (Nd Lf m km cm dm x) = r"
  shows "delete_target t z = Some (m, raddr x)"
proof -
  have l: "tree_rel t rp (plug (FL z k c d r # C) l)" and r: "tree_rel t rp (plug (FR l z k c d # C) r)"
    and m: "tree_rel t rp (plug (D @ FR l z k c d # C) (Nd Lf m km cm dm x))"
    using rel L(2) by simp_all
  have "util_rbsubtree_min t (raddr r) = Some m"
    using subtree_min_runs [OF r] leftmost_first [OF L(1)] assms(3) by simp
  with l [THEN raddr_neq_Sent] r [THEN raddr_neq_Sent] tree_rel_node [OF rel] tree_rel_node [OF m] assms(2,3)
  show ?thesis by (simp add: delete_target_def)
qed

section \<open>The two ways a node leaves the tree\<close>

text \<open>
  \<open>emptied\<close>: the code between the choice of the node and the fix-up has left \<open>x\<close> at the end of
  the path \<open>P\<close>; the node \<open>z\<close> is no longer in the tree, and its links are cleared.
\<close>

definition emptied :: "rbtree \<Rightarrow> ptr \<Rightarrow> ptr set \<Rightarrow> ptr \<Rightarrow> frame list \<Rightarrow> rbt \<Rightarrow> rbtree \<Rightarrow> bool" where
  "emptied t rp A z P x t' \<longleftrightarrow>
     tree_rel t' rp (plug P x) \<and> (x = Lf \<longrightarrow> P \<noteq> [] \<and> sent_parent t' (faddr (hd P))) \<and>
     frame_rel (insert Sent A) t t' \<and> z \<notin> set (addrs (plug P x)) \<and> z \<noteq> Sent \<and>
     map_option data (mem t' z) = map_option data (mem t z)"

lemma tree_rel_off:
  assumes "tree_rel t rp T" and "z \<notin> set (addrs T)" and "z \<noteq> Sent" "z \<noteq> NULL"
  shows "tree_rel (t\<lparr>mem := (mem t)(z \<mapsto> n)\<rparr>) rp T"
  using assms by (auto simp: tree_rel_def)

lemma clear_emptied:
  assumes "tree_rel t1 rp (plug P x)" and "x = Lf \<Longrightarrow> P \<noteq> [] \<and> sent_parent t1 (faddr (hd P))"
    and "frame_rel (insert Sent A) t t1" and "mem t1 z = Some n" and "z \<in> A" "z \<noteq> Sent"
    and "mem t z = Some n0" and "data n = data n0"
    and "z \<notin> set (addrs (plug P x))"
  shows "runs (rbt_clear_node z t1) (emptied t rp A z P x)"
proof -
  have "z \<noteq> NULL" using assms(1,4) by (auto simp: tree_rel_def)
  have "rbt_clear_node z t1 =
      Some (t1\<lparr>mem := (mem t1)(z \<mapsto> n\<lparr>left := NULL, right := NULL, parent := NULL\<rparr>)\<rparr>)"
    using assms(4) by (simp add: rbt_clear_node_def store_defs fault_simps)
  with assms tree_rel_off [OF assms(1,9,6) \<open>z \<noteq> NULL\<close>] show ?thesis
    by (auto simp: emptied_def sent_parent_def frame_rel_def)
qed

lemma set_addrs_plugf [simp]: "set (addrs (plugf f x)) = set (faddrs f) \<union> set (addrs x)"
  by (cases f) auto

lemma unlink_single_runs:
  assumes rel: "tree_rel t rp (plug (f # E) (Nd lc z k c d rc))"
    and x: "lc = Lf \<and> x = rc \<or> rc = Lf \<and> x = lc"
    and A: "A = set (addrs (plug (f # E) (Nd lc z k c d rc)))"
  shows "runs (Option.bind (delete_unlink t z z (raddr x)) (rbt_clear_node z))
           (emptied t rp A z (f # E) x)"
proof -
  let ?h = "set_hole (faddr f) z (raddr x) (set_par (raddr x) (faddr f) (mem t))"
  have "(if faddr f = z then z else faddr f) = faddr f" by simp
  note run = delete_unlink_run [OF rel x, of z, unfolded this]
  note R = unlinked_rep [OF rel x refl, of "faddr f"]
  have root: "raddr (plug (f # E) x) = root t" "root t \<noteq> z"
    using rel root_neq [OF rel] by (auto simp: tree_rel_def raddr_plug)
  have facts: "distinct (addrs (plug (f # E) x))" "z \<notin> set (addrs (plug (f # E) x))" "z \<noteq> Sent" "z \<noteq> NULL"
    "NULL \<notin> set (addrs (plug (f # E) x))" "Sent \<notin> set (addrs (plug (f # E) x))" "z \<in> A"
    "set (addrs (plug (f # E) x)) \<subseteq> A"
    using rel x unfolding A by (auto simp: tree_rel_def simp del: plug.simps)
  have "raddr x \<noteq> NULL" using facts(5) raddr_cases [of x] by (auto simp del: plug.simps)
  have "?h NULL = None" using R(4) rel by (metis domIff tree_rel_def)
  then have 1: "tree_rel (t\<lparr>mem := ?h\<rparr>) rp (plug (f # E) x)"
    using R(1,2,6) facts rel root(1) \<open>raddr x \<noteq> NULL\<close>
    by (auto simp: tree_rel_def rep_plug simp del: plug.simps crep.simps)
  moreover have "sent_parent (t\<lparr>mem := ?h\<rparr>) (faddr (hd (f # E)))" if "x = Lf"
    using R(6) rel that by (auto simp: sent_parent_def tree_rel_def)
  moreover have "?h p = mem t p" if "p \<notin> insert Sent A" for p
  proof -
    have "faddr f \<in> set (addrs (plug (f # E) x))" "set (addrs x) \<subseteq> set (addrs (plug (f # E) x))"
      by auto
    then have "faddr f \<in> A" "set (addrs x) \<subseteq> A" using facts(8) by (meson subsetD, meson subset_trans)
    with that raddr_cases [of x] have "p \<noteq> faddr f" "p \<noteq> raddr x" by auto
    then show ?thesis by simp
  qed
  then have "frame_rel (insert Sent A) t (t\<lparr>mem := ?h\<rparr>)"
    using R(4) by (simp add: frame_rel_def)
  moreover have "mem (t\<lparr>mem := ?h\<rparr>) z = mem t z" using R(3) by simp
  ultimately show ?thesis
    using clear_emptied [of "t\<lparr>mem := ?h\<rparr>" rp "f # E" x A t z] facts tree_rel_node [OF rel]
    by (simp add: run fault_simps del: plug.simps)
qed


lemma crep_append:
  "crep h rp (D @ E) q \<longleftrightarrow> crep h (ctop rp E) D q \<and> crep h rp E (if D = [] then q else faddr (last D))"
proof (induction D arbitrary: q)
  case (Cons f D)
  have "ctop rp (D @ E) = ctop (ctop rp E) D" by (cases D) auto
  with Cons show ?case by auto
qed simp

text \<open>The unlinked heap, read around the node \<open>z\<close> that the successor \<open>m\<close> replaces.\<close>

lemma unlink_double_parts:
  assumes rel: "tree_rel t rp (plug C (Nd l z k c d (plug D (Nd Lf m km cm dm x))))"
    and q: "q = (if D = [] then m else faddr (hd D))"
    and h: "h = set_hole (if D = [] then z else faddr (hd D)) m (raddr x) (set_par (raddr x) q (mem t))"
  shows "crep h rp C z" and "rep h z l" and "rep h (if D = [] then m else z) (plug D x)"
    and "h z = Some \<lparr>key = k, parent = ctop rp C, right = raddr (plug D x), left = raddr l,
                     color = c, data = d\<rparr>"
    and "h m = mem t m" and "dom h = dom (mem t)"
    and "h Sent = (if x = Lf then map_option (\<lambda>n. n\<lparr>parent := q\<rparr>) (mem t Sent) else mem t Sent)"
    and "y \<notin> insert Sent (set (addrs (plug C (Nd l z k c d (plug D (Nd Lf m km cm dm x)))))) \<Longrightarrow>
         h y = mem t y"
proof -
  obtain f E where fE: "D @ FR l z k c d # C = f # E" by (cases D) auto
  then have f: "faddr f = (if D = [] then z else faddr (hd D))" by (cases D) auto
  have rel': "tree_rel t rp (plug (f # E) (Nd Lf m km cm dm x))"
    using rel unfolding fE [symmetric] by simp
  note R = unlinked_rep [OF rel', of x h q, unfolded f, OF _ h, simplified]
  have "crep h rp (D @ FR l z k c d # C) (raddr x)" using R(1) fE f by simp
  then have cr: "crep h z D (raddr x)" "h z = Some \<lparr>key = k, parent = ctop rp C,
      right = raddr (plug D x), left = raddr l, color = c, data = d\<rparr>" "rep h z l" "crep h rp C z"
    by (auto simp: crep_append raddr_plug)
  show "crep h rp C z" "rep h z l" "h z = Some \<lparr>key = k, parent = ctop rp C,
      right = raddr (plug D x), left = raddr l, color = c, data = d\<rparr>" by (rule cr)+
  show "rep h (if D = [] then m else z) (plug D x)"
    using cr(1) R(2) by (cases D; cases "hd D") (auto simp: rep_plug q)
  show "h m = mem t m" "dom h = dom (mem t)"
    "h Sent = (if x = Lf then map_option (\<lambda>n. n\<lparr>parent := q\<rparr>) (mem t Sent) else mem t Sent)"
    by (rule R)+
  assume y: "y \<notin> insert Sent (set (addrs (plug C (Nd l z k c d (plug D (Nd Lf m km cm dm x))))))"
  have "set (addrs (plug (f # E) x)) \<subseteq> set (addrs (plug C (Nd l z k c d (plug D (Nd Lf m km cm dm x)))))"
    unfolding fE [symmetric] by auto
  with y raddr_cases [of x] R(5) show "h y = mem t y"
    by (auto simp del: plug.simps)
qed


lemma set_up_off [simp]: "p \<notin> set (addrs t) \<Longrightarrow> set_up (raddr t) a h p = h p"
  by (cases t) auto

lemma replace_runs:
  assumes C: "crep (mem t) rp C z" and l: "rep (mem t) z l" and r: "rep (mem t) q R"
    and z: "mem t z = Some \<lparr>key = k, parent = ctop rp C, right = raddr R, left = raddr l,
                            color = c, data = d\<rparr>"
    and m: "mem t m = Some mn" "key mn = km" "data mn = dm"
    and root: "root t = (if C = [] then z else faddr (last C))" and "l \<noteq> Lf"
    and dis: "distinct (caddrs C @ z # m # addrs l @ addrs R)"
      "Sent \<notin> set (caddrs C @ z # m # addrs l @ addrs R)" "NULL \<notin> set (caddrs C @ z # m # addrs l @ addrs R)"
    and t: "mem t NULL = None" "mem t Sent = Some s" "color s = 1"
    and A: "set (caddrs C @ m # addrs l @ addrs R) \<subseteq> A"
  shows "\<exists>t2. delete_replace t z m = Some t2 \<and> tree_rel t2 rp (plug C (Nd l m km c dm R)) \<and>
           mem t2 Sent = mem t Sent \<and> frame_rel A t t2 \<and> mem t2 z = mem t z"
proof -
  let ?n = "\<lparr>key = km, parent = ctop rp C, right = raddr R, left = raddr l, color = c, data = dm\<rparr>"
  let ?h = "set_up (raddr R) m (set_up (raddr l) m ((if C = [] then id else set_hole (ctop rp C) z m)
        ((mem t)(m \<mapsto> ?n))))"
  let ?t2 = "t\<lparr>root := (if C = [] then m else root t), mem := ?h\<rparr>"
  have mn: "mn\<lparr>parent := ctop rp C, right := raddr R, left := raddr l, color := c\<rparr> = ?n"
    using m by (cases mn) simp
  have ra: "raddr l \<notin> {m, z}" "raddr R \<notin> {m, z}" "m \<noteq> z" "raddr l \<notin> set (caddrs C)" "raddr R \<notin> set (caddrs C)"
    using dis raddr_cases [of l] raddr_cases [of R] by auto
  have live: "mem t (raddr l) \<noteq> None" "mem t (raddr R) \<noteq> None"
    using rep_live [OF l, of "raddr l"] rep_live [OF r, of "raddr R"] raddr_cases [of l] raddr_cases [of R] t
    by auto
  have top: "C \<noteq> [] \<Longrightarrow> ctop rp C \<in> set (caddrs C)" by (cases C) auto
  have run: "delete_replace t z m = Some ?t2"
  proof (cases "C = []")
    case True
    with replace_root [OF z m(1)] ra live root mn show ?thesis by simp
  next
    case False
    obtain pn where "mem t (ctop rp C) = Some pn"
      using C False by (cases C; cases "hd C") auto
    moreover have "root t \<noteq> z" "ctop rp C \<noteq> m" "ctop rp C \<noteq> z"
      using root False dis top last_faddr_in [of C] by auto
    moreover have "raddr l \<noteq> ctop rp C" "raddr R \<noteq> ctop rp C" using ra(4,5) top False by metis+
    ultimately show ?thesis using replace_inner [OF z m(1)] ra live False mn by simp
  qed
  have repr: "rep ?h rp (plug C (Nd l m km c dm R))"
    by (rule replaced_rep [OF C _ _ _ _ l _ r _ _ _ _ _ _ _ _ refl]) (use dis in auto)
  have out: "?h p = mem t p" if "p \<notin> set (caddrs C @ m # addrs l @ addrs R)" for p
  proof -
    have "C \<noteq> [] \<Longrightarrow> p \<noteq> ctop rp C" using that top by auto
    with that show ?thesis by (cases "C = []") auto
  qed
  have "dom ?h = dom (mem t)" using m by auto
  then obtain h where h: "?h = h" "dom h = dom (mem t)" by blast
  have outA: "h p = mem t p" if "p \<notin> A" for p
    unfolding h(1) [symmetric] by (rule out) (use that A in auto)
  then have fr: "frame_rel A t (t\<lparr>root := (if C = [] then m else root t), mem := h\<rparr>)"
    using h(2) by (simp add: frame_rel_def)
  have keep: "h NULL = None" "h Sent = mem t Sent" "h z = mem t z"
    unfolding h(1) [symmetric] by (subst out; use dis t z in simp)+
  with repr have "tree_rel (t\<lparr>root := (if C = [] then m else root t), mem := h\<rparr>) rp (plug C (Nd l m km c dm R))"
    unfolding h(1) using dis t root by (auto simp: tree_rel_def raddr_plug)
  with run fr keep z show ?thesis unfolding h(1) by auto
qed

lemma unlink_double_runs:
  assumes rel: "tree_rel t rp (plug C (Nd l z k c d r))" and l: "l \<noteq> Lf"
    and r: "plug D (Nd Lf m km cm dm x) = r"
    and A: "A = set (addrs (plug C (Nd l z k c d r)))"
  shows "runs (Option.bind (delete_unlink t z m (raddr x)) (\<lambda>t. Option.bind (delete_replace t z m) (rbt_clear_node z)))
           (emptied t rp A z (D @ FR l m km c dm # C) x)"
proof -
  let ?q = "if D = [] then m else faddr (hd D)" and ?p = "if D = [] then z else faddr (hd D)"
  obtain h where h: "h = set_hole ?p m (raddr x) (set_par (raddr x) ?q (mem t))" by simp
  let ?R = "plug D x"
  let ?P = "D @ FR l m km c dm # C"
  have rel': "tree_rel t rp (plug C (Nd l z k c d (plug D (Nd Lf m km cm dm x))))" using rel r by simp
  obtain f E where fE: "D @ FR l z k c d # C = f # E" by (cases D) auto
  then have f: "faddr f = ?p" by (cases D) auto
  have rel2: "tree_rel t rp (plug (f # E) (Nd Lf m km cm dm x))"
    using rel' unfolding fE [symmetric] by simp
  note mn = tree_rel_node [OF rel2]
  have "D \<noteq> [] \<Longrightarrow> faddr (hd D) \<in> set (caddrs D)" by (cases D) auto
  then have q: "(if faddr f = z then m else faddr f) = ?q"
    using rel' unfolding f by (auto simp: tree_rel_def)
  have run: "delete_unlink t z m (raddr x) = Some (t\<lparr>mem := h\<rparr>)"
    using delete_unlink_run [OF rel2, of x z] unfolding q unfolding f h by simp
  note U = unlink_double_parts [OF rel' refl h]
  have run2: "\<exists>t2. delete_replace (t\<lparr>mem := h\<rparr>) z m = Some t2 \<and> tree_rel t2 rp (plug ?P x) \<and>
    mem t2 Sent = h Sent \<and> frame_rel A (t\<lparr>mem := h\<rparr>) t2 \<and> mem t2 z = h z"
  proof -
    have t: "h NULL = None" "\<exists>s. h Sent = Some s \<and> color s = 1"
      "h m = Some \<lparr>key = km, parent = ctop rp (f # E), right = raddr x, left = raddr Lf,
                   color = cm, data = dm\<rparr>"
      using U(5,6,7) rel' mn by (auto simp: tree_rel_def domIff)
    then obtain s where s: "h Sent = Some s" "color s = 1" by blast
    have root: "root t = (if C = [] then z else faddr (last C))"
      using rel by (simp add: tree_rel_def raddr_plug)
    have "distinct (caddrs C @ z # m # addrs l @ addrs ?R)" "Sent \<notin> set (caddrs C @ z # m # addrs l @ addrs ?R)"
      "NULL \<notin> set (caddrs C @ z # m # addrs l @ addrs ?R)" "set (caddrs C @ m # addrs l @ addrs ?R) \<subseteq> A"
      using rel' A r by (auto simp: tree_rel_def)
    note dis = this
    have "\<exists>t2. delete_replace (t\<lparr>mem := h\<rparr>) z m = Some t2 \<and> tree_rel t2 rp (plug C (Nd l m km c dm ?R)) \<and>
        mem t2 Sent = mem (t\<lparr>mem := h\<rparr>) Sent \<and> frame_rel A (t\<lparr>mem := h\<rparr>) t2 \<and> mem t2 z = mem (t\<lparr>mem := h\<rparr>) z"
      by (rule replace_runs [where q = "if D = [] then m else z" and k = k and d = d and s = s],
          use U(1-4) t(3) root l dis t(1) s in simp_all) simp_all
    then show ?thesis by simp
  qed
  then obtain t2 where t2: "delete_replace (t\<lparr>mem := h\<rparr>) z m = Some t2" "tree_rel t2 rp (plug ?P x)"
    "mem t2 Sent = h Sent" "frame_rel A (t\<lparr>mem := h\<rparr>) t2" "mem t2 z = h z" by blast
  have "x = Lf \<Longrightarrow> ?P \<noteq> [] \<and> sent_parent t2 (faddr (hd ?P))"
    using t2(3) U(7) rel by (cases D) (auto simp: sent_parent_def tree_rel_def)
  moreover have "frame_rel (insert Sent A) t t2"
    using t2(4) U(6,8) unfolding A r [symmetric] by (simp add: frame_rel_def)
  moreover have "z \<in> A" "z \<noteq> Sent" "z \<notin> set (addrs (plug ?P x))"
    using rel' A by (auto simp: tree_rel_def)
  ultimately have "runs (rbt_clear_node z t2) (emptied t rp A z ?P x)"
    using clear_emptied [OF t2(2), where z = z and A = A and t = t] t2(5) U(4) tree_rel_node [OF rel] by simp
  with run t2(1) show ?thesis by (simp add: fault_simps)
qed


section \<open>Deletion\<close>

text \<open>The path of the fix-up differs from the one in the tree by the node on one frame only.\<close>

lemma path_rename:
  fixes d dm :: nat
  shows
  "path_c (D @ FR l m km c dm # C) = path_c (D @ FR l z k c d # C)"
  "path_h (D @ FR l m km c dm # C) h = path_h (D @ FR l z k c d # C) h"
  "fcolor (last (D @ FR l m km c dm # C)) = fcolor (last (D @ FR l z k c d # C))"
  "fcolor (hd (D @ FR l m km c dm # C)) = fcolor (hd (D @ FR l z k c d # C))"
proof -
  show "path_c (D @ FR l m km c dm # C) = path_c (D @ FR l z k c d # C)"
    by (induction D rule: path_c.induct) (auto simp: hd_append)
  show "path_h (D @ FR l m km c dm # C) h = path_h (D @ FR l z k c d # C) h"
    by (induction D h rule: path_h.induct) auto
qed (auto simp: hd_append)

lemma deficient_rename:
  "deficient (D @ FR l m km c dm # C) x = deficient (D @ FR l z k c d # C) x"
  unfolding deficient_def
    path_rename(1) [of D l m km c dm C z k d] path_rename(2) [of D l m km c dm C _ z k d]
    path_rename(3) [of D l m km c dm C z k d] by simp

lemma single_child_inv:
  assumes inv: "invc (plug P (Nd lc m k c d rc))" "invh (plug P (Nd lc m k c d rc))"
    "rcolor (plug P (Nd lc m k c d rc)) = 1"
    and x: "lc = Lf \<and> x = rc \<or> rc = Lf \<and> x = lc"
  shows "c = 1 \<Longrightarrow> deficient P x"
    and "c \<noteq> 1 \<Longrightarrow> x = Lf \<and> path_c P \<and> path_h P 0 \<and> P \<noteq> [] \<and> fcolor (hd P) = 1 \<and> fcolor (last P) = 1"
proof -
  have P: "path_c P" "path_h P (bheight (Nd lc m k c d rc))" "P = [] \<or> fcolor (hd P) = 1 \<or> c = 1"
    "invc (Nd lc m k c d rc)" "invh (Nd lc m k c d rc)" "P \<noteq> [] \<Longrightarrow> fcolor (last P) = 1"
    "P = [] \<Longrightarrow> c = 1"
    using inv by (auto simp: invc_plug invh_plug rcolor_plug simp del: bheight.simps)
  show "deficient P x" if "c = 1"
    using P x that invc_rcolor [of x] by (auto simp: deficient_def)
  have leaf: "x = Lf" if "c \<noteq> 1"
  proof (cases x)
    case (Nd xl xa xk xc xd xr)
    with P(4,5) x that show ?thesis by (auto split: if_splits)
  qed simp
  show "x = Lf \<and> path_c P \<and> path_h P 0 \<and> P \<noteq> [] \<and> fcolor (hd P) = 1 \<and> fcolor (last P) = 1"
    if "c \<noteq> 1"
    using P x leaf that by auto
qed

text \<open>The fix-up, when the unlinked node was black, ends the deletion.\<close>

lemma fixed_runs:
  assumes E: "emptied t rp A z P x t1" and A: "set (addrs (plug P x)) \<subseteq> A"
    and black: "cm = 1 \<Longrightarrow> deficient P x"
    and red: "cm \<noteq> 1 \<Longrightarrow>
      x = Lf \<and> path_c P \<and> path_h P 0 \<and> P \<noteq> [] \<and> fcolor (hd P) = 1 \<and> fcolor (last P) = 1"
  shows "runs (if cm = 1 then rbtree_delete_fixup t1 (raddr x) else Some t1) (\<lambda>t'.
           \<exists>T'. tree_rel t' rp T' \<and> invc T' \<and> invh T' \<and> rcolor T' = 1 \<and>
                inorder T' = inorder (plug P x) \<and> frame_rel (insert Sent A) t t' \<and>
                map_option data (mem t' z) = map_option data (mem t z))"
proof (cases "cm = 1")
  case True
  let ?A = "set (addrs (plug P x))"
  have P: "P \<noteq> [] \<or> x \<noteq> Lf" and sent: "x = Lf \<Longrightarrow> P \<noteq> [] \<and> sent_parent t1 (faddr (hd P))"
    and fr: "frame_rel (insert Sent A) t t1"
    using E by (auto simp: emptied_def)
  have "st t1 rp ?A t1 (plug P x)" using E by (intro st_I) (auto simp: emptied_def)
  from delete_fixup_runs [OF this sent black [OF True]] obtain t' where
    t': "rbtree_delete_fixup t1 (raddr x) = Some t'" "st t1 rp ?A t' (del_fix P x)"
    by (auto elim: runsE)
  have "frame_rel (insert Sent A) t1 t'"
    using t'(2) A by (auto simp: st_def elim!: frame_rel_mono)
  moreover have "mem t' z = mem t1 z"
    using t'(2) E by (simp add: st_def frame_rel_def emptied_def)
  then have "map_option data (mem t' z) = map_option data (mem t z)" using E by (simp add: emptied_def)
  moreover note t' del_fix_inv [OF black [OF True] P] True
  ultimately show ?thesis using frame_rel_trans [OF fr]
    by (auto simp: st_def)
next
  case False
  with red have x: "x = Lf" and P: "path_c P" "path_h P 0" "P \<noteq> []" "fcolor (hd P) = 1" "fcolor (last P) = 1"
    by auto
  then have "invc (plug P x)" "invh (plug P x)" "rcolor (plug P x) = 1"
    by (simp_all add: invc_plug invh_plug rcolor_plug)
  with E False show ?thesis by (auto simp: emptied_def)
qed

lemma tree_rel_rbsize [simp]: "tree_rel (t\<lparr>rbsize := n\<rparr>) rp T = tree_rel t rp T"
  by (simp add: tree_rel_def)

lemma addr_path: "z \<in> set (addrs T) \<Longrightarrow> \<exists>C l k c d r. T = plug C (Nd l z k c d r)"
proof (induction T)
  case (Nd l a k c d r)
  consider "z = a" | "z \<in> set (addrs l)" | "z \<in> set (addrs r)" using Nd.prems by auto
  then show ?case
  proof cases
    case 1
    then show ?thesis by (intro exI [of _ "[]"]) auto
  next
    case 2
    with Nd.IH(1) obtain C l' k' c' d' r' where "l = plug C (Nd l' z k' c' d' r')" by blast
    then have "Nd l a k c d r = plug (C @ [FL a k c d r]) (Nd l' z k' c' d' r')" by simp
    then show ?thesis by blast
  next
    case 3
    with Nd.IH(2) obtain C l' k' c' d' r' where "r = plug C (Nd l' z k' c' d' r')" by blast
    then have "Nd l a k c d r = plug (C @ [FR l a k c d]) (Nd l' z k' c' d' r')" by simp
    then show ?thesis by blast
  qed
qed simp

lemma filter_distinct:
  assumes "distinct (map fst (xs @ (z, y) # ys))"
  shows "filter (\<lambda>e. fst e \<noteq> z) (xs @ (z, y) # ys) = xs @ ys"
proof -
  have "\<forall>e \<in> set xs. fst e \<noteq> z" "\<forall>e \<in> set ys. fst e \<noteq> z" using assms by force+
  then show ?thesis by simp
qed

lemma delete_root_single_runs:
  assumes rel: "tree_rel t rp (Nd l z k c d r)" and inv: "rb_inv (Nd l z k c d r)"
    and x: "l = Lf \<and> x = r \<or> r = Lf \<and> x = l"
  shows "runs (Option.bind (util_rbt_black (raddr x) (t\<lparr>root := raddr x\<rparr>)) (rbt_clear_node z)) (\<lambda>t'.
           \<exists>rp'. tree_rel t' rp' (paint 1 x) \<and> (rp' = rp \<or> length (inorder x) = 1) \<and>
                 frame_rel (insert Sent (set (addrs (Nd l z k c d r)))) t t' \<and>
                 map_option data (mem t' z) = map_option data (mem t z))"
proof -
  obtain zn where zn: "mem t z = Some zn" using rel by (auto simp: tree_rel_def)
  obtain s where s: "mem t Sent = Some s" "color s = 1" "mem t NULL = None" "z \<noteq> Sent" "z \<noteq> NULL"
    using rel by (auto simp: tree_rel_def)
  show ?thesis
  proof (cases x)
    case Lf
    with s zn show ?thesis
      by (auto simp: store_defs rbt_clear_node_def fault_simps tree_rel_def frame_rel_def)
  next
    case (Nd xl xa xk xc xd xr)
    have "xl = Lf" "xr = Lf"
      using inv x Nd by (cases xl; cases xr; auto simp: rb_inv_def split: if_splits)+
    with Nd x rel zn s show ?thesis
      by (auto simp: store_defs rbt_clear_node_def fault_simps tree_rel_def frame_rel_def)
  qed
qed


definition deleted :: "rbtree \<Rightarrow> ptr \<Rightarrow> rbt \<Rightarrow> ptr \<Rightarrow> rbtree \<Rightarrow> bool" where
  "deleted t rp T z t' \<longleftrightarrow> (\<exists>T' rp'. tree_rel t' rp' T' \<and> rb_inv T' \<and>
     inorder T' = filter (\<lambda>e. fst e \<noteq> z) (inorder T) \<and>
     (rp' = rp \<or> length (inorder T') = 1) \<and> frame_rel (insert Sent (set (addrs T))) t t' \<and>
     map_option data (mem t' z) = map_option data (mem t z))"

lemma deletedI:
  "tree_rel t' rp' T' \<Longrightarrow> rb_inv T' \<Longrightarrow> inorder T' = filter (\<lambda>e. fst e \<noteq> z) (inorder T) \<Longrightarrow>
   rp' = rp \<or> length (inorder T') = 1 \<Longrightarrow> frame_rel (insert Sent (set (addrs T))) t t' \<Longrightarrow>
   map_option data (mem t' z) = map_option data (mem t z) \<Longrightarrow> deleted t rp T z t'"
  unfolding deleted_def by blast

lemma sorted_filter_keys: "sorted (map f xs) \<Longrightarrow> sorted (map f (filter P xs))"
  by (induction xs) auto

lemma delete_unfold:
  assumes "z \<noteq> NULL" "z \<noteq> Sent" and t0: "t0 = t\<lparr>rbsize := rbsize t - 1\<rparr>"
    and "delete_target t0 z = Some (m, y)" and "mem t0 m = Some mn"
  shows "util_rbtree_delete t z =
    (if m = root t0 then Option.bind (util_rbt_black y (t0\<lparr>root := y\<rparr>)) (rbt_clear_node m)
     else Option.bind
       (Option.bind (delete_unlink t0 z m y) (\<lambda>t.
          Option.bind (if m \<noteq> z then delete_replace t z m else Some t) (rbt_clear_node z)))
       (\<lambda>t. if color mn = 1 then rbtree_delete_fixup t y else Some t))"
  using assms(1,2,4,5) unfolding t0
  by (simp add: util_rbtree_delete_def util_rbt_isblack_def Let_def fault_simps)

lemma deleted_fixed:
  assumes E: "runs m (emptied t rp (set (addrs T)) z P x)" and A: "set (addrs (plug P x)) \<subseteq> set (addrs T)"
    and black: "cm = 1 \<Longrightarrow> deficient P x"
    and red: "cm \<noteq> 1 \<Longrightarrow>
      x = Lf \<and> path_c P \<and> path_h P 0 \<and> P \<noteq> [] \<and> fcolor (hd P) = 1 \<and> fcolor (last P) = 1"
    and order: "inorder (plug P x) = filter (\<lambda>e. fst e \<noteq> z) (inorder T)" and "rb_inv T"
  shows "runs (Option.bind m (\<lambda>t. if cm = 1 then rbtree_delete_fixup t (raddr x) else Some t))
           (deleted t rp T z)"
proof (rule runs_bind [OF E])
  fix t1 assume "emptied t rp (set (addrs T)) z P x t1"
  note F = fixed_runs [OF this A, of cm]
  have "sorted (map (\<lambda>(a, k, d). k) (filter (\<lambda>e. fst e \<noteq> z) (inorder T)))"
    using \<open>rb_inv T\<close> by (intro sorted_filter_keys) (simp add: rb_inv_def)
  then show "runs (if cm = 1 then rbtree_delete_fixup t1 (raddr x) else Some t1) (deleted t rp T z)"
    using order by (intro runs_conseq [OF F] black red) (auto simp: rb_inv_def intro!: deletedI)
qed

lemma delete_single:
  assumes rel: "tree_rel t rp T" and inv: "rb_inv T" and T: "T = plug C (Nd l z k c d r)"
    and x: "l = Lf \<and> x = r \<or> l \<noteq> Lf \<and> r = Lf \<and> x = l"
    and t0: "t0 = t\<lparr>rbsize := rbsize t - 1\<rparr>"
    and order: "inorder (plug C x) = filter (\<lambda>e. fst e \<noteq> z) (inorder T)"
  shows "runs (util_rbtree_delete t z) (deleted t0 rp T z)"
proof -
  have rel0: "tree_rel t0 rp (plug C (Nd l z k c d r))" using rel T t0 by simp
  have zn: "z \<noteq> NULL" "z \<noteq> Sent" using rel0 by (auto simp: tree_rel_def)
  note unf = delete_unfold [OF zn t0 delete_target_single [OF rel0 x] tree_rel_node [OF rel0]]
  have x': "l = Lf \<and> x = r \<or> r = Lf \<and> x = l" using x by auto
  show ?thesis
  proof (cases C)
    case Nil
    then have "root t0 = z" using rel0 by (simp add: tree_rel_def)
    moreover have "rb_inv (paint 1 x)"
      using inv T Nil x order by (auto simp: rb_inv_def sorted_append)
    moreover have "runs (Option.bind (util_rbt_black (raddr x) (t0\<lparr>root := raddr x\<rparr>)) (rbt_clear_node z))
      (deleted t0 rp T z)"
      using rel0 inv T Nil x' order calculation(2)
      by (intro runs_conseq [OF delete_root_single_runs [of t0 rp l z k c d r x]])
         (auto intro!: deletedI simp del: addrs.simps)
    ultimately show ?thesis unfolding unf by simp
  next
    case (Cons f E)
    have rel': "tree_rel t0 rp (plug (f # E) (Nd l z k c d r))"
      and nr: "root t0 \<noteq> z" using rel0 Cons root_neq [OF rel0] by simp_all
    note I = single_child_inv [of C l z k c d r x]
    have iv: "invc (plug C (Nd l z k c d r))" "invh (plug C (Nd l z k c d r))" "rcolor (plug C (Nd l z k c d r)) = 1"
      using inv T by (auto simp: rb_inv_def)
    have "runs (Option.bind (delete_unlink t0 z z (raddr x)) (rbt_clear_node z)) (emptied t0 rp (set (addrs T)) z C x)"
      using unlink_single_runs [OF rel' x' refl] T Cons by simp
    from deleted_fixed [OF this _ I(1) I(2) order inv, of c] iv x' nr show ?thesis
      unfolding unf T by auto
  qed
qed

lemma delete_double:
  assumes rel: "tree_rel t rp T" and inv: "rb_inv T" and T: "T = plug C (Nd l z k c d r)"
    and lr: "l \<noteq> Lf" "r \<noteq> Lf" and t0: "t0 = t\<lparr>rbsize := rbsize t - 1\<rparr>"
    and order: "filter (\<lambda>e. fst e \<noteq> z) (inorder T) = path_l C @ (inorder l @ inorder r) @ path_r C"
  shows "runs (util_rbtree_delete t z) (deleted t0 rp T z)"
proof -
  have rel0: "tree_rel t0 rp (plug C (Nd l z k c d r))" using rel T t0 by simp
  have zn: "z \<noteq> NULL" "z \<noteq> Sent" using rel0 by (auto simp: tree_rel_def)
  obtain D m km cm dm x where L: "leftmost r [] = (D, Nd Lf m km cm dm x)"
    "plug D (Nd Lf m km cm dm x) = r" "path_l D = []"
    using successor_path [OF lr(2)] by blast
  let ?P = "D @ FR l m km c dm # C" and ?Q = "D @ FR l z k c d # C"
  have relm: "tree_rel t0 rp (plug ?Q (Nd Lf m km cm dm x))" using rel0 L(2) by simp
  note unf = delete_unfold [OF zn t0 delete_target_double [OF rel0 lr L(1,2)] tree_rel_node [OF relm]]
  have nr: "root t0 \<noteq> m" "m \<noteq> z" using root_neq [OF relm] relm by (auto simp: tree_rel_def)
  note I = single_child_inv [of ?Q Lf m km cm dm x x]
  have iv: "invc (plug ?Q (Nd Lf m km cm dm x))" "invh (plug ?Q (Nd Lf m km cm dm x))"
    "rcolor (plug ?Q (Nd Lf m km cm dm x)) = 1"
    using inv T L(2) by (auto simp: rb_inv_def)
  have ord: "inorder (plug ?P x) = filter (\<lambda>e. fst e \<noteq> z) (inorder T)"
    using L(3) arg_cong [OF L(2), of inorder] unfolding order by (simp add: inorder_plug)
  have "runs (Option.bind (delete_unlink t0 z m (raddr x)) (\<lambda>t. Option.bind (delete_replace t z m) (rbt_clear_node z)))
     (emptied t0 rp (set (addrs T)) z ?P x)"
    using unlink_double_runs [OF rel0 lr(1) L(2) refl] T by simp
  moreover have "set (addrs (plug ?P x)) \<subseteq> set (addrs T)"
    using T arg_cong [OF L(2), of "\<lambda>t. set (addrs t)"] by auto
  moreover have "cm = 1 \<Longrightarrow> deficient ?P x"
    using I(1) iv unfolding deficient_rename [of D l m km c dm C x z k d] by simp
  moreover have "cm \<noteq> 1 \<Longrightarrow>
      x = Lf \<and> path_c ?P \<and> path_h ?P 0 \<and> ?P \<noteq> [] \<and> fcolor (hd ?P) = 1 \<and> fcolor (last ?P) = 1"
    using I(2) iv unfolding path_rename(1,3,4) [of D l m km c dm C z k d]
      path_rename(2) [of D l m km c dm C 0 z k d] by simp
  ultimately have "runs (Option.bind (Option.bind (delete_unlink t0 z m (raddr x)) (\<lambda>t.
      Option.bind (delete_replace t z m) (rbt_clear_node z)))
      (\<lambda>t. if cm = 1 then rbtree_delete_fixup t (raddr x) else Some t)) (deleted t0 rp T z)"
    by (rule deleted_fixed [OF _ _ _ _ ord inv])
  with unf nr show ?thesis by simp
qed

lemma delete_runs:
  assumes rel: "tree_rel t rp T" and inv: "rb_inv T" and z: "z \<in> set (addrs T)"
  shows "runs (util_rbtree_delete t z) (deleted (t\<lparr>rbsize := rbsize t - 1\<rparr>) rp T z)"
proof -
  obtain C l k c d r where T: "T = plug C (Nd l z k c d r)" using addr_path [OF z] by blast
  have eq: "inorder T = (path_l C @ inorder l) @ (z, k, d) # (inorder r @ path_r C)"
    unfolding T by (simp add: inorder_plug)
  moreover have "distinct (map fst (inorder T))"
    using rel by (simp add: map_fst_inorder tree_rel_def)
  ultimately have order: "filter (\<lambda>e. fst e \<noteq> z) (inorder T) = path_l C @ (inorder l @ inorder r) @ path_r C"
    using filter_distinct by (metis append.assoc)
  show ?thesis
  proof (cases "l \<noteq> Lf \<and> r \<noteq> Lf")
    case True
    with delete_double [OF rel inv T _ _ refl order] show ?thesis by simp
  next
    case False
    then have x: "l = Lf \<and> (if l = Lf then r else l) = r \<or> l \<noteq> Lf \<and> r = Lf \<and> (if l = Lf then r else l) = l"
      by auto
    have "inorder (plug C (if l = Lf then r else l)) = filter (\<lambda>e. fst e \<noteq> z) (inorder T)"
      unfolding order using False by (auto simp: inorder_plug)
    from delete_single [OF rel inv T x refl this] show ?thesis .
  qed
qed

end
