(* ===== verification/RbTheorems.thy ===== *)
theory RbTheorems
  imports RbRemove
begin

text \<open>
  What \<open>conhash/util_rbtree.c\<close> guarantees, operation by operation, stated for trees in any heap:
  \<open>tree_rel t rp T\<close> says that the C tree \<open>t\<close> holds the abstract tree \<open>T\<close>, \<open>rb_inv T\<close> that it is a
  red-black search tree.
\<close>

text \<open>The loops unfold when a concrete run is evaluated.\<close>

lemmas loop_code [code] =
  subtree_min_loop.simps search_loop.simps insert_fixup_loop.simps insert_walk.simps
  delete_fixup_loop.simps rbtree_check_subtree.simps

section \<open>Properties\<close>

text \<open>
  C7. Insertion.  In a red-black tree whose root has the sentinel as its parent, inserting a live
  node that is not yet in the tree returns; the result is a red-black search tree with the same
  nodes and the new one after all nodes with a key that is not larger, the stored size has grown by one and no other memory has
  changed.
\<close>

theorem rbtree_insert_correct:
  assumes "tree_rel t Sent T" and "rb_inv T" and "mem t z = Some n" and "z \<noteq> Sent"
    and "z \<notin> set (addrs T)"
  shows "\<exists>t' T'. util_rbtree_insert t z = Some t' \<and> tree_rel t' Sent T' \<and> rb_inv T' \<and>
           inorder T' = ins_list (z, key n, data n) (inorder T) \<and>
           rbsize t' = rbsize t + 1 \<and> dom (mem t') = dom (mem t) \<and>
           (\<forall>p. p \<noteq> z \<longrightarrow> p \<notin> set (addrs T) \<longrightarrow> mem t' p = mem t p)"
  using insert_runs [OF assms impI [OF refl]] by (auto simp: runs_def)

text \<open>
  C8. Deletion.  Deleting a node of a red-black tree returns; the result is a red-black search tree
  with exactly the other nodes in the same order, the stored size has shrunk by one, and only nodes of the tree and
  the sentinel have been written.  The parent link of the root is kept, except that a tree of
  which a single node is left may have another one.
\<close>

theorem rbtree_delete_correct:
  assumes "tree_rel t rp T" and "rb_inv T" and "z \<in> set (addrs T)"
  shows "\<exists>t' T' rp'. util_rbtree_delete t z = Some t' \<and> tree_rel t' rp' T' \<and> rb_inv T' \<and>
           inorder T' = filter (\<lambda>e. fst e \<noteq> z) (inorder T) \<and>
           (rp' = rp \<or> length (inorder T') = 1) \<and>
           rbsize t' = rbsize t - 1 \<and> dom (mem t') = dom (mem t) \<and>
           (\<forall>p. p \<notin> insert Sent (set (addrs T)) \<longrightarrow> mem t' p = mem t p)"
  using delete_runs [OF assms] by (auto simp: runs_def deleted_def frame_rel_def)

text \<open>
  C19. Lookup.  The result is a node of the tree with the least key that is not below \<open>k\<close>; when all
  keys are below \<open>k\<close> it is a node with the least key of all, and for the empty tree it is \<open>NULL\<close>.
\<close>

theorem rbtree_lookup_correct:
  assumes "tree_rel t rp T" and "sorted (keys T)"
  shows "\<exists>p. util_rbtree_lookup t k = Some p \<and>
     (if T = Lf then p = NULL
      else \<exists>k' d. (p, k', d) \<in> set (inorder T) \<and>
             (if \<exists>x \<in> set (keys T). k \<le> x then k \<le> k' \<and> (\<forall>x \<in> set (keys T). k \<le> x \<longrightarrow> k' \<le> x)
              else \<forall>x \<in> set (keys T). k' \<le> x))"
proof -
  let ?p = "ring_succ k (inorder T)"
  have run: "util_rbtree_lookup t k = Some ?p" by (rule lookup_runs [OF assms])
  show ?thesis
  proof (cases "T = Lf")
    case True
    with run show ?thesis by (simp add: ring_succ_def)
  next
    case False
    then have "inorder T \<noteq> []" by (cases T) auto
    from ring_succ_least [OF assms(2) this, of k]
    have "\<exists>k' d. (?p, k', d) \<in> set (inorder T) \<and>
      (if \<exists>x \<in> set (keys T). k \<le> x then k \<le> k' \<and> (\<forall>x \<in> set (keys T). k \<le> x \<longrightarrow> k' \<le> x)
       else \<forall>x \<in> set (keys T). k' \<le> x)"
      by (simp only: case_prod_unfold set_map bex_simps ball_simps image_iff simp_thms)
    with run False show ?thesis by simp
  qed
qed

text \<open>
  Search.  The result is a node with the key \<open>k\<close> when the tree has one and \<open>NULL\<close> otherwise.
\<close>

theorem rbtree_search_correct:
  assumes "tree_rel t rp T" and "sorted (keys T)"
  shows "\<exists>p. util_rbtree_search t k = Some p \<and>
     (if k \<in> set (keys T) then \<exists>d. (p, k, d) \<in> set (inorder T) else p = NULL)"
  using search_loop_runs [of t rp "[]" T k] assms by (simp add: util_rbtree_search_def tree_rel_def)

text \<open>The in-order traversal calls the callback on every node once, in key order.\<close>

theorem rbtree_mid_travel_correct:
  assumes "tree_rel t rp T"
  shows "util_rbtree_mid_travel t opera x =
         Some (fold opera (map (\<lambda>e. the (mem t (fst e))) (inorder T)) x)"
  using mid_travel_runs [OF assms] .

text \<open>
  Minimum and maximum are the first and the last node in key order, \<open>NULL\<close> for the empty tree.
\<close>

theorem rbtree_min_max_correct:
  assumes "tree_rel t rp T"
  shows "util_rbsubtree_min t (root t) = Some (if T = Lf then NULL else fst (hd (inorder T))) \<and>
    util_rbsubtree_max t (root t) = Some (if T = Lf then NULL else fst (last (inorder T)))"
  using subtree_min_runs [of t rp "[]" T] subtree_max_runs [of t rp "[]" T] assms
  by (simp add: tree_rel_def)

text \<open>The consistency check accepts every red-black tree whose heights fit the 16-bit
  counters, and returns its black height.\<close>

theorem rbtree_check_complete:
  assumes "tree_rel t rp T" and "rb_inv T" and "T \<noteq> Lf"
    and "bheight T < 32768" and "maxdepth T 1 < 32768"
  shows "util_rbtree_check t = Some (0, Some (int (bheight T), max 0 (maxdepth T 1)))"
  by (rule check_runs [OF assms])

definition node_of :: "int \<Rightarrow> ptr \<Rightarrow> ptr \<Rightarrow> ptr \<Rightarrow> int \<Rightarrow> rbnode" where
  "node_of k p r l c = \<lparr>key = k, parent = p, right = r, left = l, color = c, data = 0\<rparr>"

definition skewed :: rbtree where
  "skewed = \<lparr>root = Ref 1, mem = [Sent \<mapsto> node_of 0 NULL NULL NULL 1,
       Ref 1 \<mapsto> node_of 7 Sent (Ref 2) Sent 1, Ref 2 \<mapsto> node_of 3 (Ref 1) Sent Sent 0], rbsize = 2\<rparr>"

text \<open>
  The converse fails: the check jumps over the right child of a node without a left child, so
  it accepts a tree whose right child has the smaller key.
\<close>

theorem rbtree_check_incomplete:
  "util_rbtree_check skewed = Some (0, Some (1, 1)) \<and>
   tree_rel skewed Sent (Nd Lf (Ref 1) 7 1 0 (Nd Lf (Ref 2) 3 0 0 Lf)) \<and>
   \<not> rb_inv (Nd Lf (Ref 1) 7 1 0 (Nd Lf (Ref 2) 3 0 0 Lf)) \<and> util_rbtree_search skewed 3 = Some NULL"
proof -
  have "util_rbtree_check skewed = Some (0, Some (1, 1))" "util_rbtree_search skewed 3 = Some NULL"
    by code_simp+
  then show ?thesis by (simp add: skewed_def node_of_def tree_rel_def rb_inv_def)
qed

definition rb_free :: "ptr \<Rightarrow> rbtree \<Rightarrow> rbtree" where
  "rb_free p t = t\<lparr>mem := (mem t)(p := None)\<rparr>"

text \<open>The same tree with another parent link in its root.\<close>

definition relink_root :: "ptr \<Rightarrow> rbtree \<Rightarrow> rbtree" where
  "relink_root a t = t\<lparr>mem := set_par (root t) a (mem t)\<rparr>"

lemma tree_rel_relink: "tree_rel t rp T \<Longrightarrow> T \<noteq> Lf \<Longrightarrow> tree_rel (relink_root a t) a T"
  by (cases T) (auto simp: tree_rel_def relink_root_def set_par_def)

lemma relink_root_off: "tree_rel t rp T \<Longrightarrow> T \<noteq> Lf \<Longrightarrow> z \<notin> set (addrs T) \<Longrightarrow> mem (relink_root a t) z = mem t z"
  by (cases T) (auto simp: tree_rel_def relink_root_def)

lemma tree_rel_free: "tree_rel t rp T \<Longrightarrow> z \<notin> set (addrs T) \<Longrightarrow> z \<noteq> Sent \<Longrightarrow> tree_rel (rb_free z t) rp T"
  by (simp add: tree_rel_def rb_free_def)

text \<open>The new root of a tree whose root had one child still points at the deleted node.\<close>

lemma delete_root_dangles:
  assumes rel: "tree_rel t rp (Nd l z k c d r)" and inv: "rb_inv (Nd l z k c d r)"
    and x: "l = Lf \<and> x = r \<or> r = Lf \<and> x = l" and ne: "x \<noteq> Lf"
  shows "\<exists>t'. util_rbtree_delete t z = Some t' \<and> tree_rel t' z (paint 1 x) \<and> dom (mem t') = dom (mem t)"
proof -
  let ?t0 = "t\<lparr>rbsize := rbsize t - 1\<rparr>"
  have rel0: "tree_rel ?t0 rp (plug [] (Nd l z k c d r))" using rel by simp
  have zn: "z \<noteq> NULL" "z \<noteq> Sent" "root ?t0 = z" using rel0 by (auto simp: tree_rel_def)
  have x': "l = Lf \<and> x = r \<or> l \<noteq> Lf \<and> r = Lf \<and> x = l" using x ne by auto
  obtain xl xa xk xc xd xr where X: "x = Nd xl xa xk xc xd xr" using ne by (cases x) auto
  have "xl = Lf" "xr = Lf"
    using inv x X by (cases xl; cases xr; auto simp: rb_inv_def split: if_splits)+
  with X x rel zn delete_unfold [OF zn(1,2) refl delete_target_single [OF rel0 x'] tree_rel_node [OF rel0]]
  show ?thesis by (auto simp: store_defs rbt_clear_node_def fault_simps tree_rel_def)
qed

text \<open>Insertion while the root points at a node that is gone, and after that link is repaired.\<close>

lemma insert_dangling:
  assumes rel: "tree_rel u z T" and inv: "rb_inv T" "T \<noteq> Lf" and gone: "mem u z = None"
    and p: "mem u p = Some n" "p \<noteq> Sent" "p \<notin> set (addrs T)"
  shows "util_rbtree_insert u p = None \<longleftrightarrow> climbs (ins_path (key n) T [])"
    and "util_rbtree_insert u p = Some u' \<Longrightarrow> \<exists>T'. tree_rel u' z T' \<and> rb_inv T' \<and> mem u' z = None \<and>
           inorder T' = ins_list (p, key n, data n) (inorder T)"
    and "\<exists>u' T'. util_rbtree_insert (relink_root Sent u) p = Some u' \<and> tree_rel u' Sent T' \<and> rb_inv T' \<and>
           inorder T' = ins_list (p, key n, data n) (inorder T)"
proof -
  have faults: "climbs (ins_path (key n) T []) \<Longrightarrow> util_rbtree_insert u p = None"
    using insert_faults [OF rel inv p] gone by simp
  have runs: "\<exists>u' T'. util_rbtree_insert u p = Some u' \<and> tree_rel u' z T' \<and> rb_inv T' \<and> mem u' z = None \<and>
           inorder T' = ins_list (p, key n, data n) (inorder T)" if "\<not> climbs (ins_path (key n) T [])"
  proof -
    from that have "climbs (ins_path (key n) T []) \<longrightarrow> z = Sent" by simp
    from insert_runs [OF rel inv(1) p this] gone show ?thesis
      unfolding runs_def by (metis domIff)
  qed
  show "util_rbtree_insert u p = None \<longleftrightarrow> climbs (ins_path (key n) T [])"
    using faults runs by (metis option.distinct(1))
  show "util_rbtree_insert u p = Some u' \<Longrightarrow> \<exists>T'. tree_rel u' z T' \<and> rb_inv T' \<and> mem u' z = None \<and>
           inorder T' = ins_list (p, key n, data n) (inorder T)"
    using faults runs by (metis option.distinct(1) option.inject)
  have "mem (relink_root Sent u) p = Some n" using relink_root_off [OF rel inv(2) p(3)] p(1) by simp
  from insert_runs [OF tree_rel_relink [OF rel inv(2)] inv(1) this p(2,3) impI [OF refl]]
  show "\<exists>u' T'. util_rbtree_insert (relink_root Sent u) p = Some u' \<and> tree_rel u' Sent T' \<and> rb_inv T' \<and>
           inorder T' = ins_list (p, key n, data n) (inorder T)"
    by (auto simp: runs_def)
qed

text \<open>
  C20. Deleting a root that has one child leaves the parent link of the new root at the deleted
  node, which the callers free.  From then on, in any non-empty red-black tree \<open>T\<close> whose root
  still has that link, an insertion faults exactly when its recolouring climbs to the root (the new
  node's parent and uncle are red, then those of its grandparent, up to the root).  Any other insertion returns a
  red-black tree with the new node in it and keeps the link to the freed node.  The link is
  the cause: the same tree with the sentinel as the parent of its root takes every insertion.
\<close>

theorem insert_after_root_delete_faults:
  assumes "tree_rel t rp (Nd l z k c d r)" and "rb_inv (Nd l z k c d r)"
    and "l = Lf \<and> x = r \<or> r = Lf \<and> x = l" and "x \<noteq> Lf"
  shows "(\<exists>t'. util_rbtree_delete t z = Some t' \<and> tree_rel (rb_free z t') z (paint 1 x) \<and>
      mem (rb_free z t') z = None \<and> dom (mem (rb_free z t')) = dom (mem t) - {z}) \<and>
    (\<forall>u T p n. tree_rel u z T \<and> rb_inv T \<and> T \<noteq> Lf \<and> mem u z = None \<and>
        mem u p = Some n \<and> p \<noteq> Sent \<and> p \<notin> set (addrs T) \<longrightarrow>
      (util_rbtree_insert u p = None \<longleftrightarrow> climbs (ins_path (key n) T [])) \<and>
      (\<forall>u'. util_rbtree_insert u p = Some u' \<longrightarrow> (\<exists>T'. tree_rel u' z T' \<and> rb_inv T' \<and> mem u' z = None \<and>
         inorder T' = ins_list (p, key n, data n) (inorder T))) \<and>
      (\<exists>u' T'. util_rbtree_insert (relink_root Sent u) p = Some u' \<and> tree_rel u' Sent T' \<and> rb_inv T' \<and>
         inorder T' = ins_list (p, key n, data n) (inorder T)))"
proof (rule conjI)
  from delete_root_dangles [OF assms] obtain t' where
    t': "util_rbtree_delete t z = Some t'" "tree_rel t' z (paint 1 x)" "dom (mem t') = dom (mem t)" by blast
  have z: "z \<notin> set (addrs (paint 1 x))" "z \<noteq> Sent" using assms(1,3) by (auto simp: tree_rel_def)
  show "\<exists>t'. util_rbtree_delete t z = Some t' \<and> tree_rel (rb_free z t') z (paint 1 x) \<and>
      mem (rb_free z t') z = None \<and> dom (mem (rb_free z t')) = dom (mem t) - {z}"
    using t' tree_rel_free [OF t'(2) z] by (auto simp: rb_free_def)
qed (use insert_dangling in blast)

section \<open>Witnesses\<close>

text \<open>A tree with the keys 5 and 9, and a third live node that is not in it.\<close>

definition two_t :: rbtree where
  "two_t = \<lparr>root = Ref 1, mem = [Sent \<mapsto> node_of 0 NULL NULL NULL 1,
       Ref 1 \<mapsto> node_of 5 Sent (Ref 2) Sent 1, Ref 2 \<mapsto> node_of 9 (Ref 1) Sent Sent 0,
       Ref 3 \<mapsto> node_of 7 NULL NULL NULL 0], rbsize = 2\<rparr>"

abbreviation two_T :: rbt where
  "two_T \<equiv> Nd Lf (Ref 1) 5 1 0 (Nd Lf (Ref 2) 9 0 0 Lf)"

lemma two_rel: "tree_rel two_t Sent two_T" "rb_inv two_T" "sorted (keys two_T)"
  "mem two_t (Ref 3) = Some (node_of 7 NULL NULL NULL 0)"
  by (simp_all add: two_t_def node_of_def tree_rel_def rb_inv_def)

theorem rbtree_insert_witness:
  "\<exists>t' T'. util_rbtree_insert two_t (Ref 3) = Some t' \<and> tree_rel t' Sent T' \<and> rb_inv T' \<and>
     keys T' = [5, 7, 9] \<and> rbsize t' = 3"
proof -
  from rbtree_insert_correct [OF two_rel(1,2,4)] obtain t' T' where
    "util_rbtree_insert two_t (Ref 3) = Some t'" "tree_rel t' Sent T'" "rb_inv T'"
    "inorder T' = ins_list (Ref 3, 7, 0) (inorder two_T)" "rbsize t' = rbsize two_t + 1"
    by (auto simp: node_of_def)
  moreover from this have "keys T' = [5, 7, 9]" "rbsize t' = 3" by (simp_all add: two_t_def)
  ultimately show ?thesis by (intro exI conjI)
qed

theorem rbtree_delete_witness:
  "\<exists>t' T' rp'. util_rbtree_delete two_t (Ref 1) = Some t' \<and> tree_rel t' rp' T' \<and> rb_inv T' \<and>
     keys T' = [9] \<and> rbsize t' = 1"
proof -
  from rbtree_delete_correct [OF two_rel(1,2), of "Ref 1"] obtain t' T' rp' where
    "util_rbtree_delete two_t (Ref 1) = Some t'" "tree_rel t' rp' T'" "rb_inv T'"
    "inorder T' = filter (\<lambda>e. fst e \<noteq> Ref 1) (inorder two_T)" "rbsize t' = rbsize two_t - 1"
    by auto
  moreover from this have "keys T' = [9]" "rbsize t' = 1" by (simp_all add: two_t_def)
  ultimately show ?thesis by (intro exI conjI)
qed

text \<open>The root \<open>Ref 1\<close> goes; its child becomes the root, and the third insertion after that faults.\<close>

definition dangling_t :: rbtree where
  "dangling_t = \<lparr>root = Ref 2, mem = [Sent \<mapsto> node_of 0 NULL NULL NULL 1,
       Ref 2 \<mapsto> node_of 9 (Ref 1) (Ref 4) (Ref 3) 1, Ref 3 \<mapsto> node_of 7 (Ref 2) Sent Sent 0,
       Ref 4 \<mapsto> node_of 12 (Ref 2) Sent Sent 0, Ref 5 \<mapsto> node_of 5 NULL NULL NULL 0], rbsize = 3\<rparr>"

theorem insert_after_root_delete_witness:
  "(\<exists>t'. util_rbtree_delete two_t (Ref 1) = Some t' \<and> tree_rel (rb_free (Ref 1) t') (Ref 1) (Nd Lf (Ref 2) 9 1 0 Lf)) \<and>
   util_rbtree_insert dangling_t (Ref 5) = None \<and>
   (\<exists>u'. util_rbtree_insert (relink_root Sent dangling_t) (Ref 5) = Some u')"
proof -
  let ?T = "Nd (Nd Lf (Ref 3) 7 0 0 Lf) (Ref 2) 9 1 0 (Nd Lf (Ref 4) 12 0 0 Lf)"
  note W = insert_after_root_delete_faults [OF two_rel(1,2), of "Nd Lf (Ref 2) 9 0 0 Lf"]
  have u: "tree_rel dangling_t (Ref 1) ?T" "rb_inv ?T" "mem dangling_t (Ref 1) = None"
    "mem dangling_t (Ref 5) = Some (node_of 5 NULL NULL NULL 0)" "climbs (ins_path 5 ?T [])"
    by (simp_all add: dangling_t_def node_of_def tree_rel_def rb_inv_def)
  from W have "\<exists>t'. util_rbtree_delete two_t (Ref 1) = Some t' \<and>
      tree_rel (rb_free (Ref 1) t') (Ref 1) (Nd Lf (Ref 2) 9 1 0 Lf)" by auto
  moreover have "tree_rel dangling_t (Ref 1) ?T \<and> rb_inv ?T \<and> ?T \<noteq> Lf \<and> mem dangling_t (Ref 1) = None \<and>
      mem dangling_t (Ref 5) = Some (node_of 5 NULL NULL NULL 0) \<and> Ref 5 \<noteq> Sent \<and> Ref 5 \<notin> set (addrs ?T)"
    using u by simp
  note W [THEN conjunct2, THEN spec, THEN spec, THEN spec, THEN spec, THEN mp, OF _ _ this]
  with u(5) have "util_rbtree_insert dangling_t (Ref 5) = None"
    "\<exists>u'. util_rbtree_insert (relink_root Sent dangling_t) (Ref 5) = Some u'"
    by (simp add: node_of_def, blast)
  ultimately show ?thesis by blast
qed

theorem rbtree_lookup_witness:
  "util_rbtree_lookup two_t 6 = Some (Ref 2) \<and> util_rbtree_lookup two_t 12 = Some (Ref 1)"
  using rbtree_lookup_correct [OF two_rel(1,3), of 6] rbtree_lookup_correct [OF two_rel(1,3), of 12]
  by auto

theorem rbtree_search_witness:
  "util_rbtree_search two_t 9 = Some (Ref 2) \<and> util_rbtree_search two_t 6 = Some NULL"
  using rbtree_search_correct [OF two_rel(1,3), of 9] rbtree_search_correct [OF two_rel(1,3), of 6]
  by auto

theorem rbtree_mid_travel_witness:
  "util_rbtree_mid_travel two_t (\<lambda>n ks. ks @ [key n]) [] = Some [5, 9]"
  by (subst rbtree_mid_travel_correct [OF two_rel(1)]) (simp add: two_t_def node_of_def)

theorem rbtree_min_max_witness:
  "util_rbsubtree_min two_t (root two_t) = Some (Ref 1) \<and>
   util_rbsubtree_max two_t (root two_t) = Some (Ref 2)"
  using rbtree_min_max_correct [OF two_rel(1)] by simp

theorem rbtree_check_witness: "util_rbtree_check two_t = Some (0, Some (1, 1))"
  using rbtree_check_complete [OF two_rel(1,2)] by simp

end
