(* ===== verification/Md5.thy ===== *)
theory Md5
  imports Prelude
begin

unbundle bit_operations_syntax

text \<open>
  \<open>conhash/md5.c\<close> and its caller \<open>conhash_md5_digest\<close>, on 32-bit words and bytes.  The macro
  \<open>SET(a, b, c, d, k, s, Ti)\<close> assigns its first argument; it is used with the four registers in four
  orders, which are the four operations \<open>SET_a\<close>, \<open>SET_d\<close>, \<open>SET_c\<close>, \<open>SET_b\<close> on a record of the
  registers.  The byte order of the machine, which the code finds out at run time, is the argument
  \<open>le\<close> (little-endian).
\<close>

section \<open>State\<close>

record md5_state =
  count0 :: u32
  count1 :: u32
  abcd :: "u32 list"
  buf :: "u8 list"

definition T_MASK :: u32 where
  "T_MASK = NOT 0"

text \<open>The constants \<open>T1\<close> to \<open>T64\<close>.\<close>

definition md5_T :: "u32 list" where
  "md5_T = [
     T_MASK XOR 0x28955b87, T_MASK XOR 0x173848a9, 0x242070db, T_MASK XOR 0x3e423111,
     T_MASK XOR 0x0a83f050, 0x4787c62a, T_MASK XOR 0x57cfb9ec, T_MASK XOR 0x02b96afe,
     0x698098d8, T_MASK XOR 0x74bb0850, T_MASK XOR 0x0000a44e, T_MASK XOR 0x76a32841,
     0x6b901122, T_MASK XOR 0x02678e6c, T_MASK XOR 0x5986bc71, 0x49b40821,
     T_MASK XOR 0x09e1da9d, T_MASK XOR 0x3fbf4cbf, 0x265e5a51, T_MASK XOR 0x16493855,
     T_MASK XOR 0x29d0efa2, 0x02441453, T_MASK XOR 0x275e197e, T_MASK XOR 0x182c0437,
     0x21e1cde6, T_MASK XOR 0x3cc8f829, T_MASK XOR 0x0b2af278, 0x455a14ed,
     T_MASK XOR 0x561c16fa, T_MASK XOR 0x03105c07, 0x676f02d9, T_MASK XOR 0x72d5b375,
     T_MASK XOR 0x0005c6bd, T_MASK XOR 0x788e097e, 0x6d9d6122, T_MASK XOR 0x021ac7f3,
     T_MASK XOR 0x5b4115bb, 0x4bdecfa9, T_MASK XOR 0x0944b49f, T_MASK XOR 0x4140438f,
     0x289b7ec6, T_MASK XOR 0x155ed805, T_MASK XOR 0x2b10cf7a, 0x04881d05,
     T_MASK XOR 0x262b2fc6, T_MASK XOR 0x1924661a, 0x1fa27cf8, T_MASK XOR 0x3b53a99a,
     T_MASK XOR 0x0bd6ddbb, 0x432aff97, T_MASK XOR 0x546bdc58, T_MASK XOR 0x036c5fc6,
     0x655b59c3, T_MASK XOR 0x70f3336d, T_MASK XOR 0x00100b82, T_MASK XOR 0x7a7ba22e,
     0x6fa87e4f, T_MASK XOR 0x01d3191f, T_MASK XOR 0x5cfebceb, 0x4e0811a1,
     T_MASK XOR 0x08ac817d, T_MASK XOR 0x42c50dca, 0x2ad7d2bb, T_MASK XOR 0x14792c6e]"

section \<open>The block function\<close>

record regs =
  ra :: u32
  rb :: u32
  rc :: u32
  rd :: u32

definition ROTATE_LEFT :: "u32 \<Rightarrow> nat \<Rightarrow> u32" where
  "ROTATE_LEFT x n = push_bit n x OR drop_bit (32 - n) x"

definition md5_F :: "u32 \<Rightarrow> u32 \<Rightarrow> u32 \<Rightarrow> u32" where
  "md5_F x y z = (x AND y) OR (NOT x AND z)"

definition md5_G :: "u32 \<Rightarrow> u32 \<Rightarrow> u32 \<Rightarrow> u32" where
  "md5_G x y z = (x AND z) OR (y AND NOT z)"

definition md5_H :: "u32 \<Rightarrow> u32 \<Rightarrow> u32 \<Rightarrow> u32" where
  "md5_H x y z = x XOR y XOR z"

definition md5_I :: "u32 \<Rightarrow> u32 \<Rightarrow> u32 \<Rightarrow> u32" where
  "md5_I x y z = y XOR (x OR NOT z)"

text \<open>The new value of the register that \<open>SET\<close> assigns.\<close>

definition SET :: "(u32 \<Rightarrow> u32 \<Rightarrow> u32 \<Rightarrow> u32) \<Rightarrow> nat \<Rightarrow> nat \<Rightarrow> nat \<Rightarrow> u32 list \<Rightarrow>
    u32 \<Rightarrow> u32 \<Rightarrow> u32 \<Rightarrow> u32 \<Rightarrow> u32" where
  "SET f k s i X a b c d = (let t = a + f b c d + X ! k + md5_T ! (i - 1) in ROTATE_LEFT t s + b)"

definition SET_a :: "(u32 \<Rightarrow> u32 \<Rightarrow> u32 \<Rightarrow> u32) \<Rightarrow> nat \<Rightarrow> nat \<Rightarrow> nat \<Rightarrow> u32 list \<Rightarrow> regs \<Rightarrow> regs" where
  "SET_a f k s i X r = r\<lparr>ra := SET f k s i X (ra r) (rb r) (rc r) (rd r)\<rparr>"

definition SET_d :: "(u32 \<Rightarrow> u32 \<Rightarrow> u32 \<Rightarrow> u32) \<Rightarrow> nat \<Rightarrow> nat \<Rightarrow> nat \<Rightarrow> u32 list \<Rightarrow> regs \<Rightarrow> regs" where
  "SET_d f k s i X r = r\<lparr>rd := SET f k s i X (rd r) (ra r) (rb r) (rc r)\<rparr>"

definition SET_c :: "(u32 \<Rightarrow> u32 \<Rightarrow> u32 \<Rightarrow> u32) \<Rightarrow> nat \<Rightarrow> nat \<Rightarrow> nat \<Rightarrow> u32 list \<Rightarrow> regs \<Rightarrow> regs" where
  "SET_c f k s i X r = r\<lparr>rc := SET f k s i X (rc r) (rd r) (ra r) (rb r)\<rparr>"

definition SET_b :: "(u32 \<Rightarrow> u32 \<Rightarrow> u32 \<Rightarrow> u32) \<Rightarrow> nat \<Rightarrow> nat \<Rightarrow> nat \<Rightarrow> u32 list \<Rightarrow> regs \<Rightarrow> regs" where
  "SET_b f k s i X r = r\<lparr>rb := SET f k s i X (rb r) (rc r) (rd r) (ra r)\<rparr>"

definition md5_round1 :: "(u32 list \<Rightarrow> regs \<Rightarrow> regs) list" where
  "md5_round1 = [
     SET_a md5_F 0 7 1, SET_d md5_F 1 12 2, SET_c md5_F 2 17 3, SET_b md5_F 3 22 4,
     SET_a md5_F 4 7 5, SET_d md5_F 5 12 6, SET_c md5_F 6 17 7, SET_b md5_F 7 22 8,
     SET_a md5_F 8 7 9, SET_d md5_F 9 12 10, SET_c md5_F 10 17 11, SET_b md5_F 11 22 12,
     SET_a md5_F 12 7 13, SET_d md5_F 13 12 14, SET_c md5_F 14 17 15, SET_b md5_F 15 22 16]"

definition md5_round2 :: "(u32 list \<Rightarrow> regs \<Rightarrow> regs) list" where
  "md5_round2 = [
     SET_a md5_G 1 5 17, SET_d md5_G 6 9 18, SET_c md5_G 11 14 19, SET_b md5_G 0 20 20,
     SET_a md5_G 5 5 21, SET_d md5_G 10 9 22, SET_c md5_G 15 14 23, SET_b md5_G 4 20 24,
     SET_a md5_G 9 5 25, SET_d md5_G 14 9 26, SET_c md5_G 3 14 27, SET_b md5_G 8 20 28,
     SET_a md5_G 13 5 29, SET_d md5_G 2 9 30, SET_c md5_G 7 14 31, SET_b md5_G 12 20 32]"

definition md5_round3 :: "(u32 list \<Rightarrow> regs \<Rightarrow> regs) list" where
  "md5_round3 = [
     SET_a md5_H 5 4 33, SET_d md5_H 8 11 34, SET_c md5_H 11 16 35, SET_b md5_H 14 23 36,
     SET_a md5_H 1 4 37, SET_d md5_H 4 11 38, SET_c md5_H 7 16 39, SET_b md5_H 10 23 40,
     SET_a md5_H 13 4 41, SET_d md5_H 0 11 42, SET_c md5_H 3 16 43, SET_b md5_H 6 23 44,
     SET_a md5_H 9 4 45, SET_d md5_H 12 11 46, SET_c md5_H 15 16 47, SET_b md5_H 2 23 48]"

definition md5_round4 :: "(u32 list \<Rightarrow> regs \<Rightarrow> regs) list" where
  "md5_round4 = [
     SET_a md5_I 0 6 49, SET_d md5_I 7 10 50, SET_c md5_I 14 15 51, SET_b md5_I 5 21 52,
     SET_a md5_I 12 6 53, SET_d md5_I 3 10 54, SET_c md5_I 10 15 55, SET_b md5_I 1 21 56,
     SET_a md5_I 8 6 57, SET_d md5_I 15 10 58, SET_c md5_I 6 15 59, SET_b md5_I 13 21 60,
     SET_a md5_I 4 6 61, SET_d md5_I 11 10 62, SET_c md5_I 2 15 63, SET_b md5_I 9 21 64]"

text \<open>
  The sixteen words of a block: on a little-endian machine the bytes are read in place (or after a
  copy that aligns them), on a big-endian one the words are put together byte by byte.  There
  \<open>xp[3] << 24\<close> is a shift of an \<open>int\<close>; here it wraps like the addition of the result to a word.
\<close>

definition word_le :: "u8 list \<Rightarrow> u32" where
  "word_le bs = word_rcat (rev bs)"

definition load_little :: "u8 list \<Rightarrow> u32 list" where
  "load_little data = map (\<lambda>i. word_le (take 4 (drop (4 * i) data))) [0..<16]"

definition load_big :: "u8 list \<Rightarrow> u32 list" where
  "load_big data = map (\<lambda>i. let xp = drop (4 * i) data in
     ucast (xp ! 0) + push_bit 8 (ucast (xp ! 1)) + push_bit 16 (ucast (xp ! 2))
       + push_bit 24 (ucast (xp ! 3))) [0..<16]"

definition md5_process :: "bool \<Rightarrow> u8 list \<Rightarrow> md5_state \<Rightarrow> md5_state" where
  "md5_process le data pms =
     (let X = (if le then load_little data else load_big data);
          r = \<lparr>ra = abcd pms ! 0, rb = abcd pms ! 1, rc = abcd pms ! 2, rd = abcd pms ! 3\<rparr>;
          r = fold (\<lambda>f. f X) (md5_round1 @ md5_round2 @ md5_round3 @ md5_round4) r
      in pms\<lparr>abcd := [abcd pms ! 0 + ra r, abcd pms ! 1 + rb r, abcd pms ! 2 + rc r, abcd pms ! 3 + rd r]\<rparr>)"

section \<open>The streaming interface\<close>

definition md5_init :: "md5_state \<Rightarrow> md5_state" where
  "md5_init pms = pms\<lparr>count0 := 0, count1 := 0,
     abcd := [0x67452301, T_MASK XOR 0x10325476, T_MASK XOR 0x67452301, 0x10325476]\<rparr>"

text \<open>\<open>memcpy(buf + off, p, n)\<close>.\<close>

definition memcpy_at :: "'a list \<Rightarrow> nat \<Rightarrow> 'a list \<Rightarrow> nat \<Rightarrow> 'a list" where
  "memcpy_at b off p n = take off b @ take n p @ drop (off + n) b"

text \<open>The loop over the full blocks of the remaining \<open>left\<close> bytes at \<open>p\<close>.\<close>

function md5_blocks :: "bool \<Rightarrow> u8 list \<Rightarrow> int \<Rightarrow> md5_state \<Rightarrow> md5_state \<times> u8 list \<times> int" where
  "md5_blocks le p left pms =
     (if left \<ge> 64 then md5_blocks le (drop 64 p) (left - 64) (md5_process le (take 64 p) pms)
      else (pms, p, left))"
  by pat_completeness auto
termination by (relation "measure (\<lambda>(le, p, left, pms). nat left)") auto

declare md5_blocks.simps [simp del]

definition md5_append :: "bool \<Rightarrow> md5_state \<Rightarrow> u8 list \<Rightarrow> int \<Rightarrow> md5_state" where
  "md5_append le pms data nbytes =
     (let offset = int (unat ((drop_bit 3 (count0 pms)) AND 63));
          nbits = (word_of_int (nbytes * 8) :: u32)
      in if nbytes \<le> 0 then pms
      else
        let pms = pms\<lparr>count1 := count1 pms + word_of_int (nbytes div 2 ^ 29)\<rparr>;
            pms = pms\<lparr>count0 := count0 pms + nbits\<rparr>;
            pms = (if count0 pms < nbits then pms\<lparr>count1 := count1 pms + 1\<rparr> else pms);
            copy = (if offset + nbytes > 64 then 64 - offset else nbytes);
            pms1 = pms\<lparr>buf := memcpy_at (buf pms) (nat offset) data (nat copy)\<rparr>
        in if offset \<noteq> 0 \<and> offset + copy < 64 then pms1
        else
          let (pms, p, left) =
                (if offset \<noteq> 0
                 then (md5_process le (buf pms1) pms1, drop (nat copy) data, nbytes - copy)
                 else (pms, data, nbytes));
              (pms, p, left) = md5_blocks le p left pms
          in if left \<noteq> 0 then pms\<lparr>buf := memcpy_at (buf pms) 0 p (nat left)\<rparr> else pms)"

definition md5_pad :: "u8 list" where
  "md5_pad = 0x80 # replicate 63 0"

text \<open>\<open>(md5_byte_t)(w[i >> 2] >> ((i & 3) << 3))\<close> for \<open>i\<close> below \<open>n\<close>.\<close>

definition byte_of :: "u32 list \<Rightarrow> nat \<Rightarrow> u8" where
  "byte_of ws i = ucast (drop_bit (8 * (i mod 4)) (ws ! (i div 4)))"

definition md5_finish :: "bool \<Rightarrow> md5_state \<Rightarrow> md5_state \<times> u8 list" where
  "md5_finish le pms =
     (let data = map (byte_of [count0 pms, count1 pms]) [0..<8];
          pms = md5_append le pms md5_pad (uint (((55 - drop_bit 3 (count0 pms)) AND 63) + 1));
          pms = md5_append le pms data 8
      in (pms, map (byte_of (abcd pms)) [0..<16]))"

text \<open>
  \<open>conhash_md5_digest\<close>: \<open>instr\<close> is the string up to its terminating zero, \<open>pms0\<close> the state
  variable before it is initialised.  The length is converted to \<open>int\<close>.
\<close>

definition to_int32 :: "int \<Rightarrow> int" where
  "to_int32 x = (x + 2 ^ 31) mod 2 ^ 32 - 2 ^ 31"

definition conhash_md5_digest :: "bool \<Rightarrow> md5_state \<Rightarrow> u8 list \<Rightarrow> u8 list" where
  "conhash_md5_digest le pms0 instr =
     snd (md5_finish le (md5_append le (md5_init pms0) instr (to_int32 (int (length instr)))))"

end
