(* ===== verification/Md5Spec.thy ===== *)
theory Md5Spec
  imports Md5
begin

text \<open>
  MD5 as RFC 1321 states it, in definitions of its own, and the proof that the code computes it: the sixty-four steps of a block
  as one indexed operation, the padded message cut into blocks, and the invariant of the
  streaming state, which says that it stands for the message appended so far.
\<close>

section \<open>The reference\<close>

definition rfc_T :: "u32 list" where
  "rfc_T = [
     0xd76aa478, 0xe8c7b756, 0x242070db, 0xc1bdceee,
     0xf57c0faf, 0x4787c62a, 0xa8304613, 0xfd469501,
     0x698098d8, 0x8b44f7af, 0xffff5bb1, 0x895cd7be,
     0x6b901122, 0xfd987193, 0xa679438e, 0x49b40821,
     0xf61e2562, 0xc040b340, 0x265e5a51, 0xe9b6c7aa,
     0xd62f105d, 0x02441453, 0xd8a1e681, 0xe7d3fbc8,
     0x21e1cde6, 0xc33707d6, 0xf4d50d87, 0x455a14ed,
     0xa9e3e905, 0xfcefa3f8, 0x676f02d9, 0x8d2a4c8a,
     0xfffa3942, 0x8771f681, 0x6d9d6122, 0xfde5380c,
     0xa4beea44, 0x4bdecfa9, 0xf6bb4b60, 0xbebfbc70,
     0x289b7ec6, 0xeaa127fa, 0xd4ef3085, 0x04881d05,
     0xd9d4d039, 0xe6db99e5, 0x1fa27cf8, 0xc4ac5665,
     0xf4292244, 0x432aff97, 0xab9423a7, 0xfc93a039,
     0x655b59c3, 0x8f0ccc92, 0xffeff47d, 0x85845dd1,
     0x6fa87e4f, 0xfe2ce6e0, 0xa3014314, 0x4e0811a1,
     0xf7537e82, 0xbd3af235, 0x2ad7d2bb, 0xeb86d391]"

text \<open>
  The four functions of section 3.4: \<open>F\<close> is a conditional, if \<open>X\<close> then \<open>Y\<close> else \<open>Z\<close>, bit by bit, \<open>G\<close> is
  the one with the test on \<open>Z\<close>, \<open>H\<close> the parity.
\<close>

definition rfc_F :: "u32 \<Rightarrow> u32 \<Rightarrow> u32 \<Rightarrow> u32" where
  "rfc_F X Y Z = (X AND Y) OR (NOT X AND Z)"

definition rfc_G :: "u32 \<Rightarrow> u32 \<Rightarrow> u32 \<Rightarrow> u32" where
  "rfc_G X Y Z = (X AND Z) OR (Y AND NOT Z)"

definition rfc_H :: "u32 \<Rightarrow> u32 \<Rightarrow> u32 \<Rightarrow> u32" where
  "rfc_H X Y Z = X XOR Y XOR Z"

definition rfc_I :: "u32 \<Rightarrow> u32 \<Rightarrow> u32 \<Rightarrow> u32" where
  "rfc_I X Y Z = Y XOR (X OR NOT Z)"

fun rfc_fun :: "nat \<Rightarrow> u32 \<Rightarrow> u32 \<Rightarrow> u32 \<Rightarrow> u32" where
  "rfc_fun i = (if i < 16 then rfc_F else if i < 32 then rfc_G else if i < 48 then rfc_H else rfc_I)"

text \<open>The words of a block, from bytes with the low-order byte first (section 2).\<close>

definition rfc_words :: "u8 list \<Rightarrow> u32 list" where
  "rfc_words data = map (\<lambda>i. word_of_nat (\<Sum>j \<leftarrow> [0..<4]. unat (data ! (4 * i + j)) * 256 ^ j)) [0..<16]"

text \<open>The word of the block and the rotation of step \<open>i\<close>.\<close>

fun rfc_word :: "nat \<Rightarrow> nat" where
  "rfc_word i = (if i < 16 then i else if i < 32 then (5 * i + 1) mod 16
                 else if i < 48 then (3 * i + 5) mod 16 else 7 * i mod 16)"

fun rfc_rot :: "nat \<Rightarrow> nat" where
  "rfc_rot i = (if i < 16 then [7, 12, 17, 22] else if i < 32 then [5, 9, 14, 20]
                else if i < 48 then [4, 11, 16, 23] else [6, 10, 15, 21]) ! (i mod 4)"

text \<open>One step; the registers rotate, so that the same operation serves all sixty-four.\<close>

fun rfc_step :: "u32 list \<Rightarrow> nat \<Rightarrow> u32 \<times> u32 \<times> u32 \<times> u32 \<Rightarrow> u32 \<times> u32 \<times> u32 \<times> u32" where
  "rfc_step X i (a, b, c, d) =
     (d, word_rotl (rfc_rot i) (a + rfc_fun i b c d + X ! rfc_word i + rfc_T ! i) + b, b, c)"

fun rfc_block :: "u8 list \<Rightarrow> u32 \<times> u32 \<times> u32 \<times> u32 \<Rightarrow> u32 \<times> u32 \<times> u32 \<times> u32" where
  "rfc_block data (a, b, c, d) =
     (case fold (rfc_step (rfc_words data)) [0..<64] (a, b, c, d) of
        (a', b', c', d') \<Rightarrow> (a + a', b + b', c + c', d + d'))"

text \<open>The blocks of a message, the bytes of a number, the padding, the digest.\<close>

fun rfc_hash :: "u8 list \<Rightarrow> u32 \<times> u32 \<times> u32 \<times> u32 \<Rightarrow> u32 \<times> u32 \<times> u32 \<times> u32" where
  "rfc_hash m h = (if length m < 64 then h else rfc_hash (drop 64 m) (rfc_block (take 64 m) h))"

declare rfc_hash.simps [simp del]

definition bytes_le :: "nat \<Rightarrow> nat \<Rightarrow> u8 list" where
  "bytes_le n x = map (\<lambda>i. word_of_nat (x div 256 ^ i)) [0..<n]"

definition rfc_pad :: "u8 list \<Rightarrow> u8 list" where
  "rfc_pad m = m @ 0x80 # replicate ((119 - length m mod 64) mod 64) 0 @ bytes_le 8 (8 * length m)"

definition rfc_init :: "u32 \<times> u32 \<times> u32 \<times> u32" where
  "rfc_init = (0x67452301, 0xefcdab89, 0x98badcfe, 0x10325476)"

definition rfc_md5 :: "u8 list \<Rightarrow> u8 list" where
  "rfc_md5 m = (case rfc_hash (rfc_pad m) rfc_init of (a, b, c, d) \<Rightarrow>
     bytes_le 4 (unat a) @ bytes_le 4 (unat b) @ bytes_le 4 (unat c) @ bytes_le 4 (unat d))"

section \<open>The block function\<close>

lemma md5_T_rfc: "md5_T = rfc_T"
  by (simp add: md5_T_def rfc_T_def T_MASK_def)

lemma rotate_left_rotl:
  assumes "n < 32"
  shows "ROTATE_LEFT x n = word_rotl n x"
proof (rule bit_word_eqI)
  fix k assume "k < LENGTH(32)"
  then have k: "k < 32" by simp
  have "(k + (32 - n)) mod 32 = (if k < n then k + 32 - n else k - n)"
    using k assms by (simp add: mod_if)
  moreover have "32 + k - n = k + 32 - n" by simp
  ultimately show "bit (ROTATE_LEFT x n) k = bit (word_rotl n x) k"
    using k assms by (auto simp: ROTATE_LEFT_def bit_simps bit_word_rotl_iff dest: bit_imp_le_length)
qed

lemma code_functions: "md5_F = rfc_F" "md5_G = rfc_G" "md5_H = rfc_H" "md5_I = rfc_I"
  by (simp_all add: fun_eq_iff md5_F_def md5_G_def md5_H_def md5_I_def rfc_F_def rfc_G_def rfc_H_def rfc_I_def)

text \<open>The registers of the code as the rotating tuple of the reference, after \<open>j\<close> steps.\<close>

definition view0 :: "regs \<Rightarrow> u32 \<times> u32 \<times> u32 \<times> u32" where
  "view0 r = (ra r, rb r, rc r, rd r)"
definition view1 :: "regs \<Rightarrow> u32 \<times> u32 \<times> u32 \<times> u32" where
  "view1 r = (rd r, ra r, rb r, rc r)"
definition view2 :: "regs \<Rightarrow> u32 \<times> u32 \<times> u32 \<times> u32" where
  "view2 r = (rc r, rd r, ra r, rb r)"
definition view3 :: "regs \<Rightarrow> u32 \<times> u32 \<times> u32 \<times> u32" where
  "view3 r = (rb r, rc r, rd r, ra r)"

lemma step_views:
  assumes "s = rfc_rot i" "s < 32" "f = rfc_fun i" "k = rfc_word i" "j = i + 1"
  shows "rfc_step X i (view0 r) = view1 (SET_a f k s j X r)"
    and "rfc_step X i (view1 r) = view2 (SET_d f k s j X r)"
    and "rfc_step X i (view2 r) = view3 (SET_c f k s j X r)"
    and "rfc_step X i (view3 r) = view0 (SET_b f k s j X r)"
  using assms
  by (simp_all add: view0_def view1_def view2_def view3_def SET_a_def SET_b_def SET_c_def SET_d_def
        SET_def rotate_left_rotl md5_T_rfc del: rfc_fun.simps rfc_word.simps rfc_rot.simps)

lemma upt_64: "[0..<64] = [
     0, 1, 2, 3, 4, 5, 6, 7, 8, 9, 10, 11, 12, 13, 14, 15, 16, 17, 18, 19, 20, 21, 22, 23, 24,
     25, 26, 27, 28, 29, 30, 31, 32, 33, 34, 35, 36, 37, 38, 39, 40, 41, 42, 43, 44, 45, 46,
     47, 48, 49, 50, 51, 52, 53, 54, 55, 56, 57, 58, 59, 60, 61, 62, 63]"
  by code_simp

lemma rounds_rfc:
  "fold (rfc_step X) [0..<64] (view0 r) =
   view0 (fold (\<lambda>f. f X) (md5_round1 @ md5_round2 @ md5_round3 @ md5_round4) r)"
  by (simp add: upt_64 numeral_2_eq_2 [symmetric] md5_round1_def md5_round2_def md5_round3_def md5_round4_def code_functions step_views
        del: rfc_step.simps)

lemma word_le_4:
  "(ucast a :: u32) + push_bit 8 (ucast b) + push_bit 16 (ucast c) + push_bit 24 (ucast d) = word_le [a, b, c, d]"
  for a b c d :: u8
proof -
  have "word_le [a, b, c, d] =
    word_of_int (uint a + 2 ^ 8 * (uint b + 2 ^ 8 * (uint c + 2 ^ 8 * uint d)))"
    by (simp add: word_le_def word_rcat_def)
  then show ?thesis by (simp add: push_bit_eq_mult distrib_left)
qed

lemma load_big_little:
  assumes "length data = 64"
  shows "load_big data = load_little data"
proof -
  have "take 4 xs = [xs ! 0, xs ! 1, xs ! 2, xs ! 3]" if "4 \<le> length xs" for xs :: "u8 list"
    using that by (auto simp: eval_nat_numeral Suc_le_length_iff)
  then have "take 4 (drop (4 * i) data) =
      [drop (4 * i) data ! 0, drop (4 * i) data ! 1, drop (4 * i) data ! 2, drop (4 * i) data ! 3]"
    if "i < 16" for i
    using that assms by simp
  then show ?thesis
    unfolding load_big_def load_little_def by (intro map_cong refl) (simp add: word_le_4 Let_def)
qed

lemma word_le_bytes: "word_le [a, b, c, d] = word_of_nat (unat a + unat b * 256 + unat c * 256 ^ 2 + unat d * 256 ^ 3)"
  for a b c d :: u8
proof -
  have "word_of_nat (unat w * 2 ^ n) = push_bit n (ucast w :: u32)" for w :: u8 and n
    by (simp add: push_bit_eq_mult)
  from this [of b 8] this [of c 16] this [of d 24] show ?thesis
    by (simp add: push_bit_eq_mult flip: word_le_4)
qed

lemma load_little_words:
  assumes "length data = 64"
  shows "load_little data = rfc_words data"
proof -
  have "take 4 (drop n data) = [data ! n, data ! (n + 1), data ! (n + 2), data ! (n + 3)]" if "n + 4 \<le> 64" for n
    using that assms by (intro nth_equalityI) (auto simp: less_Suc_eq numeral_eq_Suc)
  then have "take 4 (drop (4 * i) data) = [data ! (4 * i), data ! (4 * i + 1), data ! (4 * i + 2), data ! (4 * i + 3)]"
    if "i < 16" for i using that by simp
  moreover have "(\<Sum>j \<leftarrow> [0..<4]. f j) = f 0 + f 1 + f 2 + f 3" for f :: "nat \<Rightarrow> nat"
    by (simp add: upt_rec numeral_2_eq_2 numeral_3_eq_3)
  ultimately show ?thesis
    unfolding load_little_def rfc_words_def by (intro map_cong refl) (simp add: word_le_bytes)
qed

fun regs4 :: "u32 \<times> u32 \<times> u32 \<times> u32 \<Rightarrow> u32 list" where
  "regs4 (a, b, c, d) = [a, b, c, d]"

lemma md5_process_rfc:
  assumes "length data = 64" and "abcd pms = regs4 h"
  shows "md5_process le data pms = pms\<lparr>abcd := regs4 (rfc_block data h)\<rparr>"
proof -
  obtain a b c d where h: "h = (a, b, c, d)" by (cases h)
  let ?r = "\<lparr>ra = a, rb = b, rc = c, rd = d\<rparr>"
  have "(if le then load_little data else load_big data) = rfc_words data"
    using load_big_little [OF assms(1)] load_little_words [OF assms(1)] by simp
  then show ?thesis
    using rounds_rfc [of "rfc_words data" ?r] assms(2)
    by (simp add: h md5_process_def Let_def view0_def split: prod.split del: rfc_step.simps)
qed

section \<open>Blocks\<close>

lemma rfc_hash_step:
  "64 \<le> length m \<Longrightarrow> rfc_hash m h = rfc_hash (drop 64 m) (rfc_block (take 64 m) h)"
  by (subst rfc_hash.simps) simp

lemma rfc_hash_append:
  "length x mod 64 = 0 \<Longrightarrow> rfc_hash (x @ y) h = rfc_hash y (rfc_hash x h)"
proof (induction x h rule: rfc_hash.induct)
  case (1 x h)
  show ?case
  proof (cases "x = []")
    case False
    with "1.prems" have x: "64 \<le> length x" "length (drop 64 x) mod 64 = 0"
      by (cases "length x < 64"; simp add: le_mod_geq)+
    then have "rfc_hash (drop 64 x @ y) (rfc_block (take 64 x) h) =
        rfc_hash y (rfc_hash (drop 64 x) (rfc_block (take 64 x) h))"
      using "1.IH" by (simp del: drop_append)
    with x(1) rfc_hash_step [of "x @ y" h] rfc_hash_step [of x h] show ?thesis by simp
  qed (simp add: rfc_hash.simps)
qed

lemma rfc_hash_small: "length x < 64 \<Longrightarrow> rfc_hash x h = h"
  by (simp add: rfc_hash.simps)

lemma rfc_hash_one: "length b = 64 \<Longrightarrow> rfc_hash b h = rfc_block b h"
  by (simp add: rfc_hash_step rfc_hash_small)

lemma rfc_hash_tail:
  "length x mod 64 = 0 \<Longrightarrow> length y < 64 \<Longrightarrow> rfc_hash (x @ y) h = rfc_hash x h"
  by (simp add: rfc_hash_append rfc_hash_small)

lemma md5_blocks_rfc:
  assumes "abcd pms = regs4 h" and "n \<le> length p"
  shows "md5_blocks le p (int n) pms =
         (pms\<lparr>abcd := regs4 (rfc_hash (take n p) h)\<rparr>, drop (64 * (n div 64)) p, int (n mod 64))"
  using assms
proof (induction n arbitrary: p pms h rule: less_induct)
  case (less n)
  show ?case
  proof (cases "n < 64")
    case True
    with less.prems show ?thesis
      by (subst md5_blocks.simps) (simp add: rfc_hash_small)
  next
    case False
    let ?pms = "pms\<lparr>abcd := regs4 (rfc_block (take 64 p) h)\<rparr>"
    have "md5_blocks le (drop 64 p) (int (n - 64)) ?pms =
      (?pms\<lparr>abcd := regs4 (rfc_hash (take (n - 64) (drop 64 p)) (rfc_block (take 64 p) h))\<rparr>,
       drop (64 * ((n - 64) div 64)) (drop 64 p), int ((n - 64) mod 64))"
      using False less.prems by (intro less.IH) auto
    moreover have "rfc_hash (take n p) h =
        rfc_hash (take (n - 64) (drop 64 p)) (rfc_block (take 64 p) h)"
      using False less.prems(2)
      by (subst rfc_hash.simps) (simp add: drop_take min_def)
    moreover have "64 * (n div 64) = 64 * ((n - 64) div 64) + 64"
      using False by (simp add: le_div_geq)
    ultimately show ?thesis
      using False md5_process_rfc [of "take 64 p" pms h le] less.prems
      by (subst md5_blocks.simps) (simp add: of_nat_diff le_mod_geq add.commute)
  qed
qed

section \<open>The streaming state stands for a message\<close>

definition md5_rel :: "md5_state \<Rightarrow> u8 list \<Rightarrow> bool" where
  "md5_rel pms m \<longleftrightarrow> length (buf pms) = 64 \<and> abcd pms = regs4 (rfc_hash m rfc_init) \<and>
     take (length m mod 64) (buf pms) = drop (64 * (length m div 64)) m \<and>
     uint (count0 pms) + 2 ^ 32 * uint (count1 pms) = 8 * int (length m) mod 2 ^ 64"

lemma md5_init_rel: "length (buf pms) = 64 \<Longrightarrow> md5_rel (md5_init pms) []"
  by (simp add: md5_rel_def md5_init_def rfc_hash.simps rfc_init_def T_MASK_def)

text \<open>The end of \<open>md5_append\<close>: whole blocks, then the rest into the buffer.\<close>

definition md5_rest :: "bool \<Rightarrow> md5_state \<Rightarrow> u8 list \<Rightarrow> int \<Rightarrow> md5_state" where
  "md5_rest le pms p left =
     (case md5_blocks le p left pms of
        (pms, p, left) \<Rightarrow> if left \<noteq> 0 then pms\<lparr>buf := memcpy_at (buf pms) 0 p (nat left)\<rparr> else pms)"

lemma md5_rest_rel:
  assumes "length (buf pms) = 64" and "length m mod 64 = 0" and "abcd pms = regs4 (rfc_hash m rfc_init)"
    and "n \<le> length p"
    and "uint (count0 pms) + 2 ^ 32 * uint (count1 pms) = 8 * int (length m + n) mod 2 ^ 64"
  shows "md5_rel (md5_rest le pms p (int n)) (m @ take n p)"
proof -
  obtain q where q: "length m = 64 * q" using assms(2) by auto
  have len: "(length m + n) mod 64 = n mod 64" "(length m + n) div 64 = length m div 64 + n div 64"
    "64 * (length m div 64) = length m" "length (m @ take n p) = length m + n"
    using assms(4) by (simp_all add: q)
  have "drop (64 * ((length m + n) div 64)) (m @ take n p) = drop (64 * (n div 64)) (take n p)"
    by (simp add: len distrib_left)
  also have "\<dots> = take (n mod 64) (drop (64 * (n div 64)) p)"
    by (simp add: drop_take minus_mult_div_eq_mod)
  finally have rest: "drop (64 * ((length m + n) div 64)) (m @ take n p) =
    take (n mod 64) (drop (64 * (n div 64)) p)" .
  have "n mod 64 \<le> length p - 64 * (n div 64)"
    using assms(4) by (metis diff_le_mono minus_mult_div_eq_mod)
  then have fit: "min (n mod 64) (length p - 64 * (n div 64)) = n mod 64" by simp
  let ?pms = "pms\<lparr>abcd := regs4 (rfc_hash (m @ take n p) rfc_init)\<rparr>"
  have run: "md5_rest le pms p (int n) = (if n mod 64 \<noteq> 0
      then ?pms\<lparr>buf := memcpy_at (buf pms) 0 (drop (64 * (n div 64)) p) (n mod 64)\<rparr> else ?pms)"
    using md5_blocks_rfc [OF assms(3,4), of le] rfc_hash_append [OF assms(2)]
    by (simp add: md5_rest_def del: of_nat_mod)
  show ?thesis
  proof (cases "n mod 64 = 0")
    case True
    with rest assms(1,5) show ?thesis
      unfolding run md5_rel_def len(1,4) by simp
  next
    case False
    have "take (n mod 64) (memcpy_at (buf pms) 0 (drop (64 * (n div 64)) p) (n mod 64)) =
        take (n mod 64) (drop (64 * (n div 64)) p)"
      using fit by (simp add: memcpy_at_def)
    moreover have "length (memcpy_at (buf pms) 0 (drop (64 * (n div 64)) p) (n mod 64)) = 64"
      using fit assms(1) by (simp add: memcpy_at_def)
    ultimately show ?thesis
      using False rest assms(5) unfolding run md5_rel_def len(1,4) by simp
  qed
qed


text \<open>The bit count of the state, and what it says of the position in the buffer.\<close>

lemma count_offset:
  assumes "md5_rel pms m"
  shows "int (unat (drop_bit 3 (count0 pms) AND 63)) = int (length m mod 64)"
proof -
  have "uint (count0 pms) = (uint (count0 pms) + 2 ^ 32 * uint (count1 pms)) mod 2 ^ 32"
    using uint_lt2p [of "count0 pms"] by simp
  also have "\<dots> = 8 * int (length m) mod 2 ^ 32"
    using assms by (simp add: md5_rel_def mod_mod_cancel)
  finally have c: "uint (count0 pms) = 8 * int (length m) mod 2 ^ 32" .
  have "drop_bit 3 (count0 pms) AND 63 = take_bit 6 (drop_bit 3 (count0 pms))"
    by (simp add: take_bit_eq_mask mask_eq_exp_minus_1)
  then have "uint (drop_bit 3 (count0 pms) AND 63) = uint (count0 pms) div 8 mod 64"
    by (simp add: unsigned_take_bit_eq unsigned_drop_bit_eq take_bit_eq_mod drop_bit_eq_div
        uint_div uint_mod)
  also have "\<dots> = int (length m) mod 2 ^ 29 mod 64"
    unfolding c using mod_mult_mult1 [of "8 :: int" "int (length m)" "2 ^ 29"] by simp
  also have "\<dots> = int (length m mod 64)"
    by (simp add: mod_mod_cancel zmod_int)
  finally show ?thesis by simp
qed

lemma count_add:
  fixes c0 c1 w :: u32
  assumes "uint c0 + 2 ^ 32 * uint c1 = x mod 2 ^ 64" and "0 \<le> n" "n < 2 ^ 28" and w: "uint w = 8 * n"
  shows "uint (c0 + w) + 2 ^ 32 * uint (if c0 + w < w then c1 + 1 else c1) = (x + 8 * n) mod 2 ^ 64"
proof -
  let ?a = "uint c0" and ?b = "uint c1"
  have ab: "0 \<le> ?a" "?a < 2 ^ 32" "0 \<le> ?b" "?b < 2 ^ 32"
    using uint_lt2p [of c0] uint_lt2p [of c1] by simp_all
  have c0': "uint (c0 + w) = (if ?a + 8 * n < 2 ^ 32 then ?a + 8 * n else ?a + 8 * n - 2 ^ 32)"
    by (simp add: uint_plus_if' w)
  have c1p: "uint (c1 + 1) = (if ?b + 1 < 2 ^ 32 then ?b + 1 else 0)"
    using ab by (simp add: uint_plus_if')
  have X: "(x + 8 * n) mod 2 ^ 64 = (?a + 2 ^ 32 * ?b + 8 * n) mod 2 ^ 64"
    unfolding assms(1) by (simp add: mod_add_left_eq)
  have carry: "c0 + w < w \<longleftrightarrow> \<not> ?a + 8 * n < 2 ^ 32"
    using ab assms(2,3) by (simp add: word_less_alt w c0')
  show ?thesis
  proof (cases "?a + 8 * n < 2 ^ 32")
    case True
    with ab assms(2) show ?thesis
      unfolding X using carry by (simp add: c0' mod_pos_pos_trivial)
  next
    case False
    show ?thesis
    proof (cases "?b + 1 < 2 ^ 32")
      case True
      with False ab assms(2,3) show ?thesis
        unfolding X using carry by (simp add: c0' c1p mod_pos_pos_trivial)
    next
      case full: False
      with ab have b: "?b = 2 ^ 32 - 1" by simp
      have "?a + 2 ^ 32 * ?b + 8 * n = (?a + 8 * n - 2 ^ 32) + 2 ^ 64" by (simp add: b)
      then have "(?a + 2 ^ 32 * ?b + 8 * n) mod 2 ^ 64 = (?a + 8 * n - 2 ^ 32) mod 2 ^ 64"
        by (simp only: mod_add_self2)
      also have "\<dots> = ?a + 8 * n - 2 ^ 32"
        using False ab assms(2,3) by (intro mod_pos_pos_trivial) auto
      finally show ?thesis
        unfolding X using carry False full by (simp add: c0' c1p)
    qed
  qed
qed

lemma append_unfold:
  assumes off: "int (unat (drop_bit 3 (count0 pms) AND 63)) = int k" and n: "n < 2 ^ 28" "n \<noteq> 0" and k: "k < 64"
  defines "copy \<equiv> if k + n > 64 then 64 - k else n"
    and "pms1 \<equiv> pms\<lparr>count0 := count0 pms + word_of_int (int n * 8), count1 :=
        if count0 pms + word_of_int (int n * 8) < word_of_int (int n * 8) then count1 pms + 1 else count1 pms\<rparr>"
  shows "md5_append le pms data (int n) =
    (let pms2 = pms1\<lparr>buf := memcpy_at (buf pms1) k data copy\<rparr> in
     if k \<noteq> 0 \<and> k + copy < 64 then pms2
     else if k \<noteq> 0 then md5_rest le (md5_process le (buf pms2) pms2) (drop copy data) (int (n - copy))
     else md5_rest le pms1 data (int n))"
proof -
  have a: "word_of_int (int n div 2 ^ 29) = (0 :: u32)" using n(1) by simp
  have b: "(if int k + int n > 64 then 64 - int k else int n) = int copy"
      using k by (simp add: copy_def of_nat_diff)
  have c: "(int k \<noteq> 0 \<and> int k + int copy < 64) = (k \<noteq> 0 \<and> k + copy < 64)" by linarith
  have d: "int n - int copy = int (n - copy)"
      using k by (auto simp: copy_def of_nat_diff)
  have e: "\<not> int n \<le> 0" "(int k \<noteq> 0) = (k \<noteq> 0)" using n(2) by auto
  obtain w :: u32 where w: "word_of_int (int n * 8) = w" by simp
  show ?thesis
    unfolding md5_append_def off Let_def
    by (simp only: a b c d e if_False nat_int add_0_right w pms1_def md5_rest_def, cases "k = 0")
       (simp_all add: case_prod_unfold)
qed

text \<open>The bytes that wait in the buffer, and the hash of the blocks before them.\<close>

lemma waiting_bytes:
  fixes m :: "u8 list"
  defines "q \<equiv> 64 * (length m div 64)"
  shows "length (take q m) mod 64 = 0" "length (drop q m) = length m mod 64" "length m = q + length m mod 64"
    "rfc_hash m rfc_init = rfc_hash (take q m) rfc_init"
proof -
  show L: "length m = q + length m mod 64" by (simp add: q_def)
  then have "length (take q m) = q" by (metis length_take min_absorb2 le_add1)
  then show Q: "length (take q m) mod 64 = 0" by (simp add: q_def)
  show D: "length (drop q m) = length m mod 64" using L by (simp only: length_drop)
  show "rfc_hash m rfc_init = rfc_hash (take q m) rfc_init"
    using rfc_hash_tail [OF Q, of "drop q m"] D by simp
qed

text \<open>The bytes fit in the buffer.\<close>

lemma append_fits:
  assumes R: "md5_rel pms m" and n: "n \<le> length data" "length m mod 64 + n < 64"
    and cnt: "uint (count0 pms') + 2 ^ 32 * uint (count1 pms') = 8 * int (length m + n) mod 2 ^ 64"
    and same: "abcd pms' = abcd pms" "buf pms' = memcpy_at (buf pms) (length m mod 64) data n"
  shows "md5_rel pms' (m @ take n data)"
proof -
  let ?q = "64 * (length m div 64)" and ?k = "length m mod 64"
  note W = waiting_bytes [of m]
  have L: "length (m @ take n data) = ?k + n + 64 * (length m div 64)"
    using n(1) by simp
  have pos: "64 * (length (m @ take n data) div 64) = ?q" "length (m @ take n data) mod 64 = ?k + n"
    unfolding L using n(2) by (simp_all only: mod_mult_self2 div_mult_self2) simp_all
  have "rfc_hash (take ?q m @ (drop ?q m @ take n data)) rfc_init = rfc_hash (take ?q m) rfc_init"
    using n W(1,2) by (intro rfc_hash_tail) simp_all
  then have "rfc_hash (m @ take n data) rfc_init = rfc_hash m rfc_init"
    using W(4) by (simp flip: append_assoc)
  moreover have "take (?k + n) (buf pms') = drop ?q m @ take n data" "length (buf pms') = 64"
    using R n W(2) by (simp_all add: md5_rel_def memcpy_at_def same(2))
  moreover have "drop ?q (m @ take n data) = drop ?q m @ take n data" by simp
  ultimately show ?thesis using R cnt n(1) same(1) unfolding md5_rel_def pos by simp
qed

text \<open>They fill the buffer: the block is processed, then the blocks of the data.\<close>

lemma append_fills:
  assumes R: "md5_rel pms m" and n: "n \<le> length data" "64 - length m mod 64 \<le> n"
    and cnt: "uint (count0 pms1) + 2 ^ 32 * uint (count1 pms1) = 8 * int (length m + n) mod 2 ^ 64"
    and same: "abcd pms1 = abcd pms"
  defines "copy \<equiv> 64 - length m mod 64"
  defines "blk \<equiv> memcpy_at (buf pms) (length m mod 64) data copy"
  shows "md5_rel (md5_rest le (md5_process le blk (pms1\<lparr>buf := blk\<rparr>)) (drop copy data) (int (n - copy))) (m @ take n data)"
proof -
  let ?q = "64 * (length m div 64)" and ?k = "length m mod 64" and ?p = "md5_process le blk (pms1\<lparr>buf := blk\<rparr>)"
  note W = waiting_bytes [of m]
  have k: "?k < 64" and copy: "copy \<le> n" using n(2) by (simp_all add: copy_def)
  have blk: "blk = drop ?q m @ take copy data" "length blk = 64"
    using R n copy k W(2) by (auto simp: md5_rel_def blk_def memcpy_at_def copy_def)
  have "rfc_hash (take ?q m @ blk) rfc_init = rfc_block blk (rfc_hash m rfc_init)"
    unfolding rfc_hash_append [OF W(1)] W(4) by (rule rfc_hash_one [OF blk(2)])
  then have hash: "rfc_hash (m @ take copy data) rfc_init = rfc_block blk (rfc_hash m rfc_init)"
    by (simp add: blk(1) flip: append_assoc)
  have abcd: "abcd (pms1\<lparr>buf := blk\<rparr>) = regs4 (rfc_hash m rfc_init)" using R same by (simp add: md5_rel_def)
  note P = md5_process_rfc [OF blk(2) abcd, of le]
  have "md5_rel (md5_rest le ?p (drop copy data) (int (n - copy))) ((m @ take copy data) @ take (n - copy) (drop copy data))"
  proof (rule md5_rest_rel)
    have "length (m @ take copy data) = length m + copy" using copy n(1) by simp
    then have "length (m @ take copy data) = ?q + 64" using W(3) k unfolding copy_def by linarith
    then show "length (m @ take copy data) mod 64 = 0" by simp
    have sum: "length (m @ take copy data) + (n - copy) = length m + n" using copy n(1) by simp
    show "uint (count0 ?p) + 2 ^ 32 * uint (count1 ?p) = 8 * int (length (m @ take copy data) + (n - copy)) mod 2 ^ 64"
      unfolding sum using cnt P by simp
    show "abcd ?p = regs4 (rfc_hash (m @ take copy data) rfc_init)" "length (buf ?p) = 64"
      using P hash blk(2) by simp_all
    show "n - copy \<le> length (drop copy data)" using n(1) by simp
  qed
  moreover have "take copy data @ take (n - copy) (drop copy data) = take n data"
    using copy by (metis le_add_diff_inverse take_add)
  ultimately show ?thesis by simp
qed

lemma md5_append_rel:
  assumes R: "md5_rel pms m" and n: "n \<le> length data" "n < 2 ^ 28"
  shows "md5_rel (md5_append le pms data (int n)) (m @ take n data)"
proof (cases "n = 0")
  case True
  with R show ?thesis by (simp add: md5_append_def Let_def)
next
  case False
  let ?c0 = "count0 pms + word_of_int (int n * 8)" and ?c1 = "count1 pms"
  let ?pms = "pms\<lparr>count0 := ?c0, count1 := if ?c0 < word_of_int (int n * 8) then ?c1 + 1 else ?c1\<rparr>"
  define k where "k = length m mod 64"
  have k: "k < 64" "int (unat (drop_bit 3 (count0 pms) AND 63)) = int k"
    using count_offset [OF R] by (simp_all add: k_def)
  have "uint (word_of_int (int n * 8) :: u32) = 8 * int n"
    unfolding uint_word_of_int using n(2) by (simp add: mod_pos_pos_trivial)
  from count_add [OF _ _ _ this, of "count0 pms" "count1 pms" "8 * int (length m)"] R n(2)
  have cnt: "uint (count0 ?pms) + 2 ^ 32 * uint (count1 ?pms) = 8 * int (length m + n) mod 2 ^ 64"
    by (simp add: md5_rel_def distrib_left)
  define copy where "copy = (if k + n > 64 then 64 - k else n)"
  note unf = append_unfold [OF k(2) n(2) False k(1), of le data, folded copy_def]
  consider (fits) "k \<noteq> 0" "k + copy < 64" | (fill) "k \<noteq> 0" "\<not> k + copy < 64" | (start) "k = 0" by blast
  then show ?thesis
  proof cases
    case fits
    then have copy: "copy = n" "k + n < 64" by (auto simp: copy_def split: if_splits)
    have "md5_rel (?pms\<lparr>buf := memcpy_at (buf pms) k data n\<rparr>) (m @ take n data)"
      using append_fits [OF R n(1), of "?pms\<lparr>buf := memcpy_at (buf pms) k data n\<rparr>"] cnt copy(2) by (simp add: k_def)
    with fits copy(1) show ?thesis by (simp add: unf Let_def)
  next
    case fill
    then have copy: "copy = 64 - k" "64 - k \<le> n" using k(1) by (auto simp: copy_def split: if_splits)
    from append_fills [OF R n(1) copy(2) [unfolded k_def] cnt, of le] fill copy(1) show ?thesis
      by (simp add: unf Let_def k_def)
  next
    case start
    with md5_rest_rel [of ?pms m n data le] n(1) R cnt show ?thesis
      by (simp add: unf Let_def k_def md5_rel_def)
  qed
qed


section \<open>The digest\<close>

lemma unat_less_32: "unat w < 2 ^ 32" for w :: u32
  by (rule less_le_trans [OF unsigned_less]) simp

lemma byte_of_bytes:
  assumes "i < 4 * length ws"
  shows "byte_of ws i = word_of_nat (unat (ws ! (i div 4)) div 256 ^ (i mod 4))"
proof -
  have "unat (drop_bit (8 * (i mod 4)) (ws ! (i div 4))) = unat (ws ! (i div 4)) div 256 ^ (i mod 4)"
    by (simp only: unsigned_drop_bit_eq) (simp add: drop_bit_eq_div power_mult take_bit_nat_eq_self [OF unat_less_32])
  then show ?thesis unfolding byte_of_def by (metis of_nat_unat)
qed

lemma byte_mod:
  assumes "j < 4"
  shows "(word_of_nat (x mod 2 ^ 32 div 256 ^ j) :: u8) = word_of_nat (x div 256 ^ j)"
proof -
  have "take_bit 8 (drop_bit (8 * j) (take_bit 32 x)) = take_bit 8 (drop_bit (8 * j) x)"
    by (rule bit_eqI) (use assms in \<open>auto simp: bit_simps\<close>)
  then have "(x mod 2 ^ 32 div 256 ^ j) mod 256 = x div 256 ^ j mod 256"
    by (simp add: take_bit_eq_mod drop_bit_eq_div power_mult)
  then show ?thesis by (simp add: word_of_nat_eq_iff take_bit_eq_mod)
qed

lemma count_bytes:
  assumes "uint c0 + 2 ^ 32 * uint c1 = 8 * int n mod 2 ^ 64"
  shows "map (byte_of [c0, c1]) [0..<8] = bytes_le 8 (8 * n)"
proof -
  have "int (unat c0 + 2 ^ 32 * unat c1) = int (8 * n mod 2 ^ 64)"
    using assms by (simp add: zmod_int)
  then have sum: "unat c0 + 2 ^ 32 * unat c1 = 8 * n mod 2 ^ 64" by linarith
  have lt: "unat c0 < 2 ^ 32" "unat c1 < 2 ^ 32"
    by (rule unat_less_32)+
  have c0: "unat c0 = 8 * n mod 2 ^ 32"
    using arg_cong [OF sum, of "\<lambda>x. x mod 2 ^ 32"] lt(1) by (simp add: mod_mod_cancel)
  have c1: "unat c1 = 8 * n div 2 ^ 32 mod 2 ^ 32"
    using sum c0 mod_mult2_eq [of "8 * n" "2 ^ 32" "2 ^ 32"] by simp
  have "byte_of [c0, c1] i = word_of_nat (8 * n div 256 ^ i)" if "i < 8" for i
  proof (cases "i < 4")
    case True
    with byte_mod [OF True, of "8 * n"] show ?thesis by (simp add: byte_of_bytes c0)
  next
    case False
    then have i: "i div 4 = 1" "i mod 4 = i - 4" "i - 4 < 4" using that by (auto simp: le_mod_geq le_div_geq)
    have "(256 :: nat) ^ i = 256 ^ 4 * 256 ^ (i - 4)"
      using False by (subst power_add [symmetric]) simp
    then have "(2 :: nat) ^ 32 * 256 ^ (i - 4) = 256 ^ i" by simp
    then have "8 * n div 2 ^ 32 div 256 ^ (i - 4) = 8 * n div 256 ^ i"
      by (simp only: div_mult2_eq [symmetric])
    with byte_mod [OF i(3), of "8 * n div 2 ^ 32"] i that show ?thesis
      by (simp add: byte_of_bytes c1)
  qed
  then show ?thesis unfolding bytes_le_def by (intro map_cong) auto
qed

lemma pad_length:
  assumes "md5_rel pms m"
  shows "uint (((55 - drop_bit 3 (count0 pms)) AND 63) + 1) = int ((119 - length m mod 64) mod 64 + 1)"
proof -
  let ?v = "drop_bit 3 (count0 pms)"
  have m64: "uint (w AND 63) = uint w mod 64" for w :: u32
  proof -
    have "w AND 63 = take_bit 6 w" by (simp add: take_bit_eq_mask mask_eq_exp_minus_1)
    then show ?thesis by (simp add: unsigned_take_bit_eq take_bit_eq_mod uint_mod)
  qed
  have v: "uint ?v mod 64 = int (length m) mod 64"
    using count_offset [OF assms] by (simp add: m64 zmod_int)
  have "uint ((55 - ?v) AND 63) = (55 - uint ?v) mod 2 ^ 32 mod 64"
    by (simp add: m64 uint_word_ariths)
  also have "\<dots> = (55 - uint ?v) mod 64"
    by (simp add: mod_mod_cancel)
  also have "\<dots> = (55 - int (length m)) mod 64"
    using v by (metis mod_diff_right_eq)
  also have "\<dots> = int ((119 - length m mod 64) mod 64)"
  proof -
    have "int (119 - length m mod 64) = 119 - int (length m) mod 64"
      by (simp add: of_nat_diff zmod_int less_imp_le trans_le_add1)
    then have "int ((119 - length m mod 64) mod 64) = (119 - int (length m)) mod 64"
      by (simp add: zmod_int mod_diff_right_eq)
    also have "\<dots> = (55 - int (length m) + 64) mod 64" by simp
    finally show ?thesis by (simp only: mod_add_self2)
  qed
  finally have u: "uint ((55 - ?v) AND 63) = int ((119 - length m mod 64) mod 64)" .
  have "int ((119 - length m mod 64) mod 64) < 64" by simp
  with u show ?thesis by (simp add: uint_plus_if')
qed

lemma md5_finish_rfc:
  assumes R: "md5_rel pms m"
  shows "snd (md5_finish le pms) = rfc_md5 m"
proof -
  let ?n = "(119 - length m mod 64) mod 64 + 1" and ?d = "map (byte_of [count0 pms, count1 pms]) [0..<8]"
  let ?p1 = "md5_append le pms md5_pad (int ?n)"
  let ?p2 = "md5_append le ?p1 ?d 8"
  have "?n \<le> 64" using mod_less_divisor [of 64 "119 - length m mod 64"] by linarith
  then have n: "?n \<le> length md5_pad" "?n < 2 ^ 28" "take ?n md5_pad = 0x80 # replicate (?n - 1) 0"
    by (simp_all add: md5_pad_def)
  have d: "?d = bytes_le 8 (8 * length m)"
    using R by (intro count_bytes) (simp add: md5_rel_def)
  have "md5_rel ?p1 (m @ take ?n md5_pad)" by (rule md5_append_rel [OF R n(1,2)])
  from md5_append_rel [OF this, of 8 ?d le]
  have "md5_rel ?p2 ((m @ take ?n md5_pad) @ ?d)" by simp
  then have "abcd ?p2 = regs4 (rfc_hash (rfc_pad m) rfc_init)"
    unfolding d n(3) by (simp add: md5_rel_def rfc_pad_def)
  moreover obtain a b c d where "rfc_hash (rfc_pad m) rfc_init = (a, b, c, d)"
    by (cases "rfc_hash (rfc_pad m) rfc_init")
  moreover have "map (byte_of [a, b, c, d]) [0..<16] = bytes_le 4 (unat a) @ bytes_le 4 (unat b) @
      bytes_le 4 (unat c) @ bytes_le 4 (unat d)"
    by (simp add: bytes_le_def byte_of_bytes upt_rec)
  ultimately show ?thesis
    by (simp add: md5_finish_def Let_def pad_length [OF R] rfc_md5_def)
qed

lemma md5_digest_rfc:
  assumes "length (buf pms) = 64" and "length m < 2 ^ 28"
  shows "conhash_md5_digest le pms m = rfc_md5 m"
proof -
  have "to_int32 (int (length m)) = int (length m)"
    using assms(2) by (simp add: to_int32_def)
  with md5_append_rel [OF md5_init_rel [OF assms(1)], of "length m" m le] assms(2)
  show ?thesis by (simp add: conhash_md5_digest_def md5_finish_rfc)
qed

end
