(* ===== verification/Md5Theorems.thy ===== *)
theory Md5Theorems
  imports Md5Spec
begin

text \<open>
  The properties of the digest: the block function and the streaming interface of
  \<open>conhash/md5.c\<close> compute MD5 as RFC 1321 defines it, on machines of either byte order, in pieces of
  any length, whatever the state variable held before.
\<close>

section \<open>Properties\<close>

text \<open>
  \<open>md5_process\<close> is the block function of RFC 1321 on the four state words, for both byte orders,
  and writes nothing else of the state.
\<close>

theorem md5_block_correct:
  assumes "length data = 64" and "abcd pms = [a, b, c, d]"
  shows "md5_process le data pms = pms\<lparr>abcd := regs4 (rfc_block data (a, b, c, d))\<rparr>"
  using assms by (intro md5_process_rfc) simp_all

text \<open>
  \<open>md5_append\<close> is streaming: a state that stands for the bytes \<open>m\<close> (hash of the full blocks,
  tail of the buffer, bit count modulo \<open>2 ^ 64\<close>) stands for \<open>m\<close> and the appended bytes afterwards,
  wherever the block boundaries fall.
\<close>

theorem md5_append_correct:
  assumes "md5_rel pms m" and "length data < 2 ^ 28"
  shows "md5_rel (md5_append le pms data (int (length data))) (m @ data)"
  using md5_append_rel [OF assms(1) order_refl assms(2)] by simp

definition zero_state :: md5_state where
  "zero_state = \<lparr>count0 = 0, count1 = 0, abcd = [0, 0, 0, 0], buf = replicate 64 0\<rparr>"

text \<open>
  The test vectors of RFC 1321 for the empty string and for "abc", computed by the code.
\<close>

theorem md5_test_vectors:
  "conhash_md5_digest True zero_state [] =
     [0xd4, 0x1d, 0x8c, 0xd9, 0x8f, 0x00, 0xb2, 0x04, 0xe9, 0x80, 0x09, 0x98, 0xec, 0xf8, 0x42, 0x7e] \<and>
   conhash_md5_digest False zero_state [0x61, 0x62, 0x63] =
     [0x90, 0x01, 0x50, 0x98, 0x3c, 0xd2, 0x4f, 0xb0, 0xd6, 0x96, 0x3f, 0x7d, 0x28, 0xe1, 0x7f, 0x72]"
proof
  show "conhash_md5_digest True zero_state [] =
     [0xd4, 0x1d, 0x8c, 0xd9, 0x8f, 0x00, 0xb2, 0x04, 0xe9, 0x80, 0x09, 0x98, 0xec, 0xf8, 0x42, 0x7e]"
    by code_simp
  show "conhash_md5_digest False zero_state [0x61, 0x62, 0x63] =
     [0x90, 0x01, 0x50, 0x98, 0x3c, 0xd2, 0x4f, 0xb0, 0xd6, 0x96, 0x3f, 0x7d, 0x28, 0xe1, 0x7f, 0x72]"
    by code_simp
qed

lemma zero_state_buf: "length (buf zero_state) = 64" "abcd zero_state = [0, 0, 0, 0]"
  by (simp_all add: zero_state_def)

text \<open>
  C15. \<open>conhash_md5_digest\<close> is MD5 of the string as RFC 1321 defines it, whatever the uninitialised state
  variable holds and for both byte orders, for every string shorter than \<open>2 ^ 28\<close> bytes.  The reference
  has its own functions, tables and decoding of words; it gives the digests that the RFC lists for the empty
  string and for "abc".
\<close>

theorem md5_digest_correct:
  assumes "length (buf pms0) = 64" and "length instr < 2 ^ 28"
  shows "conhash_md5_digest le pms0 instr = rfc_md5 instr \<and>
     rfc_md5 [] = [0xd4, 0x1d, 0x8c, 0xd9, 0x8f, 0x00, 0xb2, 0x04, 0xe9, 0x80, 0x09, 0x98, 0xec, 0xf8, 0x42, 0x7e] \<and>
     rfc_md5 [0x61, 0x62, 0x63] = [0x90, 0x01, 0x50, 0x98, 0x3c, 0xd2, 0x4f, 0xb0, 0xd6, 0x96, 0x3f, 0x7d, 0x28, 0xe1, 0x7f, 0x72]"
  using md5_digest_rfc [OF assms, of le] md5_test_vectors md5_digest_rfc [of zero_state "[]" True]
    md5_digest_rfc [of zero_state "[0x61, 0x62, 0x63]" False] zero_state_buf(1) by simp

section \<open>Witnesses\<close>

text \<open>The empty message; then "ab" and "c" appended one after the other.\<close>

theorem md5_block_witness:
  "md5_process False (replicate 64 7) zero_state =
     zero_state\<lparr>abcd := regs4 (rfc_block (replicate 64 7) (0, 0, 0, 0))\<rparr>"
  by (rule md5_block_correct) (simp_all add: zero_state_buf)

theorem md5_append_witness:
  "md5_rel (md5_append True (md5_append True (md5_init zero_state) [0x61, 0x62] 2) [0x63] 1) [0x61, 0x62, 0x63]"
  using md5_append_correct [OF md5_append_correct [OF md5_init_rel [OF zero_state_buf(1)],
      of "[0x61, 0x62]" True], of "[0x63]" True] by simp

theorem md5_digest_witness:
  "conhash_md5_digest False zero_state (replicate 100 65) = rfc_md5 (replicate 100 65)"
  using md5_digest_correct [of zero_state "replicate 100 65" False] by (simp add: zero_state_buf)

end
