(* ===== verification/Ring.thy ===== *)
theory Ring
  imports RbRemove
begin

text \<open>
  The interface between the consistent hash and its tree: an ordered store of tree nodes, used as a
  ring of keys.  The locale states what the operations of \<open>util_rbtree.h\<close> promise to a client, in
  terms of the list of entries (address, key, data) in key order; the red-black tree is its
  interpretation.

  Two relations say that a store holds a list of entries: \<open>ring\<close> for a store that may be inserted
  into and the weaker \<open>ring0\<close>, which deletion may leave when it empties the store down to one entry.
\<close>

section \<open>Rings of entries\<close>

type_synonym entry = "ptr \<times> int \<times> nat"

abbreviation ekey :: "entry \<Rightarrow> int" where
  "ekey e \<equiv> fst (snd e)"

text \<open>What the successor on the ring is after an insertion and after a deletion.\<close>

lemma ins_list_split:
  assumes "sorted (map ekey xs)"
  shows "\<exists>as bs. xs = as @ bs \<and> ins_list x xs = as @ x # bs \<and>
           (\<forall>e \<in> set as. ekey e \<le> ekey x) \<and> (\<forall>e \<in> set bs. ekey x < ekey e)"
  using assms
proof (induction xs)
  case (Cons y ys)
  show ?case
  proof (cases "ekey x < ekey y")
    case True
    with Cons.prems show ?thesis by (intro exI [of _ "[]"] exI [of _ "y # ys"]) auto
  next
    case False
    from Cons obtain as bs where "ys = as @ bs \<and> ins_list x ys = as @ x # bs \<and>
           (\<forall>e \<in> set as. ekey e \<le> ekey x) \<and> (\<forall>e \<in> set bs. ekey x < ekey e)" by auto
    with False show ?thesis by (intro exI [of _ "y # as"] exI [of _ bs]) auto
  qed
qed simp

lemma ring_succ_middle:
  "ring_succ k (as @ x # bs) = fst x \<or> ring_succ k (as @ x # bs) = ring_succ k (as @ bs)"
proof (cases "dropWhile (\<lambda>x. ekey x < k) as")
  case (Cons y ys)
  then show ?thesis by (simp add: ring_succ_def dropWhile_append_if)
next
  case Nil
  note drop = dropWhile_append_if [of "\<lambda>x. ekey x < k" as, unfolded Nil, simplified]
  show ?thesis
  proof (cases "ekey x < k")
    case True
    then show ?thesis
      unfolding ring_succ_def drop
      by (cases as; cases bs) (auto split: list.split simp del: dropWhile_eq_Nil_conv)
  next
    case False
    then show ?thesis unfolding ring_succ_def drop by simp
  qed
qed

lemma ring_succ_insert:
  assumes "sorted (map ekey xs)"
  shows "ring_succ k (ins_list x xs) = fst x \<or> ring_succ k (ins_list x xs) = ring_succ k xs"
proof -
  obtain as bs where "xs = as @ bs" "ins_list x xs = as @ x # bs"
    using ins_list_split [OF assms] by blast
  with ring_succ_middle [of k as x bs] show ?thesis by simp
qed

lemma dropWhile_filter_Cons:
  assumes "dropWhile P xs = y # ys" and "Q y"
  shows "dropWhile P (filter Q xs) = y # filter Q ys"
  using assms
proof (induction xs)
  case (Cons x xs)
  then show ?case by (auto split: if_splits)
qed simp

lemma ring_succ_delete:
  assumes "ring_succ k xs \<noteq> p"
  shows "ring_succ k (filter (\<lambda>e. fst e \<noteq> p) xs) = ring_succ k xs"
proof (cases "dropWhile (\<lambda>x. ekey x < k) xs")
  case Nil
  then have "\<forall>x \<in> set xs. ekey x < k" by simp
  then have "dropWhile (\<lambda>x. ekey x < k) (filter (\<lambda>e. fst e \<noteq> p) xs) = []" by simp
  with Nil assms show ?thesis
    unfolding ring_succ_def by (cases xs) auto
next
  case (Cons y ys)
  then have "fst y \<noteq> p" using assms by (simp add: ring_succ_def)
  from dropWhile_filter_Cons [OF Cons, of "\<lambda>e. fst e \<noteq> p", OF this] Cons show ?thesis by (simp add: ring_succ_def)
qed

lemma ring_succ_in: "xs \<noteq> [] \<Longrightarrow> \<exists>k' d. (ring_succ k xs, k', d) \<in> set xs"
proof (cases "dropWhile (\<lambda>x. ekey x < k) xs")
  case (Cons y ys)
  then have "y \<in> set xs" by (metis list.set_intros(1) set_dropWhileD)
  with Cons show ?thesis by (cases y) (auto simp: ring_succ_def)
next
  case Nil
  assume "xs \<noteq> []"
  then obtain a k' d ys where "xs = (a, k', d) # ys" by (cases xs) auto
  with Nil show ?thesis unfolding ring_succ_def by auto
qed

lemma distinct_ins_list:
  "distinct (map f (ins_list x xs)) \<longleftrightarrow> distinct (map f xs) \<and> f x \<notin> f ` set xs"
  by (induction xs) (auto simp: set_ins_list)

lemma filter_distinct_entry:
  assumes "distinct (map fst xs)" "p \<in> fst ` set xs"
  shows "length (filter (\<lambda>e. fst e \<noteq> p) xs) = length xs - 1"
proof -
  from assms(2) obtain e ys zs where eq: "xs = ys @ e # zs" "fst e = p" by (auto dest!: split_list)
  have "\<forall>e' \<in> set ys \<union> set zs. fst e' \<noteq> p"
    using assms(1) unfolding eq(1) eq(2) [symmetric] by (auto simp: image_iff)
  then have "filter (\<lambda>e. fst e \<noteq> p) ys = ys" "filter (\<lambda>e. fst e \<noteq> p) zs = zs"
    by (auto intro: filter_True)
  with eq show ?thesis by simp
qed

section \<open>The interface\<close>

locale key_ring =
  fixes ring :: "'t \<Rightarrow> entry list \<Rightarrow> bool"
    and ring0 :: "'t \<Rightarrow> entry list \<Rightarrow> bool"
    and cell :: "'t \<Rightarrow> ptr \<Rightarrow> rbnode option"
    and upd :: "ptr \<Rightarrow> rbnode option \<Rightarrow> 't \<Rightarrow> 't"
    and ins :: "'t \<Rightarrow> ptr \<Rightarrow> 't option"
    and del :: "'t \<Rightarrow> ptr \<Rightarrow> 't option"
    and srch :: "'t \<Rightarrow> int \<Rightarrow> ptr option"
    and look :: "'t \<Rightarrow> int \<Rightarrow> ptr option"
    and emp :: "'t \<Rightarrow> bool"
    and top :: "'t \<Rightarrow> ptr"
  assumes weaken: "ring t xs \<Longrightarrow> ring0 t xs"
    and empty: "ring0 t [] \<Longrightarrow> ring t []"
    and order: "ring0 t xs \<Longrightarrow> sorted (map ekey xs) \<and> distinct (map fst xs)"
    and entry: "ring0 t xs \<Longrightarrow> (p, k, d) \<in> set xs \<Longrightarrow>
      p \<noteq> NULL \<and> p \<noteq> Sent \<and> (\<exists>n. cell t p = Some n \<and> key n = k \<and> data n = d)"
    and is_empty: "ring0 t xs \<Longrightarrow> emp t \<longleftrightarrow> xs = []"
    and top_in: "ring0 t xs \<Longrightarrow> xs \<noteq> [] \<Longrightarrow> top t \<in> fst ` set xs"
    and search: "ring0 t xs \<Longrightarrow> \<exists>p. srch t k = Some p \<and>
      (if k \<in> ekey ` set xs then \<exists>d. (p, k, d) \<in> set xs else p = NULL)"
    and lookup: "ring0 t xs \<Longrightarrow> look t k = Some (ring_succ k xs)"
    and insert: "ring t xs \<Longrightarrow> cell t p = Some n \<Longrightarrow> p \<noteq> Sent \<Longrightarrow> p \<notin> fst ` set xs \<Longrightarrow>
      \<exists>t'. ins t p = Some t' \<and> ring t' (ins_list (p, key n, data n) xs) \<and> dom (cell t') = dom (cell t)"
    and delete: "ring0 t xs \<Longrightarrow> p \<in> fst ` set xs \<Longrightarrow>
      \<exists>t'. del t p = Some t' \<and> ring0 t' (filter (\<lambda>e. fst e \<noteq> p) xs) \<and>
           (ring t xs \<longrightarrow> length xs \<noteq> 2 \<longrightarrow> ring t' (filter (\<lambda>e. fst e \<noteq> p) xs)) \<and>
           dom (cell t') = dom (cell t) \<and> map_option data (cell t' p) = map_option data (cell t p)"
    and store: "ring t xs \<Longrightarrow> p \<notin> fst ` set xs \<Longrightarrow> p \<noteq> Sent \<Longrightarrow> p \<noteq> NULL \<Longrightarrow> ring (upd p v t) xs"
    and store0: "ring0 t xs \<Longrightarrow> p \<notin> fst ` set xs \<Longrightarrow> p \<noteq> Sent \<Longrightarrow> p \<noteq> NULL \<Longrightarrow> ring0 (upd p v t) xs"
begin

text \<open>Adding a node whose key the search did not find: keys stay different.\<close>

lemma insert_absent:
  assumes "ring t xs" and "srch t (key n) = Some NULL" and "cell t p = Some n" "p \<noteq> Sent" "p \<notin> fst ` set xs"
    and "distinct (map ekey xs)"
  shows "\<exists>t'. ins t p = Some t' \<and> ring t' (ins_list (p, key n, data n) xs) \<and> dom (cell t') = dom (cell t) \<and>
    distinct (map ekey (ins_list (p, key n, data n) xs))"
proof -
  have "key n \<notin> ekey ` set xs"
  proof
    assume "key n \<in> ekey ` set xs"
    with search [OF weaken [OF assms(1)], of "key n"] assms(2)
    obtain d where "(NULL, key n, d) \<in> set xs" by auto
    with entry [OF weaken [OF assms(1)]] show False by blast
  qed
  with assms insert [of t xs p n] show ?thesis by (auto simp: distinct_ins_list)
qed

text \<open>The lookups are stable: only a new entry can take over keys, only those of a deleted one move.\<close>

lemma lookup_insert:
  assumes "ring t xs" "cell t p = Some n" "p \<noteq> Sent" "p \<notin> fst ` set xs" and "ins t p = Some t'"
  shows "look t' k = Some p \<or> look t' k = look t k"
proof -
  have "ring t' (ins_list (p, key n, data n) xs)" using insert [OF assms(1-4)] assms(5) by auto
  with lookup [OF weaken, of t'] lookup [OF weaken [OF assms(1)], of k]
    ring_succ_insert [of xs k "(p, key n, data n)"] order [OF weaken [OF assms(1)]]
  show ?thesis by fastforce
qed

lemma lookup_delete:
  assumes "ring0 t xs" "p \<in> fst ` set xs" and "del t p = Some t'" and "look t k \<noteq> Some p"
  shows "look t' k = look t k"
proof -
  have "ring0 t' (filter (\<lambda>e. fst e \<noteq> p) xs)" using delete [OF assms(1,2)] assms(3) by auto
  with lookup [of t'] lookup [OF assms(1), of k] ring_succ_delete [of k xs p] assms(4)
  show ?thesis by auto
qed

lemma lookup_entry:
  assumes "ring0 t xs" and "xs \<noteq> []"
  shows "\<exists>p k' d n. look t k = Some p \<and> (p, k', d) \<in> set xs \<and> p \<noteq> NULL \<and> cell t p = Some n \<and> data n = d"
  using lookup [OF assms(1), of k] ring_succ_in [OF assms(2), of k] entry [OF assms(1)] by fastforce

end

section \<open>The red-black tree provides it\<close>

definition rb_ring :: "rbtree \<Rightarrow> entry list \<Rightarrow> bool" where
  "rb_ring t xs \<longleftrightarrow> (\<exists>T. tree_rel t Sent T \<and> rb_inv T \<and> inorder T = xs)"

definition rb_ring0 :: "rbtree \<Rightarrow> entry list \<Rightarrow> bool" where
  "rb_ring0 t xs \<longleftrightarrow> (\<exists>T rp. tree_rel t rp T \<and> rb_inv T \<and> inorder T = xs)"

definition rb_upd :: "ptr \<Rightarrow> rbnode option \<Rightarrow> rbtree \<Rightarrow> rbtree" where
  "rb_upd p v t = t\<lparr>mem := (mem t)(p := v)\<rparr>"

lemma rep_entry: "rep h q T \<Longrightarrow> (p, k, d) \<in> set (inorder T) \<Longrightarrow> \<exists>n. h p = Some n \<and> key n = k \<and> data n = d"
  by (induction T arbitrary: q) auto

lemma keys_ekey: "keys T = map ekey (inorder T)"
  by (simp add: case_prod_unfold)

lemma in_addrs: "p \<in> fst ` set (inorder T) \<longleftrightarrow> p \<in> set (addrs T)"
  by (simp flip: map_fst_inorder)

lemma tree_rel_upd:
  assumes "tree_rel t rp T" "p \<notin> fst ` set (inorder T)" "p \<noteq> Sent" "p \<noteq> NULL"
  shows "tree_rel (rb_upd p v t) rp T"
  using assms unfolding in_addrs by (auto simp: tree_rel_def rb_upd_def)

lemma rb_delete:
  assumes T: "tree_rel t rp T" "rb_inv T" "p \<in> fst ` set (inorder T)"
  shows "\<exists>t' T' rp'. util_rbtree_delete t p = Some t' \<and> tree_rel t' rp' T' \<and> rb_inv T' \<and>
    inorder T' = filter (\<lambda>e. fst e \<noteq> p) (inorder T) \<and> (length (inorder T) \<noteq> 2 \<longrightarrow> rp' = rp) \<and>
    dom (mem t') = dom (mem t) \<and> map_option data (mem t' p) = map_option data (mem t p)"
proof -
  from T(3) have "p \<in> set (addrs T)" by (simp flip: in_addrs)
  from delete_runs [OF T(1,2) this] obtain t' T' rp' where t': "util_rbtree_delete t p = Some t'"
    "tree_rel t' rp' T'" "rb_inv T'" "inorder T' = filter (\<lambda>e. fst e \<noteq> p) (inorder T)"
    "rp' = rp \<or> length (inorder T') = 1" "dom (mem t') = dom (mem t)"
    "map_option data (mem t' p) = map_option data (mem t p)"
    unfolding runs_def deleted_def frame_rel_def by auto
  have "length (filter (\<lambda>e. fst e \<noteq> p) (inorder T)) = length (inorder T) - 1"
  proof -
    have d: "distinct (map fst (inorder T))" using T(1) by (simp add: map_fst_inorder tree_rel_def)
    from T(3) obtain k d xs ys where eq: "inorder T = xs @ (p, k, d) # ys"
      by (auto dest!: split_list)
    from filter_distinct [OF d [unfolded eq]] show ?thesis unfolding eq by simp
  qed
  with t' show ?thesis by (metis One_nat_def Suc_1 Suc_pred diff_0_eq_0 length_greater_0_conv neq0_conv
      list.size(3) zero_neq_one)
qed

lemma rb_delete_ring:
  assumes "rb_ring0 t xs" "p \<in> fst ` set xs"
  shows "\<exists>t'. util_rbtree_delete t p = Some t' \<and> rb_ring0 t' (filter (\<lambda>e. fst e \<noteq> p) xs) \<and>
    (rb_ring t xs \<longrightarrow> length xs \<noteq> 2 \<longrightarrow> rb_ring t' (filter (\<lambda>e. fst e \<noteq> p) xs)) \<and>
    dom (mem t') = dom (mem t) \<and> map_option data (mem t' p) = map_option data (mem t p)"
proof -
  from assms(1) obtain T rp where T: "tree_rel t rp T" "rb_inv T" "inorder T = xs"
    by (auto simp: rb_ring0_def)
  from rb_delete [OF T(1,2), of p, unfolded T(3), OF assms(2)] obtain t' T' rp' where
    t': "util_rbtree_delete t p = Some t'" "tree_rel t' rp' T'" "rb_inv T'"
    "inorder T' = filter (\<lambda>e. fst e \<noteq> p) xs" "dom (mem t') = dom (mem t)"
    "map_option data (mem t' p) = map_option data (mem t p)" by blast
  have "rb_ring t' (filter (\<lambda>e. fst e \<noteq> p) xs)" if R: "rb_ring t xs" "length xs \<noteq> 2"
  proof -
    from R(1) obtain S where S: "tree_rel t Sent S" "rb_inv S" "inorder S = xs" by (auto simp: rb_ring_def)
    from rb_delete [OF S(1,2), of p, unfolded S(3), OF assms(2)] t'(1) R(2) show ?thesis
      unfolding rb_ring_def by auto
  qed
  with t' show ?thesis unfolding rb_ring0_def by blast
qed

lemma rb_entry:
  assumes "rb_ring0 t xs" "(p, k, d) \<in> set xs"
  shows "p \<noteq> NULL \<and> p \<noteq> Sent \<and> (\<exists>n. mem t p = Some n \<and> key n = k \<and> data n = d)"
proof -
  from assms(1) obtain T rp where T: "tree_rel t rp T" "inorder T = xs" by (auto simp: rb_ring0_def)
  have "p \<in> fst ` set (inorder T)" using assms(2) T(2) by force
  then have "p \<in> set (addrs T)" by (simp only: in_addrs)
  moreover from T assms(2) rep_entry [of "mem t" rp T p k d]
  have "\<exists>n. mem t p = Some n \<and> key n = k \<and> data n = d" by (simp add: tree_rel_def)
  ultimately show ?thesis using T(1) by (auto simp: tree_rel_def)
qed

lemma inorder_empty: "inorder T = [] \<Longrightarrow> T = Lf"
  by (cases T) auto

lemma rb_isempty: "rb_ring0 t xs \<Longrightarrow> util_rbtree_isempty t \<longleftrightarrow> xs = []"
proof -
  assume "rb_ring0 t xs"
  then obtain T rp where T: "tree_rel t rp T" "inorder T = xs" by (auto simp: rb_ring0_def)
  then show ?thesis
    by (cases T) (auto simp: util_rbtree_isempty_def tree_rel_def)
qed

lemma rb_top: "rb_ring0 t xs \<Longrightarrow> xs \<noteq> [] \<Longrightarrow> root t \<in> fst ` set xs"
proof -
  assume "rb_ring0 t xs" "xs \<noteq> []"
  then obtain T rp where T: "tree_rel t rp T" "inorder T = xs" by (auto simp: rb_ring0_def)
  with \<open>xs \<noteq> []\<close> show ?thesis by (cases T) (auto simp: tree_rel_def)
qed

interpretation rb: key_ring rb_ring rb_ring0 mem rb_upd
  util_rbtree_insert util_rbtree_delete util_rbtree_search util_rbtree_lookup util_rbtree_isempty root
proof
  fix t xs p k d n v
  show "rb_ring t xs \<Longrightarrow> rb_ring0 t xs" by (auto simp: rb_ring_def rb_ring0_def)
  show "rb_ring0 t [] \<Longrightarrow> rb_ring t []"
    unfolding rb_ring_def rb_ring0_def tree_rel_def by (metis inorder_empty rep.simps(1))
  show "rb_ring0 t xs \<Longrightarrow> sorted (map ekey xs) \<and> distinct (map fst xs)"
    by (auto simp: rb_ring0_def rb_inv_def keys_ekey map_fst_inorder tree_rel_def)
  show "rb_ring0 t xs \<Longrightarrow> (p, k, d) \<in> set xs \<Longrightarrow>
      p \<noteq> NULL \<and> p \<noteq> Sent \<and> (\<exists>n. mem t p = Some n \<and> key n = k \<and> data n = d)"
    by (rule rb_entry)
  show "rb_ring0 t xs \<Longrightarrow> util_rbtree_isempty t \<longleftrightarrow> xs = []" by (rule rb_isempty)
  show "rb_ring0 t xs \<Longrightarrow> xs \<noteq> [] \<Longrightarrow> root t \<in> fst ` set xs" by (rule rb_top)
  show "\<exists>p. util_rbtree_search t k = Some p \<and>
      (if k \<in> ekey ` set xs then \<exists>d. (p, k, d) \<in> set xs else p = NULL)"
    if R: "rb_ring0 t xs"
  proof -
    from R obtain T rp where T: "tree_rel t rp T" "rb_inv T" "inorder T = xs" by (auto simp: rb_ring0_def)
    then have "tree_rel t rp (plug [] T)" "sorted (keys T)" "root t = raddr T"
      by (auto simp: rb_inv_def tree_rel_def)
    note S = search_loop_runs [OF this(1,2), of k] and r = this(3)
    have "set (keys T) = ekey ` set xs" using T(3) by (simp add: case_prod_unfold)
    from S [unfolded this, unfolded T(3)] show ?thesis unfolding util_rbtree_search_def r .
  qed
  show "rb_ring0 t xs \<Longrightarrow> util_rbtree_lookup t k = Some (ring_succ k xs)"
    by (auto simp: rb_ring0_def rb_inv_def lookup_runs)
  show "\<exists>t'. util_rbtree_insert t p = Some t' \<and> rb_ring t' (ins_list (p, key n, data n) xs) \<and>
           dom (mem t') = dom (mem t)"
    if "rb_ring t xs" "mem t p = Some n" "p \<noteq> Sent" "p \<notin> fst ` set xs"
  proof -
    from that obtain T where T: "tree_rel t Sent T" "rb_inv T" "inorder T = xs" by (auto simp: rb_ring_def)
    from that(4) T(3) have "p \<notin> set (addrs T)" by (simp flip: in_addrs)
    from insert_runs [OF T(1,2) that(2,3) this impI [OF refl]] obtain t' T' where
      "util_rbtree_insert t p = Some t'" "tree_rel t' Sent T'" "rb_inv T'"
      "inorder T' = ins_list (p, key n, data n) xs" "dom (mem t') = dom (mem t)"
      unfolding T(3) runs_def by blast
    then show ?thesis unfolding rb_ring_def by blast
  qed
  show "\<exists>t'. util_rbtree_delete t p = Some t' \<and> rb_ring0 t' (filter (\<lambda>e. fst e \<noteq> p) xs) \<and>
           (rb_ring t xs \<longrightarrow> length xs \<noteq> 2 \<longrightarrow> rb_ring t' (filter (\<lambda>e. fst e \<noteq> p) xs)) \<and>
           dom (mem t') = dom (mem t) \<and> map_option data (mem t' p) = map_option data (mem t p)"
    if "rb_ring0 t xs" "p \<in> fst ` set xs"
    using that by (rule rb_delete_ring)
  show "rb_ring t xs \<Longrightarrow> p \<notin> fst ` set xs \<Longrightarrow> p \<noteq> Sent \<Longrightarrow> p \<noteq> NULL \<Longrightarrow> rb_ring (rb_upd p v t) xs"
    unfolding rb_ring_def using tree_rel_upd by metis
  show "rb_ring0 t xs \<Longrightarrow> p \<notin> fst ` set xs \<Longrightarrow> p \<noteq> Sent \<Longrightarrow> p \<noteq> NULL \<Longrightarrow> rb_ring0 (rb_upd p v t) xs"
    unfolding rb_ring0_def using tree_rel_upd by metis
qed

end
