(* ===== verification/Decimal.thy ===== *)
theory Decimal
  imports Prelude
begin

text \<open>
  Strings as lists of bytes, and the decimal numbers that the printing functions of the program
  produce: \<open>decimal\<close> is \<open>%d\<close> of a number that is not negative, \<open>zero_pad\<close> the padding of \<open>%02d\<close> and
  \<open>%03d\<close>, and \<open>undec\<close> reads digits back.
\<close>

type_synonym u16 = "16 word"
type_synonym cstr = "u8 list"

text \<open>A text constant.\<close>

definition bytes :: "string \<Rightarrow> cstr" where
  "bytes s = map of_char s"

fun decimal :: "nat \<Rightarrow> cstr" where
  "decimal n = (if n < 10 then [48 + word_of_nat n] else decimal (n div 10) @ [48 + word_of_nat (n mod 10)])"

declare decimal.simps [simp del]

text \<open>\<open>%d\<close>, also of a negative number.\<close>

definition format_d :: "int \<Rightarrow> cstr" where
  "format_d v = (if v < 0 then 45 # decimal (nat (- v)) else decimal (nat v))"

definition zero_pad :: "nat \<Rightarrow> cstr \<Rightarrow> cstr" where
  "zero_pad n s = replicate (n - length s) 48 @ s"

definition undec :: "cstr \<Rightarrow> nat" where
  "undec s = foldl (\<lambda>a c. 10 * a + (unat c - 48)) 0 s"

lemma digit: "n < 10 \<Longrightarrow> unat (48 + word_of_nat n :: u8) = 48 + n"
  by (simp add: unat_word_ariths unat_of_nat)

lemma undec_snoc: "undec (s @ [c]) = 10 * undec s + (unat c - 48)"
  by (simp add: undec_def)

lemma undec_decimal: "undec (decimal n) = n"
proof (induction n rule: decimal.induct)
  case (1 n)
  show ?case
  proof (cases "n < 10")
    case True
    then show ?thesis using digit [OF True] by (subst decimal.simps) (simp add: undec_def)
  next
    case False
    have "unat (48 + word_of_nat (n mod 10) :: u8) - 48 = n mod 10" using digit [of "n mod 10"] by simp
    with False 1 show ?thesis by (subst decimal.simps) (simp only: if_False undec_snoc if_not_P, simp)
  qed
qed

lemma undec_zero_pad: "undec (zero_pad k s) = undec s"
proof -
  have "foldl (\<lambda>a (c :: u8). 10 * a + (unat c - 48)) 0 (replicate j 48) = 0" for j
    by (induction j) auto
  then show ?thesis by (simp add: undec_def zero_pad_def)
qed

lemma decimal_digits: "c \<in> set (decimal n) \<Longrightarrow> 48 \<le> unat c \<and> unat c < 58"
proof (induction n rule: decimal.induct)
  case (1 n)
  show ?case
  proof (cases "n < 10")
    case True
    with 1(2) digit [OF True] show ?thesis by (subst (asm) decimal.simps) simp
  next
    case False
    with 1(2) have "c \<in> set (decimal (n div 10)) \<or> c = 48 + word_of_nat (n mod 10)"
      by (subst (asm) decimal.simps) auto
    with 1(1) [OF False] digit [of "n mod 10"] show ?thesis by auto
  qed
qed

lemma zero_pad_digits: "c \<in> set (zero_pad k (decimal n)) \<Longrightarrow> 48 \<le> unat c \<and> unat c < 58"
  using decimal_digits by (auto simp: zero_pad_def)

lemma length_decimal: "n < 10 ^ k \<Longrightarrow> 0 < k \<Longrightarrow> length (decimal n) \<le> k"
proof (induction n arbitrary: k rule: decimal.induct)
  case (1 n)
  show ?case
  proof (cases "n < 10")
    case True
    with 1(3) show ?thesis by (subst decimal.simps) simp
  next
    case False
    then have "k \<noteq> 1" using 1(2) by auto
    with 1(3) obtain j where j: "k = Suc j" "0 < j" by (cases k) auto
    then have "n div 10 < 10 ^ j" using 1(2) by (simp add: div_less_iff_less_mult mult.commute)
    with 1(1) [OF False, of j] j False show ?thesis by (subst decimal.simps) simp
  qed
qed

text \<open>A number in exactly \<open>k\<close> digits, by powers of ten.\<close>

definition digits :: "nat \<Rightarrow> nat \<Rightarrow> cstr" where
  "digits k n = map (\<lambda>i. 48 + word_of_nat (n div 10 ^ i mod 10)) (rev [0..<k])"

lemma length_digits [simp]: "length (digits k n) = k"
  by (simp add: digits_def)

lemma digits_Suc: "digits (Suc k) n = digits k (n div 10) @ [48 + word_of_nat (n mod 10)]"
proof -
  have "rev [0..<Suc k] = map Suc (rev [0..<k]) @ [0]"
    by (simp only: upt_conv_Cons [OF zero_less_Suc] rev.simps rev_map flip: map_Suc_upt)
  then show ?thesis by (simp add: digits_def div_mult2_eq)
qed

lemma digits_zero: "digits k 0 = replicate k 48"
  by (simp add: digits_def map_replicate_const)

lemma zero_pad_eq: "n < 10 ^ k \<Longrightarrow> 0 < k \<Longrightarrow> zero_pad k (decimal n) = digits k n"
proof (induction k arbitrary: n)
  case (Suc k)
  show ?case
  proof (cases "n < 10")
    case True
    then show ?thesis by (simp add: digits_Suc digits_zero zero_pad_def decimal.simps [of n])
  next
    case False
    with Suc.prems have k: "0 < k" by (cases k) auto
    with Suc.prems have "n div 10 < 10 ^ k" by (simp add: div_less_iff_less_mult mult.commute)
    from Suc.IH [OF this k] False show ?thesis by (simp add: digits_Suc zero_pad_def decimal.simps [of n])
  qed
qed simp

lemma zero_no_digit: "0 \<notin> set (digits k n)"
  using digit [of "m mod 10" for m] by (auto simp: digits_def) (metis add_is_0 unsigned_0 mod_less_divisor zero_less_numeral zero_neq_numeral)

end
