(* ===== verification/ConHash.thy ===== *)
theory ConHash
  imports RbTree Md5 Decimal
begin

unbundle bit_operations_syntax

text \<open>
  The consistent-hashing library: \<open>conhash/conhash.c\<close>, \<open>conhash_inter.c\<close>, \<open>conhash_util.c\<close> and the
  types of \<open>conhash.h\<close> and \<open>conhash_inter.h\<close>.

  \<open>heap\<close> is the memory the library works on: the object \<open>conhash_s\<close> (\<open>None\<close> stands for a \<open>NULL\<close>
  pointer to it), whose tree holds the tree nodes, the virtual nodes and the \<open>node_s\<close> objects of
  the callers, by address.  Address 0 is \<open>NULL\<close>.  A C string is the list of its bytes before the
  terminating zero.

  \<open>malloc\<close> is a parameter \<open>mal\<close>: the number of the call and the live addresses determine the
  address returned, or \<open>None\<close> when there is no memory; \<open>junk\<close> is what a new tree node contains.
\<close>

section \<open>State\<close>

record node_s =
  iden :: "u8 list"
  replicas :: u32
  flag :: u32

record virtual_node_s =
  vn_hash :: int
  vn_node :: nat

record conhash_s =
  vnode_tree :: rbtree
  ivnodes :: u32
  cb_hashfunc :: "cstr \<Rightarrow> int"

record heap =
  chash :: "conhash_s option"
  vnodes :: "nat \<rightharpoonup> virtual_node_s"
  nodes :: "nat \<rightharpoonup> node_s"
  clock :: nat

type_synonym allocator = "nat \<Rightarrow> (nat \<Rightarrow> bool) \<Rightarrow> nat option"

definition NODE_FLAG_INIT :: u32 where "NODE_FLAG_INIT = 0x01"
definition NODE_FLAG_IN :: u32 where "NODE_FLAG_IN = 0x02"

text \<open>The addresses in use, and a call of \<open>malloc\<close>.\<close>

definition live :: "heap \<Rightarrow> nat \<Rightarrow> bool" where
  "live w a \<longleftrightarrow> vnodes w a \<noteq> None \<or> nodes w a \<noteq> None \<or>
     (case chash w of None \<Rightarrow> False | Some ch \<Rightarrow> mem (vnode_tree ch) (Ref a) \<noteq> None)"

definition call_malloc :: "allocator \<Rightarrow> heap \<Rightarrow> heap \<times> nat option" where
  "call_malloc mal w = (w\<lparr>clock := clock w + 1\<rparr>, mal (clock w) (live w))"

text \<open>Storing and freeing a tree node.\<close>

definition set_tree :: "rbtree \<Rightarrow> heap \<Rightarrow> heap" where
  "set_tree t w = w\<lparr>chash := map_option (\<lambda>ch. ch\<lparr>vnode_tree := t\<rparr>) (chash w)\<rparr>"

definition put_rbnode :: "ptr \<Rightarrow> rbnode option \<Rightarrow> heap \<Rightarrow> heap option" where
  "put_rbnode p n w = do {
     ch \<leftarrow> chash w;
     Some (set_tree ((vnode_tree ch)\<lparr>mem := (mem (vnode_tree ch))(p := n)\<rparr>) w) }"

section \<open>Strings and hashes\<close>

text \<open>Reading a string from an array runs out of it when there is no zero byte.\<close>

definition cstr_of :: "u8 list \<Rightarrow> cstr option" where
  "cstr_of bs = (if 0 \<in> set bs then Some (takeWhile (\<lambda>c. c \<noteq> 0) bs) else None)"

text \<open>The conversion \<open>%03d\<close>.\<close>

definition format_03d :: "int \<Rightarrow> cstr" where
  "format_03d v = (if v < 0 then 45 # zero_pad 2 (decimal (nat (- v))) else zero_pad 3 (decimal (nat v)))"

text \<open>\<open>__conhash_node2string\<close>: \<open>snprintf\<close> into 127 bytes; the unsigned index is read as an \<open>int\<close>.\<close>

definition conhash_node2string :: "node_s \<Rightarrow> u32 \<Rightarrow> cstr option" where
  "conhash_node2string node replica_idx = do {
     s \<leftarrow> cstr_of (iden node);
     Some (take 126 (s @ 45 # format_03d (sint replica_idx))) }"

text \<open>
  \<open>__conhash_hash_def\<close>: the sum of the four 32-bit words of the digest, in a 64-bit \<open>long\<close>.  The
  byte order of the machine and the uninitialised state variable are arguments of the digest.
\<close>

definition digest_word :: "u8 list \<Rightarrow> nat \<Rightarrow> u64" where
  "digest_word digest i =
     push_bit 24 (ucast (digest ! (i * 4 + 3)) AND 0xFF) OR push_bit 16 (ucast (digest ! (i * 4 + 2)) AND 0xFF)
     OR push_bit 8 (ucast (digest ! (i * 4 + 1)) AND 0xFF) OR (ucast (digest ! (i * 4 + 0)) AND 0xFF)"

definition conhash_hash_def :: "bool \<Rightarrow> md5_state \<Rightarrow> cstr \<Rightarrow> int" where
  "conhash_hash_def le md5state instr =
     (let digest = conhash_md5_digest le md5state instr
      in sint (fold (\<lambda>i hash. hash + digest_word digest i) [0..<4] 0))"

section \<open>Virtual nodes\<close>

definition conhash_get_rbnode ::
    "allocator \<Rightarrow> rbnode \<Rightarrow> nat \<Rightarrow> int \<Rightarrow> heap \<Rightarrow> (heap \<times> ptr) option" where
  "conhash_get_rbnode mal junk node hash w =
     (case call_malloc mal w of
        (w, None) \<Rightarrow> Some (w, NULL)
      | (w, Some a) \<Rightarrow> do {
          w \<leftarrow> put_rbnode (Ref a) (Some (junk\<lparr>key := hash\<rparr>)) w;
          (case call_malloc mal w of
             (w, Some b) \<Rightarrow> do {
               w \<leftarrow> put_rbnode (Ref a) (Some (junk\<lparr>key := hash, data := b\<rparr>)) w;
               Some (w\<lparr>vnodes := (vnodes w)(b \<mapsto> \<lparr>vn_hash = hash, vn_node = node\<rparr>)\<rparr>, Ref a) }
           | (w, None) \<Rightarrow> do {
               w \<leftarrow> put_rbnode (Ref a) None w;
               Some (w, NULL) }) })"

definition conhash_del_rbnode :: "ptr \<Rightarrow> heap \<Rightarrow> heap option" where
  "conhash_del_rbnode rbnode w = do {
     ch \<leftarrow> chash w;
     n \<leftarrow> mem (vnode_tree ch) rbnode;
     _ \<leftarrow> vnodes w (data n);
     put_rbnode rbnode None (w\<lparr>vnodes := (vnodes w)(data n := None)\<rparr>) }"

text \<open>One iteration of \<open>__conhash_add_replicas\<close> and of \<open>__conhash_del_replicas\<close>, then the loops.\<close>

definition add_replica :: "allocator \<Rightarrow> rbnode \<Rightarrow> nat \<Rightarrow> u32 \<Rightarrow> heap \<Rightarrow> heap option" where
  "add_replica mal junk node i w = do {
     nd \<leftarrow> nodes w node;
     buff \<leftarrow> conhash_node2string nd i;
     ch \<leftarrow> chash w;
     let hash = cb_hashfunc ch buff;
     found \<leftarrow> util_rbtree_search (vnode_tree ch) hash;
     (if found = NULL then do {
        (w, rbnode) \<leftarrow> conhash_get_rbnode mal junk node hash w;
        (if rbnode \<noteq> NULL then do {
           ch \<leftarrow> chash w;
           t \<leftarrow> util_rbtree_insert (vnode_tree ch) rbnode;
           Some (w\<lparr>chash := Some (ch\<lparr>vnode_tree := t, ivnodes := ivnodes ch + 1\<rparr>)\<rparr>) }
         else Some w) }
      else Some w) }"

definition del_replica :: "nat \<Rightarrow> u32 \<Rightarrow> heap \<Rightarrow> heap option" where
  "del_replica node i w = do {
     nd \<leftarrow> nodes w node;
     buff \<leftarrow> conhash_node2string nd i;
     ch \<leftarrow> chash w;
     let hash = cb_hashfunc ch buff;
     rbnode \<leftarrow> util_rbtree_search (vnode_tree ch) hash;
     (if rbnode \<noteq> NULL then do {
        n \<leftarrow> mem (vnode_tree ch) rbnode;
        vnode \<leftarrow> vnodes w (data n);
        (if vn_hash vnode = hash \<and> vn_node vnode = node then do {
           t \<leftarrow> util_rbtree_delete (vnode_tree ch) rbnode;
           conhash_del_rbnode rbnode
             (w\<lparr>chash := Some (ch\<lparr>ivnodes := ivnodes ch - 1, vnode_tree := t\<rparr>)\<rparr>) }
         else Some w) }
      else Some w) }"

fun for_replicas :: "(u32 \<Rightarrow> heap \<Rightarrow> heap option) \<Rightarrow> nat list \<Rightarrow> heap \<Rightarrow> heap option" where
  "for_replicas body [] w = Some w"
| "for_replicas body (i # is) w = do {
     w \<leftarrow> body (word_of_nat i) w;
     for_replicas body is w }"

definition conhash_add_replicas :: "allocator \<Rightarrow> rbnode \<Rightarrow> nat \<Rightarrow> heap \<Rightarrow> heap option" where
  "conhash_add_replicas mal junk node w = do {
     nd \<leftarrow> nodes w node;
     for_replicas (add_replica mal junk node) [0..<unat (replicas nd)] w }"

definition conhash_del_replicas :: "nat \<Rightarrow> heap \<Rightarrow> heap option" where
  "conhash_del_replicas node w = do {
     nd \<leftarrow> nodes w node;
     for_replicas (del_replica node) [0..<unat (replicas nd)] w }"

section \<open>The exported functions\<close>

text \<open>\<open>calloc\<close> clears the object; \<open>ok\<close> says whether there was memory for it.\<close>

definition conhash_init :: "(cstr \<Rightarrow> int) \<Rightarrow> (cstr \<Rightarrow> int) option \<Rightarrow> bool \<Rightarrow> heap \<Rightarrow> heap option" where
  "conhash_init hash_def pfhash ok w =
     (if \<not> ok then Some (w\<lparr>chash := None\<rparr>)
      else do {
        let cb = (case pfhash of Some f \<Rightarrow> f | None \<Rightarrow> hash_def);
        t \<leftarrow> util_rbtree_init \<lparr>root = NULL, rbtree.mem = [Sent \<mapsto> \<lparr>key = 0, parent = NULL,
                right = NULL, left = NULL, color = 0, data = 0\<rparr>], rbsize = 0\<rparr>;
        Some (w\<lparr>chash := Some \<lparr>vnode_tree = t, ivnodes = 0, cb_hashfunc = cb\<rparr>\<rparr>) })"

partial_function (option) fini_loop :: "heap \<Rightarrow> heap option" where
  "fini_loop w = do {
     ch \<leftarrow> chash w;
     (if util_rbtree_isempty (vnode_tree ch) then Some w
      else do {
        let rbnode = root (vnode_tree ch);
        t \<leftarrow> util_rbtree_delete (vnode_tree ch) rbnode;
        w \<leftarrow> conhash_del_rbnode rbnode (w\<lparr>chash := Some (ch\<lparr>vnode_tree := t\<rparr>)\<rparr>);
        fini_loop w }) }"

definition conhash_fini :: "heap \<Rightarrow> heap option" where
  "conhash_fini w =
     (if chash w \<noteq> None then do {
        w \<leftarrow> fini_loop w;
        Some (w\<lparr>chash := None\<rparr>) }
      else Some w)"

text \<open>\<open>strncpy\<close> into the first 63 of the 64 bytes, filling up with zeros.\<close>

definition strncpy63 :: "u8 list \<Rightarrow> cstr \<Rightarrow> u8 list" where
  "strncpy63 dest src = take 63 (src @ replicate 63 0) @ drop 63 dest"

definition conhash_set_node :: "node_s \<Rightarrow> cstr \<Rightarrow> u32 \<Rightarrow> node_s" where
  "conhash_set_node node idn replica =
     node\<lparr>iden := strncpy63 (iden node) idn, replicas := replica, flag := NODE_FLAG_INIT\<rparr>"

definition conhash_add_node :: "allocator \<Rightarrow> rbnode \<Rightarrow> nat \<Rightarrow> heap \<Rightarrow> (heap \<times> int) option" where
  "conhash_add_node mal junk node w =
     (if chash w = None \<or> node = 0 then Some (w, -1)
      else do {
        nd \<leftarrow> nodes w node;
        (if flag nd AND NODE_FLAG_INIT = 0 \<or> flag nd AND NODE_FLAG_IN \<noteq> 0 then Some (w, -1)
         else do {
           let w = w\<lparr>nodes := (nodes w)(node \<mapsto> nd\<lparr>flag := flag nd OR NODE_FLAG_IN\<rparr>)\<rparr>;
           w \<leftarrow> conhash_add_replicas mal junk node w;
           Some (w, 0) }) })"

definition conhash_del_node :: "nat \<Rightarrow> heap \<Rightarrow> (heap \<times> int) option" where
  "conhash_del_node node w =
     (if chash w = None \<or> node = 0 then Some (w, -1)
      else do {
        nd \<leftarrow> nodes w node;
        (if flag nd AND NODE_FLAG_INIT = 0 \<or> flag nd AND NODE_FLAG_IN = 0 then Some (w, -1)
         else do {
           let w = w\<lparr>nodes := (nodes w)(node \<mapsto> nd\<lparr>flag := flag nd AND NOT NODE_FLAG_IN\<rparr>)\<rparr>;
           w \<leftarrow> conhash_del_replicas node w;
           Some (w, 0) }) })"

definition conhash_lookup :: "heap \<Rightarrow> cstr option \<Rightarrow> nat option" where
  "conhash_lookup w object =
     (case (chash w, object) of
        (Some ch, Some obj) \<Rightarrow>
          if ivnodes ch = 0 then Some 0
          else do {
            let hash = cb_hashfunc ch obj;
            rbnode \<leftarrow> util_rbtree_lookup (vnode_tree ch) hash;
            (if rbnode \<noteq> NULL then do {
               n \<leftarrow> mem (vnode_tree ch) rbnode;
               vnode \<leftarrow> vnodes w (data n);
               Some (vn_node vnode) }
             else Some 0) }
      | _ \<Rightarrow> Some 0)"

text \<open>
  The callback \<open>__get_vnodes\<close>: the state is the array \<open>values\<close> and \<open>cur\<close>; a store outside the
  array has no result.
\<close>

definition get_vnodes_step :: "int \<Rightarrow> rbnode \<Rightarrow> (int list \<times> int) option \<Rightarrow> (int list \<times> int) option" where
  "get_vnodes_step sz node s = do {
     (values, cur) \<leftarrow> s;
     (if cur < sz then
        (if nat cur < length values then Some (values[nat cur := key node], cur + 1) else None)
      else Some (values, cur)) }"

definition conhash_get_vnodes :: "heap \<Rightarrow> int list option \<Rightarrow> int \<Rightarrow> int list option option" where
  "conhash_get_vnodes w values sz =
     (case (chash w, values) of
        (Some ch, Some vs) \<Rightarrow>
          if sz \<le> 0 then Some values
          else do {
            r \<leftarrow> util_rbtree_mid_travel (vnode_tree ch) (get_vnodes_step sz) (Some (vs, 0));
            (vs, cur) \<leftarrow> r;
            Some (Some vs) }
      | _ \<Rightarrow> Some values)"

definition conhash_get_vnodes_num :: "heap \<Rightarrow> u32" where
  "conhash_get_vnodes_num w = (case chash w of None \<Rightarrow> 0 | Some ch \<Rightarrow> ivnodes ch)"

end
