(* ===== verification/ConHashSpec.thy ===== *)
theory ConHashSpec
  imports Ring ConHash Md5Spec
begin

text \<open>
  What the consistent hash promises, and the refinement of the operations of \<open>conhash.c\<close> to it.

  The abstract ring is a finite map from positions to nodes.  An object at position \<open>h\<close> belongs to
  the node of the first occupied position from \<open>h\<close> on, round the ring.  Adding a node occupies
  those of its positions that are free; removing it frees those of its positions that it owns.

  \<open>ring_state b w m\<close> says that the memory \<open>w\<close> holds the ring \<open>m\<close>, in a tree with some entries
  \<open>xs\<close> (\<open>ring_rel\<close>): every entry has a virtual node of its own, and there is no other tree node
  and no other virtual node in the memory.  With \<open>b\<close> the tree may be inserted into, which is not
  so only for a tree that a deletion left with a single entry.
\<close>

section \<open>The abstract ring\<close>

definition succ_key :: "int set \<Rightarrow> int \<Rightarrow> int" where
  "succ_key K h = (if \<exists>k \<in> K. h \<le> k then Min {k \<in> K. h \<le> k} else Min K)"

definition owner :: "(int \<rightharpoonup> nat) \<Rightarrow> int \<Rightarrow> nat" where
  "owner m h = (if dom m = {} then 0 else the (m (succ_key (dom m) h)))"

definition add_keys :: "'n \<Rightarrow> int set \<Rightarrow> (int \<rightharpoonup> 'n) \<Rightarrow> (int \<rightharpoonup> 'n)" where
  "add_keys np H m = (\<lambda>k. if m k = None \<and> k \<in> H then Some np else m k)"

definition del_keys :: "'n \<Rightarrow> int set \<Rightarrow> (int \<rightharpoonup> 'n) \<Rightarrow> (int \<rightharpoonup> 'n)" where
  "del_keys np H m = (\<lambda>k. if m k = Some np \<and> k \<in> H then None else m k)"

lemma succ_key_cases:
  assumes "finite K" "K \<noteq> {}"
  shows "succ_key K h \<in> K \<and>
    (if \<exists>k \<in> K. h \<le> k then h \<le> succ_key K h \<and> (\<forall>k \<in> K. h \<le> k \<longrightarrow> succ_key K h \<le> k)
     else \<forall>k \<in> K. succ_key K h \<le> k)"
proof (cases "\<exists>k \<in> K. h \<le> k")
  case True
  let ?L = "{k \<in> K. h \<le> k}"
  have "finite ?L" "?L \<noteq> {}" using assms True by auto
  from Min_in [OF this] Min_le [OF this(1)] True show ?thesis by (auto simp: succ_key_def)
next
  case False
  with Min_in [OF assms] Min_le [OF assms(1)] show ?thesis by (auto simp: succ_key_def)
qed

lemma succ_key_unique:
  assumes "finite K" "k \<in> K"
    and "if \<exists>x \<in> K. h \<le> x then h \<le> k \<and> (\<forall>x \<in> K. h \<le> x \<longrightarrow> k \<le> x) else \<forall>x \<in> K. k \<le> x"
  shows "succ_key K h = k"
  using succ_key_cases [OF assms(1), of h] assms(2,3) by (fastforce split: if_splits)

lemma succ_key_subset:
  assumes "finite K" "L \<subseteq> K" "succ_key K h \<in> L"
  shows "succ_key L h = succ_key K h"
proof (rule succ_key_unique)
  have "K \<noteq> {}" using assms by auto
  from succ_key_cases [OF assms(1) this, of h] assms(2,3)
  show "if \<exists>x \<in> L. h \<le> x then h \<le> succ_key K h \<and> (\<forall>x \<in> L. h \<le> x \<longrightarrow> succ_key K h \<le> x)
        else \<forall>x \<in> L. succ_key K h \<le> x"
    by (auto split: if_splits)
qed (use assms finite_subset in auto)

lemma owner_sub:
  assumes "finite (dom m')" "m \<subseteq>\<^sub>m m'" "m (succ_key (dom m') h) \<noteq> None"
  shows "owner m h = owner m' h"
proof -
  let ?s = "succ_key (dom m') h"
  from assms(3) have s: "?s \<in> dom m" by auto
  moreover have "dom m \<subseteq> dom m'" using assms(2) by (rule map_le_implies_dom_le)
  ultimately have "succ_key (dom m) h = ?s" using succ_key_subset [OF assms(1)] by blast
  moreover have "m ?s = m' ?s" using s assms(2) by (auto simp: map_le_def)
  ultimately show ?thesis using s \<open>dom m \<subseteq> dom m'\<close> by (auto simp: owner_def)
qed

lemma dom_add_keys: "dom (add_keys np H m) = dom m \<union> H"
  by (auto simp: add_keys_def)

lemma add_keys_le: "m \<subseteq>\<^sub>m add_keys np H m"
  by (auto simp: add_keys_def map_le_def)

lemma del_keys_le: "del_keys np H m \<subseteq>\<^sub>m m"
  by (auto simp: del_keys_def map_le_def)

lemma finite_del_keys: "finite (dom m) \<Longrightarrow> finite (dom (del_keys np H m))"
  using map_le_implies_dom_le [OF del_keys_le] by (rule finite_subset)

lemma owner_add_keys:
  assumes "finite (dom m)" "finite H"
  shows "owner (add_keys np H m) h = owner m h \<or> owner (add_keys np H m) h = np"
proof (cases "m (succ_key (dom (add_keys np H m)) h)")
  case (Some x)
  have "finite (dom (add_keys np H m))" using assms by (simp add: dom_add_keys)
  from owner_sub [OF this add_keys_le] Some show ?thesis by simp
next
  case None
  show ?thesis
  proof (cases "dom (add_keys np H m) = {}")
    case True
    then show ?thesis by (auto simp: owner_def dom_add_keys)
  next
    case False
    let ?s = "succ_key (dom (add_keys np H m)) h"
    have "finite (dom (add_keys np H m))" using assms by (simp add: dom_add_keys)
    from succ_key_cases [OF this False, of h] have "?s \<in> dom m \<union> H" by (simp add: dom_add_keys)
    with None have "add_keys np H m ?s = Some np" by (auto simp: add_keys_def)
    with False show ?thesis by (simp add: owner_def)
  qed
qed

lemma owner_del_keys:
  assumes "finite (dom m)" "owner m h \<noteq> np"
  shows "owner (del_keys np H m) h = owner m h"
proof (cases "dom m = {}")
  case True
  then show ?thesis by (simp add: del_keys_def)
next
  case False
  from succ_key_cases [OF assms(1) False, of h] assms(2) False
  have "del_keys np H m (succ_key (dom m) h) \<noteq> None" by (auto simp: owner_def del_keys_def)
  with owner_sub [OF assms(1) del_keys_le] show ?thesis by blast
qed

lemma owner_in:
  assumes "finite (dom m)" "dom m \<noteq> {}"
  shows "\<exists>k. m k = Some (owner m h)"
  using succ_key_cases [OF assms, of h] assms(2) by (auto simp: owner_def)

lemma del_add_keys: "np \<notin> ran m \<Longrightarrow> del_keys np H (add_keys np H m) = m"
  by (auto simp: add_keys_def del_keys_def ran_def)

lemma add_keys_insert:
  "add_keys np (insert h H) m =
     (if add_keys np H m h = None then (add_keys np H m)(h \<mapsto> np) else add_keys np H m)"
  by (rule ext) (auto simp: add_keys_def)

lemma del_keys_insert:
  "del_keys np (insert h H) m =
     (if del_keys np H m h = Some np then (del_keys np H m)(h := None) else del_keys np H m)"
  by (rule ext) (auto simp: del_keys_def)

section \<open>The memory of a ring\<close>

abbreviation edata :: "entry \<Rightarrow> nat" where
  "edata e \<equiv> snd (snd e)"

definition tree_ok :: "bool \<Rightarrow> rbtree \<Rightarrow> entry list \<Rightarrow> bool" where
  "tree_ok b t xs \<longleftrightarrow> rb_ring0 t xs \<and> (b \<or> length xs \<noteq> 1 \<longrightarrow> rb_ring t xs) \<and>
     dom (mem t) = insert Sent (fst ` set xs)"

definition entries_ok :: "entry list \<Rightarrow> (nat \<rightharpoonup> virtual_node_s) \<Rightarrow> (int \<rightharpoonup> nat) \<Rightarrow> bool" where
  "entries_ok xs vns m \<longleftrightarrow> distinct (map ekey xs) \<and> distinct (map edata xs) \<and>
     dom m = ekey ` set xs \<and> dom vns = edata ` set xs \<and>
     (\<forall>(p, k, d) \<in> set xs. \<exists>np. m k = Some np \<and> vns d = Some \<lparr>vn_hash = k, vn_node = np\<rparr>)"

definition ring_rel :: "bool \<Rightarrow> heap \<Rightarrow> entry list \<Rightarrow> (int \<rightharpoonup> nat) \<Rightarrow> bool" where
  "ring_rel b w xs m \<longleftrightarrow>
     (\<exists>ch. chash w = Some ch \<and> tree_ok b (vnode_tree ch) xs \<and> ivnodes ch = of_nat (length xs)) \<and>
     entries_ok xs (vnodes w) m \<and> finite (dom (nodes w))"

definition ring_state :: "bool \<Rightarrow> heap \<Rightarrow> (int \<rightharpoonup> nat) \<Rightarrow> bool" where
  "ring_state b w m \<longleftrightarrow> (\<exists>xs. ring_rel b w xs m)"

definition hashf :: "heap \<Rightarrow> (cstr \<Rightarrow> int) option" where
  "hashf w = map_option cb_hashfunc (chash w)"

text \<open>The contract of \<open>malloc\<close>: what it returns is not in use; with memory left it does return.\<close>

definition malloc_fresh :: "allocator \<Rightarrow> bool" where
  "malloc_fresh mal \<longleftrightarrow> (\<forall>t L a. mal t L = Some a \<longrightarrow> \<not> L a)"

definition malloc_serves :: "allocator \<Rightarrow> bool" where
  "malloc_serves mal \<longleftrightarrow> (\<forall>t L. finite {a. L a} \<longrightarrow> mal t L \<noteq> None)"

lemma ring_rel_card: "ring_rel b w xs m \<Longrightarrow> card (dom m) = length xs \<and> finite (dom m)"
  unfolding ring_rel_def entries_ok_def by (auto simp: card_set distinct_card simp flip: set_map)

lemma ring_state_finite: "ring_state b w m \<Longrightarrow> finite (dom m)"
  using ring_rel_card unfolding ring_state_def by blast

lemma ring_state_weaken: "ring_state b w m \<Longrightarrow> ring_state False w m"
  by (auto simp: ring_state_def ring_rel_def tree_ok_def)

lemma ring_state_clean: "ring_state b w m \<Longrightarrow> card (dom m) \<noteq> 1 \<Longrightarrow> ring_state True w m"
  unfolding ring_state_def using ring_rel_card by (fastforce simp: ring_rel_def tree_ok_def)

text \<open>The successor in the tree is the successor on the abstract ring.\<close>

lemma ring_succ_owner:
  assumes "sorted (map ekey xs)" "xs \<noteq> []" "entries_ok xs vns m"
  shows "\<exists>k d. (ring_succ h xs, k, d) \<in> set xs \<and> vns d = Some \<lparr>vn_hash = k, vn_node = owner m h\<rparr>"
proof -
  have "(\<lambda>(a, k, d). k) = (ekey :: entry \<Rightarrow> int)" by (simp add: fun_eq_iff)
  with ring_succ_least [of xs h] assms(1,2) obtain k d where kd: "(ring_succ h xs, k, d) \<in> set xs"
    "if \<exists>x \<in> set xs. h \<le> ekey x then h \<le> k \<and> (\<forall>x \<in> set xs. h \<le> ekey x \<longrightarrow> k \<le> ekey x)
     else \<forall>x \<in> set xs. k \<le> ekey x" by auto
  have dom: "dom m = ekey ` set xs" using assms(3) by (simp add: entries_ok_def)
  have "succ_key (dom m) h = k"
    by (rule succ_key_unique) (use kd in \<open>auto simp: dom image_iff split: if_splits intro!: bexI [of _ "(ring_succ h xs, k, d)"]\<close>)
  with kd(1) assms(3) dom assms(2) show ?thesis
    unfolding entries_ok_def owner_def by fastforce
qed

end
