(* ===== verification/ConHashRefine.thy ===== *)
theory ConHashRefine
  imports ConHashSpec
begin

text \<open>
  The operations of \<open>conhash.c\<close> and \<open>conhash_inter.c\<close> on a memory that holds a ring: each returns,
  keeps the invariant and does to the abstract ring what \<open>ConHashSpec\<close> says.  The tree is used
  through the laws of the interface \<open>key_ring\<close> only.
\<close>

section \<open>Allocation\<close>

lemma finite_live:
  assumes "ring_rel b w xs m"
  shows "finite {a. live w a}"
proof -
  obtain ch where ch: "chash w = Some ch" "tree_ok b (vnode_tree ch) xs" using assms by (auto simp: ring_rel_def)
  have "finite (dom (mem (vnode_tree ch)))" using ch(2) by (simp add: tree_ok_def)
  moreover have "{a. mem (vnode_tree ch) (Ref a) \<noteq> None} = Ref -` dom (mem (vnode_tree ch))" by auto
  ultimately have "finite {a. mem (vnode_tree ch) (Ref a) \<noteq> None}"
    by (simp add: finite_vimageI inj_def)
  moreover have "finite (dom (vnodes w))" using assms by (simp add: ring_rel_def entries_ok_def)
  moreover have "finite (dom (nodes w))" using assms by (simp add: ring_rel_def)
  moreover have "{a. live w a} = dom (vnodes w) \<union> dom (nodes w) \<union> {a. mem (vnode_tree ch) (Ref a) \<noteq> None}"
    using ch(1) by (auto simp: live_def)
  ultimately show ?thesis by simp
qed

lemma malloc_freshD: "malloc_fresh mal \<Longrightarrow> mal t L = Some a \<Longrightarrow> \<not> L a"
  unfolding malloc_fresh_def by blast

lemma put_rbnode_upd:
  "chash w = Some ch \<Longrightarrow>
   put_rbnode p n w = Some (w\<lparr>chash := Some (ch\<lparr>vnode_tree := rb_upd p n (vnode_tree ch)\<rparr>)\<rparr>)"
  by (simp add: put_rbnode_def set_tree_def rb_upd_def)

lemma rb_upd_twice: "rb_upd p n (rb_upd p n' t) = rb_upd p n t"
  by (simp add: rb_upd_def)

lemma rb_upd_same: "mem t p = n \<Longrightarrow> rb_upd p n t = t"
  by (auto simp: rb_upd_def)

lemma get_rbnode_runs:
  assumes ch: "chash w = Some ch" and mal: "malloc_fresh mal"
  shows "(\<exists>c. conhash_get_rbnode mal junk np h w = Some (w\<lparr>clock := c\<rparr>, NULL) \<and>
            \<not> (malloc_serves mal \<and> finite {a. live w a})) \<or>
     (\<exists>c a b. conhash_get_rbnode mal junk np h w =
        Some (w\<lparr>chash := Some (ch\<lparr>vnode_tree := rb_upd (Ref a) (Some (junk\<lparr>key := h, data := b\<rparr>)) (vnode_tree ch)\<rparr>),
                vnodes := (vnodes w)(b \<mapsto> \<lparr>vn_hash = h, vn_node = np\<rparr>), clock := c\<rparr>, Ref a) \<and>
        mem (vnode_tree ch) (Ref a) = None \<and> vnodes w b = None)"
proof (cases "mal (clock w) (live w)")
  case None
  then show ?thesis by (auto simp: conhash_get_rbnode_def call_malloc_def malloc_serves_def)
next
  case (Some a)
  then have a: "\<not> live w a" by (rule malloc_freshD [OF mal])
  then have free: "mem (vnode_tree ch) (Ref a) = None" using ch by (simp add: live_def)
  define w1 where "w1 = w\<lparr>clock := clock w + 1,
    chash := Some (ch\<lparr>vnode_tree := rb_upd (Ref a) (Some (junk\<lparr>key := h\<rparr>)) (vnode_tree ch)\<rparr>)\<rparr>"
  have put: "put_rbnode (Ref a) (Some (junk\<lparr>key := h\<rparr>)) (w\<lparr>clock := Suc (clock w)\<rparr>) = Some w1"
    by (subst put_rbnode_upd [of _ ch]) (simp_all add: ch w1_def)
  have "{b. live w1 b} \<subseteq> insert a {b. live w b}"
    using ch by (auto simp: live_def w1_def rb_upd_def)
  then have fin: "finite {b. live w b} \<Longrightarrow> finite {b. live w1 b}"
    using finite_subset by blast
  show ?thesis
  proof (cases "mal (clock w1) (live w1)")
    case None
    have "\<not> (malloc_serves mal \<and> finite {a. live w a})"
      using None fin unfolding malloc_serves_def by blast
    moreover have "conhash_get_rbnode mal junk np h w = Some (w\<lparr>clock := clock w + 2\<rparr>, NULL)"
      using Some None put free ch
      by (simp add: conhash_get_rbnode_def call_malloc_def put_rbnode_upd w1_def rb_upd_twice rb_upd_same)
    ultimately show ?thesis by blast
  next
    case (Some b)
    then have "\<not> live w1 b" by (rule malloc_freshD [OF mal])
    then have "vnodes w b = None" by (simp add: live_def w1_def)
    with Some \<open>mal (clock w) (live w) = Some a\<close> put free ch show ?thesis
      by (intro disjI2 exI [of _ "clock w + 2"] exI [of _ a] exI [of _ b])
        (simp add: conhash_get_rbnode_def call_malloc_def put_rbnode_upd w1_def rb_upd_twice)
  qed
qed

section \<open>One entry more, one entry less\<close>

lemma entries_okD:
  assumes "entries_ok xs vns m"
  shows "distinct (map ekey xs)" "distinct (map edata xs)" "dom m = ekey ` set xs" "dom vns = edata ` set xs"
    "(p, k, d) \<in> set xs \<Longrightarrow> \<exists>np. m k = Some np \<and> vns d = Some \<lparr>vn_hash = k, vn_node = np\<rparr>"
  using assms unfolding entries_ok_def by auto

lemma entries_insert:
  assumes "entries_ok xs vns m" "h \<notin> dom m" "vns b = None"
  shows "entries_ok (ins_list (p, h, b) xs) (vns(b \<mapsto> \<lparr>vn_hash = h, vn_node = np\<rparr>)) (m(h \<mapsto> np))"
proof -
  have k: "h \<notin> ekey ` set xs" and b: "b \<notin> edata ` set xs"
    using assms unfolding entries_ok_def by auto
  then have "d \<noteq> b \<and> k \<noteq> h" if "(p, k, d) \<in> set xs" for p k d using that by force
  with assms k b show ?thesis
    unfolding entries_ok_def by (auto simp: set_ins_list distinct_ins_list)
qed

lemma entries_delete:
  assumes "entries_ok xs vns m" "(p, h, b) \<in> set xs" "distinct (map fst xs)"
  shows "entries_ok (filter (\<lambda>e. fst e \<noteq> p) xs) (vns(b := None)) (m(h := None))"
proof -
  let ?xs = "filter (\<lambda>e. fst e \<noteq> p) xs"
  have same: "e = (p, h, b)" if "e \<in> set xs" "fst e = p \<or> ekey e = h \<or> edata e = b" for e
    using that(2)
  proof (elim disjE)
    assume "fst e = p" then show ?thesis by (intro distinct_same [OF assms(3) that(1) assms(2)]) simp
  next
    assume "ekey e = h"
    then show ?thesis by (intro distinct_same [OF entries_okD(1) [OF assms(1)] that(1) assms(2)]) simp
  next
    assume "edata e = b"
    then show ?thesis by (intro distinct_same [OF entries_okD(2) [OF assms(1)] that(1) assms(2)]) simp
  qed
  have "e \<in> set ?xs \<longleftrightarrow> e \<in> set xs \<and> e \<noteq> (p, h, b)" for e
    using same [of e] by auto
  then have set: "set ?xs = set xs - {(p, h, b)}" by blast
  have "f ` set ?xs = f ` set xs - {f (p, h, b)}" if "distinct (map f xs)" for f :: "entry \<Rightarrow> 'x"
    using inj_on_image_set_diff [of f "set xs" "set xs" "{(p, h, b)}"] that assms(2)
    unfolding set by (auto simp: distinct_map)
  from this [OF entries_okD(1) [OF assms(1)]] this [OF entries_okD(2) [OF assms(1)]]
  have images: "ekey ` set ?xs = ekey ` set xs - {h}" "edata ` set ?xs = edata ` set xs - {b}" by simp_all
  have d: "distinct (map ekey ?xs)" "distinct (map edata ?xs)"
    using entries_okD(1,2) [OF assms(1)] by (simp_all add: distinct_map_filter)
  have "\<exists>np. (m(h := None)) k = Some np \<and> (vns(b := None)) d = Some \<lparr>vn_hash = k, vn_node = np\<rparr>"
    if "(q, k, d) \<in> set ?xs" for q k d
  proof -
    have "(q, k, d) \<in> set xs" "q \<noteq> p" using that by auto
    moreover from this same [of "(q, k, d)"] have "k \<noteq> h" "d \<noteq> b" by auto
    ultimately show ?thesis using entries_okD(5) [OF assms(1), of q k d] by simp
  qed
  with d images entries_okD(3,4) [OF assms(1)] show ?thesis
    unfolding entries_ok_def by auto
qed

lemma length_ins_list: "length (ins_list x xs) = Suc (length xs)"
  by (induction xs) auto

lemma tree_ok_ring: "tree_ok b t xs \<Longrightarrow> rb_ring0 t xs" "tree_ok True t xs \<Longrightarrow> rb_ring t xs"
  by (simp_all add: tree_ok_def)

lemma tree_ok_fresh: "tree_ok b t xs \<Longrightarrow> mem t p = None \<Longrightarrow> p \<notin> fst ` set xs"
  unfolding tree_ok_def by blast

lemma tree_ok_insert:
  assumes "tree_ok True t xs" "mem t p = None" "p \<noteq> NULL" "p \<noteq> Sent"
  shows "\<exists>t'. util_rbtree_insert (rb_upd p (Some n) t) p = Some t' \<and>
    tree_ok b t' (ins_list (p, key n, data n) xs)"
proof -
  have p: "p \<notin> fst ` set xs" using assms(1,2) by (rule tree_ok_fresh)
  let ?t = "rb_upd p (Some n) t"
  have "rb_ring ?t xs" using rb.store [OF tree_ok_ring(2) [OF assms(1)] p assms(4,3)] .
  from rb.insert [OF this, of p n] p assms(4) obtain t' where "util_rbtree_insert ?t p = Some t'"
    "rb_ring t' (ins_list (p, key n, data n) xs)" "dom (mem t') = dom (mem ?t)"
    by (auto simp: rb_upd_def)
  moreover from this(2) have "rb_ring0 t' (ins_list (p, key n, data n) xs)" by (rule rb.weaken)
  ultimately show ?thesis using assms(1) by (auto simp: tree_ok_def rb_upd_def set_ins_list)
qed

lemma tree_ok_delete:
  assumes T: "tree_ok b t xs" and p: "(p, h, d) \<in> set xs"
  shows "\<exists>t' n. util_rbtree_delete t p = Some t' \<and> mem t' p = Some n \<and> data n = d \<and>
    tree_ok False (rb_upd p None t') (filter (\<lambda>e. fst e \<noteq> p) xs)"
proof -
  note R = tree_ok_ring(1) [OF T]
  have pin: "p \<in> fst ` set xs" using p by force
  let ?xs = "filter (\<lambda>e. fst e \<noteq> p) xs"
  from rb.entry [OF R p] obtain n0 where n0: "p \<noteq> NULL" "p \<noteq> Sent" "mem t p = Some n0" "data n0 = d" by auto
  from rb.delete [OF R pin] obtain t' where t': "util_rbtree_delete t p = Some t'" "rb_ring0 t' ?xs"
    "rb_ring t xs \<longrightarrow> length xs \<noteq> 2 \<longrightarrow> rb_ring t' ?xs" "dom (mem t') = dom (mem t)"
    "map_option data (mem t' p) = map_option data (mem t p)" by auto
  from t'(5) n0 obtain n where n: "mem t' p = Some n" "data n = d" by auto
  have notin: "p \<notin> fst ` set ?xs" by auto
  have clean: "rb_ring t' ?xs" if "length ?xs \<noteq> 1"
  proof -
    from filter_distinct_entry [OF conjunct2 [OF rb.order [OF R]] pin] that
    have l: "length xs \<noteq> 2" "length ?xs = length xs - 1" by auto
    show ?thesis
    proof (cases "length xs = 1")
      case True
      with l(2) have "?xs = []" by simp
      with t'(2) show ?thesis by (metis rb.empty)
    next
      case False
      with T l(1) t'(3) show ?thesis by (simp add: tree_ok_def)
    qed
  qed
  have "rb_ring0 (rb_upd p None t') ?xs" by (rule rb.store0 [OF t'(2) notin n0(2,1)])
  moreover have "rb_ring (rb_upd p None t') ?xs" if "length ?xs \<noteq> 1"
    by (rule rb.store [OF clean [OF that] notin n0(2,1)])
  moreover have "dom (mem (rb_upd p None t')) = insert Sent (fst ` set ?xs)"
    using t'(4) T n0(2) by (auto simp: tree_ok_def rb_upd_def)
  ultimately show ?thesis using t'(1) n by (auto simp: tree_ok_def)
qed

section \<open>Adding and removing replicas\<close>

text \<open>What every step on the ring leaves alone.\<close>

definition same_nodes :: "heap \<Rightarrow> heap \<Rightarrow> bool" where
  "same_nodes w w' \<longleftrightarrow> nodes w' = nodes w \<and> hashf w' = hashf w"

lemma same_nodes_refl [simp]: "same_nodes w w"
  by (simp add: same_nodes_def)

lemma ring_relE:
  assumes "ring_rel b w xs m"
  obtains ch where "chash w = Some ch" "tree_ok b (vnode_tree ch) xs" "ivnodes ch = of_nat (length xs)"
    "entries_ok xs (vnodes w) m" "finite (dom (nodes w))"
  using assms by (auto simp: ring_rel_def)

lemma ring_search:
  assumes "tree_ok b t xs" "entries_ok xs vns m"
  shows "\<exists>p. util_rbtree_search t h = Some p \<and>
     (if h \<in> dom m then p \<noteq> NULL \<and> (\<exists>d. (p, h, d) \<in> set xs) else p = NULL)"
  using rb.search [OF tree_ok_ring(1) [OF assms(1)], of h] rb.entry [OF tree_ok_ring(1) [OF assms(1)]] assms(2)
  unfolding entries_ok_def by (metis (no_types, lifting))

lemma add_replica_runs:
  assumes "ring_state True w m" "malloc_fresh mal" "nodes w np = Some nd" "conhash_node2string nd i = Some s"
    "hashf w = Some f"
  shows "runs (add_replica mal junk np i w) (\<lambda>w'. same_nodes w w' \<and>
     (ring_state True w' m \<and> (m (f s) \<noteq> None \<or> \<not> malloc_serves mal) \<or>
      ring_state True w' (m(f s \<mapsto> np)) \<and> m (f s) = None))"
proof -
  from assms(1) obtain xs where R: "ring_rel True w xs m" by (auto simp: ring_state_def)
  then obtain ch where ch: "chash w = Some ch" "tree_ok True (vnode_tree ch) xs" "ivnodes ch = of_nat (length xs)"
    and E: "entries_ok xs (vnodes w) m" and fin: "finite (dom (nodes w))" by (rule ring_relE)
  have f: "cb_hashfunc ch = f" using assms(5) ch(1) by (simp add: hashf_def)
  from ring_search [OF ch(2) E, of "f s"] obtain p where p: "util_rbtree_search (vnode_tree ch) (f s) = Some p"
    "if f s \<in> dom m then p \<noteq> NULL else p = NULL" by metis
  note start = add_replica_def assms(3,4) ch(1) f p(1)
  show ?thesis
  proof (cases "m (f s)")
    case (Some x)
    with p(2) have "add_replica mal junk np i w = Some w" by (simp add: start domIff)
    with Some assms(1) show ?thesis by simp
  next
    case None
    with p(2) have [simp]: "p = NULL" by (simp add: domIff)
    from get_rbnode_runs [OF ch(1) assms(2), of junk np "f s"]
    consider (fail) c where "conhash_get_rbnode mal junk np (f s) w = Some (w\<lparr>clock := c\<rparr>, NULL)"
        "\<not> malloc_serves mal"
      | (ok) c a b where "conhash_get_rbnode mal junk np (f s) w =
        Some (w\<lparr>chash := Some (ch\<lparr>vnode_tree := rb_upd (Ref a) (Some (junk\<lparr>key := f s, data := b\<rparr>)) (vnode_tree ch)\<rparr>),
                vnodes := (vnodes w)(b \<mapsto> \<lparr>vn_hash = f s, vn_node = np\<rparr>), clock := c\<rparr>, Ref a)"
        "mem (vnode_tree ch) (Ref a) = None" "vnodes w b = None"
      using finite_live [OF R] by blast
    then show ?thesis
    proof cases
      case fail
      then have "add_replica mal junk np i w = Some (w\<lparr>clock := c\<rparr>)" by (simp add: start)
      with fail(2) assms(1) show ?thesis
        by (simp add: ring_state_def ring_rel_def same_nodes_def hashf_def)
    next
      case ok
      from tree_ok_insert [OF ch(2) ok(2), of "junk\<lparr>key := f s, data := b\<rparr>"] obtain t' where
        t': "util_rbtree_insert (rb_upd (Ref a) (Some (junk\<lparr>key := f s, data := b\<rparr>)) (vnode_tree ch)) (Ref a) = Some t'"
          "tree_ok True t' (ins_list (Ref a, f s, b) xs)" by auto
      from entries_insert [OF E _ ok(3), of "f s" "Ref a" np] None
      have "entries_ok (ins_list (Ref a, f s, b) xs) ((vnodes w)(b \<mapsto> \<lparr>vn_hash = f s, vn_node = np\<rparr>)) (m(f s \<mapsto> np))"
        by auto
      with t' fin show ?thesis
        using None by (simp add: start ok(1) same_nodes_def hashf_def ring_state_def ring_rel_def)
          (intro disjI2 exI [of _ "ins_list (Ref a, f s, b) xs"], simp add: length_ins_list ch(3))
    qed
  qed
qed

lemma del_replica_runs:
  assumes "ring_state b w m" "nodes w np = Some nd" "conhash_node2string nd i = Some s" "hashf w = Some f"
  shows "runs (del_replica np i w) (\<lambda>w'. same_nodes w w' \<and>
     ring_state False w' (if m (f s) = Some np then m(f s := None) else m))"
proof -
  from assms(1) obtain xs where R: "ring_rel b w xs m" by (auto simp: ring_state_def)
  then obtain ch where ch: "chash w = Some ch" "tree_ok b (vnode_tree ch) xs" "ivnodes ch = of_nat (length xs)"
    and E: "entries_ok xs (vnodes w) m" and fin: "finite (dom (nodes w))" by (rule ring_relE)
  have f: "cb_hashfunc ch = f" using assms(4) ch(1) by (simp add: hashf_def)
  note skip = ring_state_weaken [OF assms(1)]
  from ring_search [OF ch(2) E, of "f s"] obtain p where p: "util_rbtree_search (vnode_tree ch) (f s) = Some p"
    "if f s \<in> dom m then p \<noteq> NULL \<and> (\<exists>d. (p, f s, d) \<in> set xs) else p = NULL" by metis
  note start = del_replica_def assms(2,3) ch(1) f p(1)
  show ?thesis
  proof (cases "m (f s)")
    case None
    with p(2) have "del_replica np i w = Some w" by (simp add: start domIff)
    with None skip show ?thesis by simp
  next
    case (Some x)
    then have "f s \<in> dom m" by auto
    with p(2) obtain d where d: "p \<noteq> NULL" "(p, f s, d) \<in> set xs" by auto
    from rb.entry [OF tree_ok_ring(1) [OF ch(2)] d(2)] obtain n where n: "mem (vnode_tree ch) p = Some n"
      "data n = d" by auto
    from entries_okD(5) [OF E d(2)] Some have v: "vnodes w d = Some \<lparr>vn_hash = f s, vn_node = x\<rparr>" by auto
    show ?thesis
    proof (cases "x = np")
      case False
      with d n v have "del_replica np i w = Some w" by (simp add: start)
      with False Some skip show ?thesis by simp
    next
      case True
      from tree_ok_delete [OF ch(2) d(2)] obtain t' n' where t': "util_rbtree_delete (vnode_tree ch) p = Some t'"
        "mem t' p = Some n'" "data n' = d" "tree_ok False (rb_upd p None t') (filter (\<lambda>e. fst e \<noteq> p) xs)"
        by auto
      note order = conjunct2 [OF rb.order [OF tree_ok_ring(1) [OF ch(2)]]]
      have "p \<in> fst ` set xs" using d(2) by force
      from filter_distinct_entry [OF order this] d(2)
      have len: "of_nat (length xs) - 1 = (of_nat (length (filter (\<lambda>e. fst e \<noteq> p) xs)) :: u32)"
        by (cases xs) auto
      have "ring_rel False (w\<lparr>vnodes := (vnodes w)(d := None),
          chash := Some (ch\<lparr>ivnodes := ivnodes ch - 1, vnode_tree := rb_upd p None t'\<rparr>)\<rparr>) (filter (\<lambda>e. fst e \<noteq> p) xs) (m(f s := None))"
        using t'(4) entries_delete [OF E d(2) order] fin by (simp add: ring_rel_def ch(3) len)
      then show ?thesis
        using Some True d n v t'
        by (auto simp: start conhash_del_rbnode_def put_rbnode_def set_tree_def rb_upd_def same_nodes_def
            hashf_def ring_state_def)
    qed
  qed
qed

text \<open>The loops over the replicas, with an invariant on the indices done.\<close>

lemma for_replicas_runs:
  assumes step: "\<And>is i w. i \<in> set js \<Longrightarrow> P is w \<Longrightarrow> runs (body (word_of_nat i) w) (P (is @ [i]))"
    and "P is w"
  shows "runs (for_replicas body js w) (P (is @ js))"
  using assms
proof (induction js arbitrary: "is" w)
  case (Cons j js)
  show ?case
    unfolding for_replicas.simps
  proof (rule runs_bind)
    show "runs (body (word_of_nat j) w) (P (is @ [j]))" using Cons.prems by simp
    fix w' assume "P (is @ [j]) w'"
    with Cons.IH [of "is @ [j]" w'] Cons.prems(1) show "runs (for_replicas body js w') (P (is @ j # js))"
      by simp
  qed
qed simp

text \<open>The positions of the replicas of a node, up to the first \<open>n\<close>.\<close>

definition replica_pos :: "(cstr \<Rightarrow> int) \<Rightarrow> node_s \<Rightarrow> nat \<Rightarrow> int" where
  "replica_pos f nd i = f (the (conhash_node2string nd (word_of_nat i)))"

definition positions :: "(cstr \<Rightarrow> int) \<Rightarrow> node_s \<Rightarrow> int set" where
  "positions f nd = replica_pos f nd ` {0..<unat (replicas nd)}"

lemma finite_positions: "finite (positions f nd)"
  by (simp add: positions_def)

lemma card_positions: "card (positions f nd) \<le> unat (replicas nd)"
  using card_image_le [of "{0..<unat (replicas nd)}" "replica_pos f nd"] by (simp add: positions_def)

lemma positions_flag: "positions f (nd\<lparr>flag := x\<rparr>) = positions f nd"
  by (simp add: positions_def replica_pos_def conhash_node2string_def)

lemma node2string_some: "0 \<in> set (iden nd) \<Longrightarrow> \<exists>s. conhash_node2string nd i = Some s"
  by (simp add: conhash_node2string_def cstr_of_def)

text \<open>
  Adding the replicas: the ring grows by positions of the node only, and by all that were free if
  the allocator never fails.
\<close>

definition grown :: "bool \<Rightarrow> nat \<Rightarrow> int set \<Rightarrow> (int \<rightharpoonup> nat) \<Rightarrow> (int \<rightharpoonup> nat) \<Rightarrow> bool" where
  "grown served np H m m' \<longleftrightarrow>
     (\<forall>k. if m k = None \<and> k \<in> H then m' k = Some np \<or> \<not> served \<and> m' k = None else m' k = m k)"

lemma grown_refl: "grown served np {} m m"
  by (simp add: grown_def)

lemma grown_kept:
  assumes "grown served np H m m'" "m' h \<noteq> None \<or> \<not> served"
  shows "grown served np (insert h H) m m'"
  unfolding grown_def
proof
  fix k
  from assms(1) have "if m k = None \<and> k \<in> H then m' k = Some np \<or> \<not> served \<and> m' k = None else m' k = m k"
    unfolding grown_def by blast
  with assms(2) show "if m k = None \<and> k \<in> insert h H then m' k = Some np \<or> \<not> served \<and> m' k = None else m' k = m k"
    by (auto split: if_splits)
qed

lemma grown_added:
  assumes "grown served np H m m'" "m' h = None"
  shows "grown served np (insert h H) m (m'(h \<mapsto> np))"
proof -
  have "m h = None" using assms unfolding grown_def by (metis option.distinct(1))
  with assms(1) show ?thesis unfolding grown_def by auto
qed

lemma grown_served: "grown True np H m m' \<longleftrightarrow> m' = add_keys np H m"
  unfolding grown_def add_keys_def by (auto simp: fun_eq_iff)

lemma grown_add_keys:
  assumes "grown served np H m m'"
  shows "\<exists>H'. H' \<subseteq> H \<and> m' = add_keys np H' m"
proof (intro exI conjI ext)
  fix k
  show "{k \<in> H. m k = None \<and> m' k \<noteq> None} \<subseteq> H" by blast
  have "if m k = None \<and> k \<in> H then m' k = Some np \<or> \<not> served \<and> m' k = None else m' k = m k"
    using assms unfolding grown_def by blast
  then show "m' k = add_keys np {k \<in> H. m k = None \<and> m' k \<noteq> None} m k"
    by (cases "m k"; cases "m' k"; cases "k \<in> H") (simp_all add: add_keys_def)
qed

lemma conhash_add_replicas_runs:
  assumes "ring_state True w m" "malloc_fresh mal" "nodes w np = Some nd" "0 \<in> set (iden nd)" "hashf w = Some f"
  shows "runs (conhash_add_replicas mal junk np w) (\<lambda>w'. same_nodes w w' \<and>
     (\<exists>m'. ring_state True w' m' \<and> grown (malloc_serves mal) np (positions f nd) m m'))"
proof -
  define P where "P = (\<lambda>is w'. same_nodes w w' \<and>
     (\<exists>m'. ring_state True w' m' \<and> grown (malloc_serves mal) np (replica_pos f nd ` set is) m m'))"
  have "runs (for_replicas (add_replica mal junk np) [0..<unat (replicas nd)] w) (P ([] @ [0..<unat (replicas nd)]))"
  proof (rule for_replicas_runs)
    show "P [] w" using assms(1) grown_refl by (auto simp: P_def)
    fix "is" i w' assume "P is w'"
    then obtain m' where P: "same_nodes w w'" "ring_state True w' m'"
      "grown (malloc_serves mal) np (replica_pos f nd ` set is) m m'" by (auto simp: P_def)
    obtain s where s: "conhash_node2string nd (word_of_nat i) = Some s"
      using node2string_some [OF assms(4)] by blast
    then have h: "f s = replica_pos f nd i" by (simp add: replica_pos_def)
    have "nodes w' np = Some nd" "hashf w' = Some f" using P(1) assms(3,5) by (simp_all add: same_nodes_def)
    from add_replica_runs [OF P(2) assms(2) this(1) s this(2), of junk]
    show "runs (add_replica mal junk np (word_of_nat i) w') (P (is @ [i]))"
      by (rule runs_conseq) (use P grown_kept [OF P(3)] grown_added [OF P(3)] in
          \<open>auto simp: P_def h same_nodes_def\<close>)
  qed
  then show ?thesis
    using assms(3) by (simp add: conhash_add_replicas_def P_def positions_def)
qed

lemma conhash_del_replicas_runs:
  assumes "ring_state b w m" "nodes w np = Some nd" "0 \<in> set (iden nd)" "hashf w = Some f"
  shows "runs (conhash_del_replicas np w) (\<lambda>w'. same_nodes w w' \<and>
     ring_state False w' (del_keys np (positions f nd) m))"
proof -
  define P where "P = (\<lambda>is w'. same_nodes w w' \<and>
     ring_state False w' (del_keys np (replica_pos f nd ` set is) m))"
  have "runs (for_replicas (del_replica np) [0..<unat (replicas nd)] w) (P ([] @ [0..<unat (replicas nd)]))"
  proof (rule for_replicas_runs)
    have "del_keys np {} m = m" by (simp add: del_keys_def)
    then show "P [] w" using ring_state_weaken [OF assms(1)] by (simp add: P_def)
    fix "is" i w' assume P: "P is w'"
    obtain s where s: "conhash_node2string nd (word_of_nat i) = Some s"
      using node2string_some [OF assms(3)] by blast
    then have h: "f s = replica_pos f nd i" by (simp add: replica_pos_def)
    have "ring_state False w' (del_keys np (replica_pos f nd ` set is) m)" "nodes w' np = Some nd"
      "hashf w' = Some f" using P assms(2,4) by (simp_all add: P_def same_nodes_def)
    from del_replica_runs [OF this(1,2) s this(3)]
    show "runs (del_replica np (word_of_nat i) w') (P (is @ [i]))"
      by (rule runs_conseq) (use P in \<open>auto simp: P_def h same_nodes_def del_keys_insert\<close>)
  qed
  then show ?thesis
    using assms(2) by (simp add: conhash_del_replicas_def P_def positions_def)
qed

section \<open>The exported functions\<close>

lemma ring_state_nodes: "ring_state b (w\<lparr>nodes := (nodes w)(np \<mapsto> nd)\<rparr>) m \<longleftrightarrow> ring_state b w m"
  by (simp add: ring_state_def ring_rel_def)

lemma hashf_nodes: "hashf (w\<lparr>nodes := ns\<rparr>) = hashf w"
  by (simp add: hashf_def)

lemma hashf_some: "hashf w = Some f \<Longrightarrow> chash w \<noteq> None"
  by (auto simp: hashf_def)

lemma conhash_add_node_runs:
  assumes "ring_state True w m" "malloc_fresh mal" "hashf w = Some f"
    and "np \<noteq> 0" "nodes w np = Some nd" "0 \<in> set (iden nd)"
    and "flag nd AND NODE_FLAG_INIT \<noteq> 0" "flag nd AND NODE_FLAG_IN = 0"
  shows "runs (conhash_add_node mal junk np w) (\<lambda>(w', r). r = 0 \<and> hashf w' = Some f \<and>
     nodes w' = (nodes w)(np \<mapsto> nd\<lparr>flag := flag nd OR NODE_FLAG_IN\<rparr>) \<and>
     (\<exists>m'. ring_state True w' m' \<and> grown (malloc_serves mal) np (positions f nd) m m'))"
proof -
  let ?nd = "nd\<lparr>flag := flag nd OR NODE_FLAG_IN\<rparr>"
  let ?w = "w\<lparr>nodes := (nodes w)(np \<mapsto> ?nd)\<rparr>"
  have "ring_state True ?w m" "hashf ?w = Some f" "nodes ?w np = Some ?nd" "0 \<in> set (iden ?nd)"
    using assms by (simp_all add: ring_state_nodes hashf_nodes)
  from conhash_add_replicas_runs [OF this(1) assms(2) this(3,4,2), of junk]
  have "runs (conhash_add_replicas mal junk np ?w) (\<lambda>w'. same_nodes ?w w' \<and>
     (\<exists>m'. ring_state True w' m' \<and> grown (malloc_serves mal) np (positions f nd) m m'))"
    by (simp add: positions_flag)
  moreover have "conhash_add_node mal junk np w =
      Option.bind (conhash_add_replicas mal junk np ?w) (\<lambda>w'. Some (w', 0))"
    using assms hashf_some [OF assms(3)] by (auto simp: conhash_add_node_def)
  ultimately show ?thesis
    using assms(3) by (auto simp: runs_def same_nodes_def hashf_nodes)
qed

lemma conhash_del_node_runs:
  assumes "ring_state b w m" "hashf w = Some f" "np \<noteq> 0" "nodes w np = Some nd" "0 \<in> set (iden nd)"
    and "flag nd AND NODE_FLAG_INIT \<noteq> 0" "flag nd AND NODE_FLAG_IN \<noteq> 0"
  shows "runs (conhash_del_node np w) (\<lambda>(w', r). r = 0 \<and> hashf w' = Some f \<and>
     nodes w' = (nodes w)(np \<mapsto> nd\<lparr>flag := flag nd AND NOT NODE_FLAG_IN\<rparr>) \<and>
     ring_state False w' (del_keys np (positions f nd) m))"
proof -
  let ?nd = "nd\<lparr>flag := flag nd AND NOT NODE_FLAG_IN\<rparr>"
  let ?w = "w\<lparr>nodes := (nodes w)(np \<mapsto> ?nd)\<rparr>"
  have "ring_state b ?w m" "hashf ?w = Some f" "nodes ?w np = Some ?nd" "0 \<in> set (iden ?nd)"
    using assms by (simp_all add: ring_state_nodes hashf_nodes)
  from conhash_del_replicas_runs [OF this(1,3,4,2)]
  have "runs (conhash_del_replicas np ?w) (\<lambda>w'. same_nodes ?w w' \<and>
     ring_state False w' (del_keys np (positions f nd) m))"
    by (simp add: positions_flag)
  moreover have "conhash_del_node np w =
      Option.bind (conhash_del_replicas np ?w) (\<lambda>w'. Some (w', 0))"
    using assms hashf_some [OF assms(2)] by (auto simp: conhash_del_node_def)
  ultimately show ?thesis
    using assms(2) by (auto simp: runs_def same_nodes_def hashf_nodes)
qed

lemma conhash_lookup_runs:
  assumes "ring_state b w m" "hashf w = Some f" "card (dom m) < 2 ^ 32"
  shows "conhash_lookup w (Some obj) = Some (owner m (f obj))"
proof -
  from assms(1) obtain xs where R: "ring_rel b w xs m" by (auto simp: ring_state_def)
  then obtain ch where ch: "chash w = Some ch" "tree_ok b (vnode_tree ch) xs" "ivnodes ch = of_nat (length xs)"
    and E: "entries_ok xs (vnodes w) m" by (rule ring_relE)
  have f: "cb_hashfunc ch = f" using assms(2) ch(1) by (simp add: hashf_def)
  note R0 = tree_ok_ring(1) [OF ch(2)]
  have len: "length xs < 2 ^ 32" using ring_rel_card [OF R] assms(3) by simp
  have zero: "ivnodes ch = 0 \<longleftrightarrow> xs = []"
  proof -
    have "unat (ivnodes ch) = length xs" using len ch(3) by (simp add: unat_of_nat)
    then show ?thesis by (metis length_0_conv unat_eq_zero)
  qed
  show ?thesis
  proof (cases "xs = []")
    case True
    with zero ch(1) entries_okD(3) [OF E] show ?thesis by (simp add: conhash_lookup_def owner_def)
  next
    case False
    from ring_succ_owner [OF conjunct1 [OF rb.order [OF R0]] False E, of "f obj"] obtain k d where
      kd: "(ring_succ (f obj) xs, k, d) \<in> set xs" "vnodes w d = Some \<lparr>vn_hash = k, vn_node = owner m (f obj)\<rparr>"
      by auto
    from rb.entry [OF R0 kd(1)] rb.lookup [OF R0, of "f obj"] kd(2) False zero show ?thesis
      by (auto simp: conhash_lookup_def ch(1) f)
  qed
qed

text \<open>\<open>conhash_fini\<close> empties the tree from the root.\<close>

lemma fini_loop_runs:
  assumes "chash w = Some ch" "tree_ok b (vnode_tree ch) xs" "entries_ok xs (vnodes w) m"
  shows "\<exists>w' ch'. fini_loop w = Some w' \<and> chash w' = Some ch' \<and> dom (mem (vnode_tree ch')) = {Sent} \<and>
     vnodes w' = Map.empty \<and> nodes w' = nodes w"
  using assms
proof (induction "length xs" arbitrary: w ch b xs m)
  case 0
  then have "xs = []" by simp
  with 0 rb.is_empty [OF tree_ok_ring(1) [OF 0(3)]] entries_okD(4) [OF 0(4)] show ?case
    by (subst fini_loop.simps) (auto simp: tree_ok_def)
next
  case (Suc n)
  let ?p = "root (vnode_tree ch)"
  let ?xs = "filter (\<lambda>e. fst e \<noteq> ?p) xs"
  note R0 = tree_ok_ring(1) [OF Suc(4)]
  have "xs \<noteq> []" using Suc(2) by auto
  from rb.top_in [OF R0 this] obtain k d where d: "(?p, k, d) \<in> set xs" by force
  then have p: "?p \<in> fst ` set xs" by force
  note order = conjunct2 [OF rb.order [OF R0]]
  from tree_ok_delete [OF Suc(4) d] obtain t' n' where t': "util_rbtree_delete (vnode_tree ch) ?p = Some t'"
    "mem t' ?p = Some n'" "data n' = d" "tree_ok False (rb_upd ?p None t') ?xs" by auto
  from entries_okD(5) [OF Suc(5) d] obtain v where v: "vnodes w d = Some v" by auto
  let ?w = "w\<lparr>vnodes := (vnodes w)(d := None), chash := Some (ch\<lparr>vnode_tree := rb_upd ?p None t'\<rparr>)\<rparr>"
  have "n = length ?xs" using filter_distinct_entry [OF order p] Suc(2) by simp
  from Suc(1) [OF this, of ?w "ch\<lparr>vnode_tree := rb_upd ?p None t'\<rparr>"] t'(4) entries_delete [OF Suc(5) d order]
  have "\<exists>w' ch'. fini_loop ?w = Some w' \<and> chash w' = Some ch' \<and> dom (mem (vnode_tree ch')) = {Sent} \<and>
     vnodes w' = Map.empty \<and> nodes w' = nodes w" by auto
  moreover have "fini_loop w = fini_loop ?w"
    using Suc(3) t' v rb.is_empty [OF R0] \<open>xs \<noteq> []\<close>
    by (subst fini_loop.simps)
      (simp add: conhash_del_rbnode_def put_rbnode_def set_tree_def rb_upd_def)
  ultimately show ?case by simp
qed

text \<open>The callback of \<open>conhash_get_vnodes\<close> copies the keys until the array is full.\<close>

lemma get_vnodes_fold:
  assumes "c \<le> n" "n \<le> length vs"
  shows "fold (get_vnodes_step (int n)) ns (Some (vs, int c)) =
    Some (take c vs @ take (n - c) (map key ns) @ drop (c + min (n - c) (length ns)) vs,
          int (c + min (n - c) (length ns)))"
  using assms
proof (induction ns arbitrary: vs c)
  case (Cons x ns)
  show ?case
  proof (cases "c < n")
    case True
    then obtain j where j: "n = c + Suc j" by (auto simp: less_iff_Suc_add)
    from True have "fold (get_vnodes_step (int n)) (x # ns) (Some (vs, int c)) =
        fold (get_vnodes_step (int n)) ns (Some (vs[c := key x], int (Suc c)))"
      using Cons.prems by (simp add: get_vnodes_step_def add.commute)
    also have "\<dots> = Some (take (Suc c) (vs[c := key x]) @ take (n - Suc c) (map key ns) @
        drop (Suc c + min (n - Suc c) (length ns)) (vs[c := key x]), int (Suc c + min (n - Suc c) (length ns)))"
      using Cons.IH [of "Suc c" "vs[c := key x]"] Cons.prems True by simp
    also have "take (Suc c) (vs[c := key x]) = take c vs @ [key x]"
      using True Cons.prems by (simp add: take_Suc_conv_app_nth)
    finally show ?thesis by (simp add: j drop_update_cancel)
  next
    case False
    with Cons.prems Cons.IH [of c vs] show ?thesis by (simp add: get_vnodes_step_def)
  qed
qed simp

lemma conhash_get_vnodes_runs:
  assumes "ring_state b w m" "0 < n" "n \<le> length vs"
  shows "conhash_get_vnodes w (Some vs) (int n) =
    Some (Some (take n (sorted_list_of_set (dom m)) @ drop (min n (card (dom m))) vs))"
proof -
  from assms(1) obtain xs where R: "ring_rel b w xs m" by (auto simp: ring_state_def)
  then obtain ch where ch: "chash w = Some ch" "tree_ok b (vnode_tree ch) xs"
    and E: "entries_ok xs (vnodes w) m" by (rule ring_relE)
  note R0 = tree_ok_ring(1) [OF ch(2)]
  from R0 obtain T rp where T: "tree_rel (vnode_tree ch) rp T" "inorder T = xs" by (auto simp: rb_ring0_def)
  let ?ns = "map (\<lambda>e. the (mem (vnode_tree ch) (fst e))) xs"
  have "map key ?ns = map ekey xs" using rb.entry [OF R0] by fastforce
  also have "\<dots> = sorted_list_of_set (dom m)"
    using conjunct1 [OF rb.order [OF R0]] entries_okD(1,3) [OF E]
    by (metis list.set_map sorted_list_of_set.idem_if_sorted_distinct)
  finally have keys: "map key ?ns = sorted_list_of_set (dom m)" .
  have "length ?ns = card (dom m)" using ring_rel_card [OF R] by simp
  with get_vnodes_fold [of 0 n vs ?ns, unfolded keys] assms(2,3)
  have "fold (get_vnodes_step (int n)) ?ns (Some (vs, 0)) =
      Some (take n (sorted_list_of_set (dom m)) @ drop (min n (card (dom m))) vs, int (min n (card (dom m))))"
    by simp
  with mid_travel_runs [OF T(1), unfolded T(2), of "get_vnodes_step (int n)" "Some (vs, 0)"] assms(2)
  show ?thesis by (simp add: conhash_get_vnodes_def ch(1))
qed

lemma conhash_init_runs:
  assumes "vnodes w = Map.empty" "finite (dom (nodes w))"
  shows "\<exists>w'. conhash_init hdef cb True w = Some w' \<and> ring_state True w' Map.empty \<and>
     hashf w' = Some (case cb of Some f \<Rightarrow> f | None \<Rightarrow> hdef) \<and> nodes w' = nodes w"
proof -
  obtain t where t: "util_rbtree_init \<lparr>root = NULL, rbtree.mem = [Sent \<mapsto> \<lparr>key = 0, parent = NULL,
      right = NULL, left = NULL, color = 0, data = 0\<rparr>], rbsize = 0\<rparr> = Some t"
    "root t = Sent" "dom (mem t) = {Sent}" "\<exists>s. mem t Sent = Some s \<and> color s = 1"
    by (auto simp: util_rbtree_init_def util_rbt_black_def set_color_def store_def)
  then have "mem t NULL = None" by auto
  with t have "tree_rel t Sent Lf" by (simp add: tree_rel_def)
  moreover have "rb_inv Lf" by (simp add: rb_inv_def)
  ultimately have "rb_ring t []" unfolding rb_ring_def by (intro exI [of _ Lf]) simp
  then have "tree_ok True t []" using rb.weaken t(3) by (simp add: tree_ok_def)
  then have "ring_rel True (w\<lparr>chash := Some \<lparr>vnode_tree = t, ivnodes = 0,
      cb_hashfunc = (case cb of Some f \<Rightarrow> f | None \<Rightarrow> hdef)\<rparr>\<rparr>) [] Map.empty"
    using assms by (simp add: ring_rel_def entries_ok_def)
  with t(1) show ?thesis by (auto simp: conhash_init_def ring_state_def hashf_def)
qed

end
