(* ===== verification/ConHashText.thy ===== *)
theory ConHashText
  imports ConHashSpec
begin

text \<open>
  The strings and numbers of the consistent hash: the identifier of a node as a C string, the
  string of a replica and what it determines, the value of the default hash function.
\<close>

unbundle bit_operations_syntax

section \<open>The string of a replica\<close>

lemma sint_index: "i < 2 ^ 31 \<Longrightarrow> sint (word_of_nat i :: u32) = int i"
  by (simp add: sint_word_ariths signed_of_nat signed_take_bit_int_eq_self)

lemma format_index: "i < 2 ^ 31 \<Longrightarrow> format_03d (sint (word_of_nat i :: u32)) = zero_pad 3 (decimal i)"
  by (simp add: sint_index format_03d_def)

lemma length_cstr_of: "cstr_of bs = Some s \<Longrightarrow> length s < length bs"
proof -
  assume "cstr_of bs = Some s"
  then have "0 \<in> set bs" "s = takeWhile (\<lambda>c. c \<noteq> 0) bs" by (simp_all add: cstr_of_def split: if_splits)
  then obtain c where "c \<in> set bs" "c \<notin> set s" by (metis set_takeWhileD)
  moreover have "length s = length bs \<Longrightarrow> s = bs"
    using \<open>s = _\<close> by (metis append_Nil2 append_eq_conv_conj takeWhile_dropWhile_id take_all_iff dual_order.refl)
  moreover have "length s \<le> length bs" using \<open>s = _\<close> by (simp add: length_takeWhile_le)
  ultimately show ?thesis by (metis le_neq_implies_less)
qed

lemma length_index: "i < 2 ^ 31 \<Longrightarrow> length (zero_pad 3 (decimal i)) \<le> 10"
proof -
  assume "i < 2 ^ 31"
  then have "i < 10 ^ 10" by simp
  from length_decimal [OF this] show ?thesis by (simp add: zero_pad_def)
qed

lemma node2string_index:
  assumes "length (iden nd) = 64" "i < 2 ^ 31" "cstr_of (iden nd) = Some s"
  shows "conhash_node2string nd (word_of_nat i) = Some (s @ 45 # zero_pad 3 (decimal i))"
proof -
  have "length (s @ 45 # zero_pad 3 (decimal i)) \<le> 126"
    using length_cstr_of [OF assms(3)] length_index [OF assms(2)] assms(1) by simp
  then show ?thesis using assms(3) by (simp add: conhash_node2string_def format_index [OF assms(2)])
qed

lemma split_at_dash:
  assumes "s @ 45 # x = s' @ 45 # (x' :: u8 list)" "45 \<notin> set x" "45 \<notin> set x'"
  shows "s = s' \<and> x = x'"
proof -
  have "takeWhile (\<lambda>c. c \<noteq> 45) (rev (s @ 45 # x)) = rev x" "takeWhile (\<lambda>c. c \<noteq> 45) (rev (s' @ 45 # x')) = rev x'"
    using assms(2,3) by (auto simp: takeWhile_tail)
  with assms(1) show ?thesis by auto
qed

lemma no_dash: "45 \<notin> set (zero_pad k (decimal n))"
  using zero_pad_digits [of 45 k n] by auto

section \<open>The default hash\<close>

lemma byte_mask: "ucast (b :: u8) AND 0xFF = (ucast b :: u64)"
proof -
  have m: "(0xFF :: u64) = mask 8" by (simp add: mask_eq_exp_minus_1)
  show ?thesis unfolding m by (rule bit_word_eqI) (auto simp: bit_simps dest: bit_imp_le_length)
qed

lemma or_bytes:
  fixes a b c d :: u8
  defines "x \<equiv> push_bit 24 (ucast d) OR push_bit 16 (ucast c) OR push_bit 8 (ucast b) OR (ucast a :: u64)"
  shows "uint x = uint a + 256 * uint b + 65536 * uint c + 16777216 * uint d"
proof -
  have high: "\<not> bit (w :: u8) n" if "8 \<le> n" for w n using that by (auto dest: bit_imp_le_length)
  let ?a = "ucast a :: u64" and ?b = "push_bit 8 (ucast b) :: u64"
    and ?c = "push_bit 16 (ucast c) :: u64" and ?d = "push_bit 24 (ucast d) :: u64"
  have "?b + ?a = ?b OR ?a"
    by (rule disjunctive_add_eq_or, rule bit_word_eqI) (auto simp: bit_simps high)
  moreover have "?c + (?b OR ?a) = ?c OR ?b OR ?a"
    by (rule disjunctive_add_eq_or, rule bit_word_eqI) (auto simp: bit_simps high)
  moreover have "?d + (?c OR ?b OR ?a) = ?d OR ?c OR ?b OR ?a"
    by (rule disjunctive_add_eq_or, rule bit_word_eqI) (auto simp: bit_simps high)
  ultimately have x: "x = ?d + (?c + (?b + ?a))"
    unfolding x_def by (simp only: or.assoc)
  have "uint a < 256" "uint b < 256" "uint c < 256" "uint d < 256"
    using uint_lt2p [of a] uint_lt2p [of b] uint_lt2p [of c] uint_lt2p [of d] by simp_all
  moreover have "uint (ucast w :: u64) = uint w" for w :: u8
    by (simp add: uint_up_ucast is_up)
  ultimately show ?thesis
    unfolding x by (simp add: push_bit_eq_mult uint_word_ariths)
qed

lemma sint_small: "uint (w :: u64) < 2 ^ 63 \<Longrightarrow> sint w = uint w"
proof -
  assume lt: "uint w < 2 ^ 63"
  have "- (2 ^ 63) \<le> uint w" using uint_ge_0 [of w] by (rule order_trans [rotated]) simp
  from signed_take_bit_int_eq_self [OF this lt] show ?thesis by (simp add: sint_uint)
qed

lemma digest_word_value:
  "uint (digest_word d i) = (\<Sum>j<4. uint (d ! (i * 4 + j)) * 256 ^ j)"
  unfolding digest_word_def byte_mask or_bytes by (simp add: eval_nat_numeral)

end
