(* ===== verification/ConHashTheorems.thy ===== *)
theory ConHashTheorems
  imports ConHashRefine ConHashText Md5Theorems
begin

text \<open>
  The properties of the consistent hash: the exported functions of \<open>conhash.c\<close> against the abstract
  ring, what a change of the nodes does to the objects, the error returns, and the strings and
  numbers the ring is built from.
\<close>

unbundle bit_operations_syntax

section \<open>The ring\<close>

text \<open>
  \<open>conhash_init\<close> makes an empty ring that may be inserted into, with the callback of the caller or
  the default hash.
\<close>

theorem conhash_init_correct:
  assumes "vnodes w = Map.empty" and "finite (dom (nodes w))"
  shows "\<exists>w'. conhash_init hdef cb True w = Some w' \<and> ring_state True w' Map.empty \<and>
     hashf w' = Some (case cb of Some f \<Rightarrow> f | None \<Rightarrow> hdef) \<and> nodes w' = nodes w"
  using assms by (rule conhash_init_runs)

text \<open>
  C22. \<open>conhash_add_node\<close> of an initialised node that is not in the ring returns 0, marks the node,
  keeps the invariant and occupies positions of the node only: every free one when memory does not
  run out, some of them when it does (which the return value does not tell).  No owner changes.
\<close>

theorem conhash_add_node_correct:
  assumes "ring_state True w m" and "malloc_fresh mal" and "hashf w = Some f"
    and "np \<noteq> 0" and "nodes w np = Some nd" and "0 \<in> set (iden nd)"
    and "flag nd AND NODE_FLAG_INIT \<noteq> 0" and "flag nd AND NODE_FLAG_IN = 0"
  shows "\<exists>w' m'. conhash_add_node mal junk np w = Some (w', 0) \<and> ring_state True w' m' \<and>
     nodes w' = (nodes w)(np \<mapsto> nd\<lparr>flag := flag nd OR NODE_FLAG_IN\<rparr>) \<and> hashf w' = Some f \<and>
     (\<forall>k. if m k = None \<and> k \<in> positions f nd
          then m' k = Some np \<or> \<not> malloc_serves mal \<and> m' k = None else m' k = m k)"
proof -
  from conhash_add_node_runs [OF assms, of junk] obtain w' m' where
    "conhash_add_node mal junk np w = Some (w', 0)" "hashf w' = Some f" "ring_state True w' m'"
    "nodes w' = (nodes w)(np \<mapsto> nd\<lparr>flag := flag nd OR NODE_FLAG_IN\<rparr>)"
    "grown (malloc_serves mal) np (positions f nd) m m'" by (auto simp: runs_def)
  then show ?thesis unfolding grown_def by (intro exI conjI)
qed

text \<open>
  C23. \<open>conhash_del_node\<close> of a node that is in the ring returns 0, unmarks the node and frees exactly
  the positions of the node that it owns, with their tree nodes and virtual nodes; the tree may be
  inserted into again unless a single entry is left.
\<close>

theorem conhash_del_node_correct:
  assumes "ring_state b w m" and "hashf w = Some f"
    and "np \<noteq> 0" and "nodes w np = Some nd" and "0 \<in> set (iden nd)"
    and "flag nd AND NODE_FLAG_INIT \<noteq> 0" and "flag nd AND NODE_FLAG_IN \<noteq> 0"
  shows "\<exists>w' m'. conhash_del_node np w = Some (w', 0) \<and> ring_state (card (dom m') \<noteq> 1) w' m' \<and>
     nodes w' = (nodes w)(np \<mapsto> nd\<lparr>flag := flag nd AND NOT NODE_FLAG_IN\<rparr>) \<and> hashf w' = Some f \<and>
     m' = (\<lambda>k. if m k = Some np \<and> k \<in> positions f nd then None else m k)"
proof -
  let ?m = "del_keys np (positions f nd) m"
  from conhash_del_node_runs [OF assms] obtain w' where w': "conhash_del_node np w = Some (w', 0)"
    "nodes w' = (nodes w)(np \<mapsto> nd\<lparr>flag := flag nd AND NOT NODE_FLAG_IN\<rparr>)" "hashf w' = Some f"
    "ring_state False w' ?m" by (auto simp: runs_def)
  have "ring_state (card (dom ?m) \<noteq> 1) w' ?m"
    using w'(4) ring_state_clean [OF w'(4)] by (cases "card (dom ?m) = 1") auto
  with w' show ?thesis by (intro exI [of _ w'] exI [of _ ?m]) (simp add: del_keys_def)
qed

text \<open>
  C21. \<open>conhash_lookup\<close> returns the node at the first occupied position from the hash of the object
  on, continuing at the least position; \<open>NULL\<close> exactly for an empty ring.
\<close>

theorem conhash_lookup_correct:
  assumes "ring_state b w m" and "hashf w = Some f" and "card (dom m) < 2 ^ 32"
  shows "\<exists>np. conhash_lookup w (Some obj) = Some np \<and>
     (if dom m = {} then np = 0
      else \<exists>k. m k = Some np \<and>
        (if \<exists>x \<in> dom m. f obj \<le> x then f obj \<le> k \<and> (\<forall>x \<in> dom m. f obj \<le> x \<longrightarrow> k \<le> x)
         else \<forall>x \<in> dom m. k \<le> x))"
proof -
  have "if dom m = {} then owner m (f obj) = 0
      else \<exists>k. m k = Some (owner m (f obj)) \<and>
        (if \<exists>x \<in> dom m. f obj \<le> x then f obj \<le> k \<and> (\<forall>x \<in> dom m. f obj \<le> x \<longrightarrow> k \<le> x)
         else \<forall>x \<in> dom m. k \<le> x)"
  proof (cases "dom m = {}")
    case True
    then show ?thesis by (simp add: owner_def)
  next
    case False
    note S = succ_key_cases [OF ring_state_finite [OF assms(1)] False, of "f obj"]
    then have "m (succ_key (dom m) (f obj)) = Some (owner m (f obj))"
      using False by (auto simp: owner_def)
    with S False show ?thesis by (simp add: exI [of _ "succ_key (dom m) (f obj)"])
  qed
  with conhash_lookup_runs [OF assms] show ?thesis by blast
qed

text \<open>
  C9. Adding a node moves objects to that node only: whatever the allocator does, every lookup
  gives the same node as before or the new one.
\<close>

theorem add_node_minimal_disruption:
  assumes "ring_state True w m" and "malloc_fresh mal" and "hashf w = Some f"
    and "np \<noteq> 0" and "nodes w np = Some nd" and "0 \<in> set (iden nd)"
    and "flag nd AND NODE_FLAG_INIT \<noteq> 0" and "flag nd AND NODE_FLAG_IN = 0"
    and "card (dom m) + unat (replicas nd) < 2 ^ 32"
  shows "\<exists>w'. conhash_add_node mal junk np w = Some (w', 0) \<and>
     (\<forall>obj. conhash_lookup w' (Some obj) = conhash_lookup w (Some obj) \<or>
            conhash_lookup w' (Some obj) = Some np)"
proof -
  from conhash_add_node_runs [OF assms(1-8), of junk] obtain w' m' where
    w': "conhash_add_node mal junk np w = Some (w', 0)" "hashf w' = Some f" "ring_state True w' m'"
    and g: "grown (malloc_serves mal) np (positions f nd) m m'" by (auto simp: runs_def)
  from grown_add_keys [OF g] obtain H where H: "H \<subseteq> positions f nd" "m' = add_keys np H m" by blast
  have fin: "finite H" using H(1) finite_positions by (rule finite_subset)
  have "card H \<le> unat (replicas nd)" using H(1) card_positions order_trans card_mono finite_positions by meson
  moreover have "card (dom m') \<le> card (dom m) + card H" unfolding H(2) dom_add_keys by (rule card_Un_le)
  ultimately have c: "card (dom m') < 2 ^ 32" "card (dom m) < 2 ^ 32" using assms(9) by simp_all
  note m = ring_state_finite [OF assms(1)]
  have "conhash_lookup w' (Some obj) = Some (owner m' (f obj))"
    "conhash_lookup w (Some obj) = Some (owner m (f obj))" for obj
    using conhash_lookup_runs [OF w'(3,2) c(1)] conhash_lookup_runs [OF assms(1,3) c(2)] by simp_all
  with owner_add_keys [OF m fin] w'(1) H(2) show ?thesis by auto
qed

text \<open>
  C10. Removing a node moves the objects of that node only.  When the node owns no position but
  those of its replicas, no object is left on it.
\<close>

theorem del_node_minimal_disruption:
  assumes "ring_state b w m" and "hashf w = Some f"
    and "np \<noteq> 0" and "nodes w np = Some nd" and "0 \<in> set (iden nd)"
    and "flag nd AND NODE_FLAG_INIT \<noteq> 0" and "flag nd AND NODE_FLAG_IN \<noteq> 0"
    and "card (dom m) < 2 ^ 32" and "\<forall>k. m k = Some np \<longrightarrow> k \<in> positions f nd"
  shows "\<exists>w'. conhash_del_node np w = Some (w', 0) \<and>
     (\<forall>obj. conhash_lookup w' (Some obj) \<noteq> Some np \<and>
        (conhash_lookup w (Some obj) = Some np \<or> conhash_lookup w' (Some obj) = conhash_lookup w (Some obj)))"
proof -
  let ?m = "del_keys np (positions f nd) m"
  from conhash_del_node_runs [OF assms(1-7)] obtain w' where w': "conhash_del_node np w = Some (w', 0)"
    "hashf w' = Some f" "ring_state False w' ?m" by (auto simp: runs_def)
  note fin = ring_state_finite [OF assms(1)]
  have "card (dom ?m) \<le> card (dom m)"
    using fin map_le_implies_dom_le [OF del_keys_le] by (rule card_mono)
  then have c: "card (dom ?m) < 2 ^ 32" using assms(8) by simp
  have look: "conhash_lookup w' (Some obj) = Some (owner ?m (f obj))"
    "conhash_lookup w (Some obj) = Some (owner m (f obj))" for obj
    using conhash_lookup_runs [OF w'(3,2) c] conhash_lookup_runs [OF assms(1,2,8)] by simp_all
  have "owner ?m h \<noteq> np" for h
  proof (cases "dom ?m = {}")
    case True
    then show ?thesis using assms(3) by (simp add: owner_def)
  next
    case False
    from owner_in [OF finite_del_keys [OF fin] False, of h] assms(9) show ?thesis
      by (auto simp: del_keys_def split: if_splits)
  qed
  with owner_del_keys [OF fin] w'(1) look show ?thesis by fastforce
qed

text \<open>
  Adding a new node and removing it again restores the ring, so that every object is where it
  was, and leaves the node initialised and out of the ring.
\<close>

theorem add_del_node_roundtrip:
  assumes "ring_state True w m" and "malloc_fresh mal" and "malloc_serves mal" and "hashf w = Some f"
    and "np \<noteq> 0" and "nodes w np = Some nd" and "0 \<in> set (iden nd)"
    and "flag nd = NODE_FLAG_INIT" and "np \<notin> ran m"
  shows "\<exists>w1 w2. conhash_add_node mal junk np w = Some (w1, 0) \<and> conhash_del_node np w1 = Some (w2, 0) \<and>
     ring_state False w2 m \<and> nodes w2 = nodes w \<and> hashf w2 = Some f"
proof -
  have flags: "flag nd AND NODE_FLAG_INIT \<noteq> 0" "flag nd AND NODE_FLAG_IN = 0"
    "(flag nd OR NODE_FLAG_IN) AND NODE_FLAG_INIT \<noteq> 0" "(flag nd OR NODE_FLAG_IN) AND NODE_FLAG_IN \<noteq> 0"
    "(flag nd OR NODE_FLAG_IN) AND NOT NODE_FLAG_IN = flag nd"
    by (simp_all add: assms(8) NODE_FLAG_INIT_def NODE_FLAG_IN_def)
  let ?nd = "nd\<lparr>flag := flag nd OR NODE_FLAG_IN\<rparr>"
  from conhash_add_node_runs [OF assms(1,2,4-7) flags(1,2), of junk] obtain w1 where
    w1: "conhash_add_node mal junk np w = Some (w1, 0)" "hashf w1 = Some f"
      "nodes w1 = (nodes w)(np \<mapsto> ?nd)" "ring_state True w1 (add_keys np (positions f nd) m)"
    using assms(3) by (auto simp: runs_def grown_served)
  have "nodes w1 np = Some ?nd" "0 \<in> set (iden ?nd)" using w1(3) assms(7) by simp_all
  from conhash_del_node_runs [OF w1(4,2) assms(5) this] flags obtain w2 where
    "conhash_del_node np w1 = Some (w2, 0)" "hashf w2 = Some f"
      "nodes w2 = (nodes w1)(np \<mapsto> ?nd\<lparr>flag := flag nd\<rparr>)"
      "ring_state False w2 (del_keys np (positions f ?nd) (add_keys np (positions f nd) m))"
    by (auto simp: runs_def)
  moreover have "(nodes w1)(np \<mapsto> ?nd\<lparr>flag := flag nd\<rparr>) = nodes w"
    using w1(3) assms(6) by auto
  ultimately show ?thesis using w1(1) by (simp add: positions_flag del_add_keys [OF assms(9)])
qed

section \<open>Errors, disposal, inspection\<close>

text \<open>
  Adding and removing return -1 and change nothing without a ring, without a node, for a node
  that was not set up with \<open>conhash_set_node\<close>, for a node that already is in the ring and for
  one that is not, respectively; a lookup without a ring or an object finds nothing.
\<close>

theorem conhash_node_errors:
  "(chash w = None \<or> np = 0 \<longrightarrow>
      conhash_add_node mal junk np w = Some (w, -1) \<and> conhash_del_node np w = Some (w, -1)) \<and>
   (nodes w np = Some nd \<and> flag nd AND NODE_FLAG_INIT = 0 \<longrightarrow>
      conhash_add_node mal junk np w = Some (w, -1) \<and> conhash_del_node np w = Some (w, -1)) \<and>
   (nodes w np = Some nd \<and> flag nd AND NODE_FLAG_IN \<noteq> 0 \<longrightarrow> conhash_add_node mal junk np w = Some (w, -1)) \<and>
   (nodes w np = Some nd \<and> flag nd AND NODE_FLAG_IN = 0 \<longrightarrow> conhash_del_node np w = Some (w, -1)) \<and>
   conhash_lookup w None = Some 0 \<and> (chash w = None \<longrightarrow> conhash_lookup w obj = Some 0)"
  by (auto simp: conhash_add_node_def conhash_del_node_def conhash_lookup_def split: option.splits)

text \<open>
  C24. \<open>conhash_fini\<close> returns; before it frees the object only the sentinel is left of the tree and
  every virtual node is freed.  The nodes of the callers are untouched.
\<close>

theorem conhash_fini_frees:
  assumes "ring_state b w m"
  shows "\<exists>w' ch'. fini_loop w = Some w' \<and> chash w' = Some ch' \<and> dom (mem (vnode_tree ch')) = {Sent} \<and>
     conhash_fini w = Some (w'\<lparr>chash := None\<rparr>) \<and> vnodes w' = Map.empty \<and> nodes w' = nodes w"
proof -
  from assms obtain xs where "ring_rel b w xs m" by (auto simp: ring_state_def)
  then obtain ch where ch: "chash w = Some ch" "tree_ok b (vnode_tree ch) xs" "entries_ok xs (vnodes w) m"
    by (rule ring_relE)
  from fini_loop_runs [OF this] obtain w' ch' where "fini_loop w = Some w'" "chash w' = Some ch'"
    "dom (mem (vnode_tree ch')) = {Sent}" "vnodes w' = Map.empty" "nodes w' = nodes w" by blast
  moreover from this ch(1) have "conhash_fini w = Some (w'\<lparr>chash := None\<rparr>)" by (simp add: conhash_fini_def)
  ultimately show ?thesis by blast
qed

text \<open>
  \<open>conhash_get_vnodes\<close> fills the array with the positions in increasing order, as far as it
  has room, and leaves the rest of it alone; \<open>conhash_get_vnodes_num\<close> is the number of positions,
  as a 32-bit number.
\<close>

theorem conhash_get_vnodes_correct:
  assumes "ring_state b w m" and "0 < n" and "n \<le> length values"
  shows "conhash_get_vnodes w (Some values) (int n) =
       Some (Some (take n (sorted_list_of_set (dom m)) @ drop (min n (card (dom m))) values)) \<and>
     conhash_get_vnodes_num w = word_of_nat (card (dom m))"
proof
  from assms(1) obtain xs where R: "ring_rel b w xs m" by (auto simp: ring_state_def)
  then obtain ch where "chash w = Some ch" "ivnodes ch = of_nat (length xs)" by (rule ring_relE)
  with ring_rel_card [OF R] show "conhash_get_vnodes_num w = word_of_nat (card (dom m))"
    by (simp add: conhash_get_vnodes_num_def)
qed (rule conhash_get_vnodes_runs [OF assms])

section \<open>Strings and hash values\<close>

text \<open>
  \<open>conhash_set_node\<close> writes a terminated string: the identifier, cut to 63 bytes.  The 64th
  byte is not written; only an identifier that fills the array needs it to be zero before.
\<close>

theorem conhash_set_node_iden:
  assumes "length (iden nd) = 64" and "0 \<notin> set idn" and "length idn < 63 \<or> iden nd ! 63 = 0"
  shows "cstr_of (iden (conhash_set_node nd idn r)) = Some (take 63 idn) \<and>
     length (iden (conhash_set_node nd idn r)) = 64 \<and>
     flag (conhash_set_node nd idn r) = NODE_FLAG_INIT \<and> replicas (conhash_set_node nd idn r) = r"
proof -
  have tail: "drop 63 (iden nd) = [iden nd ! 63]"
    using Cons_nth_drop_Suc [of 63 "iden nd"] assms(1) by simp
  have "take 63 (idn @ replicate 63 0) @ drop 63 (iden nd) =
      take 63 idn @ replicate (63 - length idn) 0 @ [iden nd ! 63]"
    unfolding tail by (simp add: min_def)
  moreover have "0 \<notin> set (take 63 idn)" using assms(2) by (meson in_set_takeD)
  then have "takeWhile (\<lambda>c. c \<noteq> 0) (take 63 idn @ zs) = take 63 idn @ takeWhile (\<lambda>c. c \<noteq> 0) zs" for zs
    by (intro takeWhile_append2) auto
  moreover have "takeWhile (\<lambda>c. c \<noteq> 0) (replicate (63 - length idn) 0 @ [iden nd ! 63]) = []"
    using assms(3) by (cases "63 - length idn") auto
  moreover have "0 \<in> set (take 63 idn @ replicate (63 - length idn) 0 @ [iden nd ! 63])"
    using assms(3) by auto
  ultimately show ?thesis
    using assms(1) by (simp add: conhash_set_node_def strncpy63_def cstr_of_def)
qed

text \<open>
  The string of a replica (identifier, dash, number in at least three digits) is never cut to
  the 127 bytes of its buffer and determines both the identifier and the number: different nodes
  and different replicas of a node are hashed from different strings.
\<close>

theorem node2string_inj:
  assumes "length (iden nd) = 64" "length (iden nd') = 64" "i < 2 ^ 31" "j < 2 ^ 31"
    and "cstr_of (iden nd) = Some s" "cstr_of (iden nd') = Some s'"
  shows "conhash_node2string nd (word_of_nat i) = Some (s @ 45 # zero_pad 3 (decimal i)) \<and>
     (conhash_node2string nd (word_of_nat i) = conhash_node2string nd' (word_of_nat j) \<longleftrightarrow> s = s' \<and> i = j)"
proof -
  note eq = node2string_index [OF assms(1,3,5)] node2string_index [OF assms(2,4,6)]
  have "s = s' \<and> i = j" if "s @ 45 # zero_pad 3 (decimal i) = s' @ 45 # zero_pad 3 (decimal j)"
  proof -
    from split_at_dash [OF that no_dash no_dash] have "s = s'" "zero_pad 3 (decimal i) = zero_pad 3 (decimal j)"
      by auto
    then show ?thesis by (metis undec_zero_pad undec_decimal)
  qed
  with eq show ?thesis by auto
qed

text \<open>
  The default hash is the sum of the four little-endian words of the MD5 digest: never
  negative, below \<open>2 ^ 34\<close>, and the same on machines of either byte order.
\<close>

theorem conhash_hash_def_value:
  assumes "length (buf pms) = 64" and "length instr < 2 ^ 28"
  shows "conhash_hash_def le pms instr = (\<Sum>i<4. \<Sum>j<4. uint (rfc_md5 instr ! (i * 4 + j)) * 256 ^ j) \<and>
     0 \<le> conhash_hash_def le pms instr \<and> conhash_hash_def le pms instr < 2 ^ 34"
proof -
  let ?w = "digest_word (rfc_md5 instr)"
  have lt: "uint (?w i) < 2 ^ 32" for i
  proof -
    have "uint (rfc_md5 instr ! n) \<le> 255" for n
      using uint_lt2p [of "rfc_md5 instr ! n"] by simp
    from this [of "i * 4"] this [of "i * 4 + 1"] this [of "i * 4 + 2"] this [of "i * 4 + 3"]
    show ?thesis unfolding digest_word_value by (simp add: eval_nat_numeral)
  qed
  let ?s = "?w 0 + ?w 1 + ?w 2 + ?w 3"
  have s: "uint ?s = uint (?w 0) + uint (?w 1) + uint (?w 2) + uint (?w 3)"
    using lt [of 0] lt [of 1] lt [of 2] lt [of 3] by (simp add: uint_word_ariths)
  have "uint ?s < 2 ^ 34" unfolding s using lt [of 0] lt [of 1] lt [of 2] lt [of 3] by simp
  then have "sint ?s = uint ?s" by (intro sint_small) simp
  moreover have "conhash_hash_def le pms instr = sint ?s"
    by (simp add: conhash_hash_def_def md5_digest_rfc [OF assms] upt_rec Let_def eval_nat_numeral)
  moreover have "uint ?s = (\<Sum>i<4. uint (?w i))" unfolding s by (simp add: eval_nat_numeral)
  ultimately have h: "conhash_hash_def le pms instr = uint ?s"
    "uint ?s = (\<Sum>i<4. \<Sum>j<4. uint (rfc_md5 instr ! (i * 4 + j)) * 256 ^ j)"
    by (simp_all add: digest_word_value)
  show ?thesis
    unfolding h(1) using h(2) \<open>uint ?s < 2 ^ 34\<close> by (intro conjI uint_ge_0)
qed

section \<open>Witnesses\<close>

text \<open>
  An allocator that returns the first free address, a hash function, a node with two replicas and
  the memory before \<open>conhash_init\<close>, then with an empty ring and with a ring of that node.
\<close>

definition first_fit :: allocator where
  "first_fit t L = first_free L 1"

lemma first_fit_ok: "malloc_fresh first_fit" "malloc_serves first_fit"
  using first_free_some first_free_finite unfolding malloc_fresh_def malloc_serves_def first_fit_def by blast+

definition byte_sum :: "cstr \<Rightarrow> int" where
  "byte_sum s = sum_list (map uint s)"

definition node_a :: node_s where
  "node_a = conhash_set_node \<lparr>iden = replicate 64 0, replicas = 0, flag = 0\<rparr> [0x61] 2"

definition no_rbnode :: rbnode where
  "no_rbnode = \<lparr>key = 0, parent = NULL, right = NULL, left = NULL, color = 0, data = 0\<rparr>"

definition heap0 :: heap where
  "heap0 = \<lparr>chash = None, vnodes = Map.empty, nodes = [1 \<mapsto> node_a], clock = 0\<rparr>"

definition heap1 :: heap where
  "heap1 = the (conhash_init byte_sum None True heap0)"

definition heap2 :: heap where
  "heap2 = fst (the (conhash_add_node first_fit no_rbnode 1 heap1))"

lemma node_a_facts: "length (iden node_a) = 64" "0 \<in> set (iden node_a)" "replicas node_a = 2"
  "flag node_a = NODE_FLAG_INIT" "flag node_a AND NODE_FLAG_INIT \<noteq> 0" "flag node_a AND NODE_FLAG_IN = 0"
  by (simp_all add: node_a_def conhash_set_node_def strncpy63_def NODE_FLAG_INIT_def NODE_FLAG_IN_def)

lemma heap0_facts: "vnodes heap0 = Map.empty" "finite (dom (nodes heap0))"
  by (simp_all add: heap0_def)

lemma heap1_facts: "ring_state True heap1 Map.empty" "hashf heap1 = Some byte_sum" "nodes heap1 1 = Some node_a"
  using conhash_init_runs [OF heap0_facts, of byte_sum None] by (auto simp: heap1_def heap0_def)

lemma heap2_facts:
  "ring_state True heap2 (add_keys 1 (positions byte_sum node_a) Map.empty)" "hashf heap2 = Some byte_sum"
  "nodes heap2 1 = Some (node_a\<lparr>flag := NODE_FLAG_INIT OR NODE_FLAG_IN\<rparr>)"
proof -
  from conhash_add_node_runs [OF heap1_facts(1) first_fit_ok(1) heap1_facts(2) _ heap1_facts(3)
      node_a_facts(2,5,6), of no_rbnode] first_fit_ok(2)
  obtain w' where "conhash_add_node first_fit no_rbnode 1 heap1 = Some (w', 0)" "hashf w' = Some byte_sum"
    "nodes w' = (nodes heap1)(1 \<mapsto> node_a\<lparr>flag := NODE_FLAG_INIT OR NODE_FLAG_IN\<rparr>)"
    "ring_state True w' (add_keys 1 (positions byte_sum node_a) Map.empty)"
    by (auto simp: runs_def grown_served node_a_facts)
  then show "ring_state True heap2 (add_keys 1 (positions byte_sum node_a) Map.empty)"
    "hashf heap2 = Some byte_sum" "nodes heap2 1 = Some (node_a\<lparr>flag := NODE_FLAG_INIT OR NODE_FLAG_IN\<rparr>)"
    by (simp_all add: heap2_def)
qed

lemma positions_a: "positions byte_sum node_a = {286, 287}"
proof -
  have "positions byte_sum node_a = set (map (\<lambda>i. byte_sum (the (conhash_node2string node_a (word_of_nat i)))) [0..<2])"
    by (simp add: positions_def replica_pos_def node_a_facts(3))
  also have "map (\<lambda>i. byte_sum (the (conhash_node2string node_a (word_of_nat i)))) [0..<2] = [286, 287]"
    by code_simp
  finally show ?thesis by auto
qed

lemma dom_a: "dom (add_keys (1 :: nat) (positions byte_sum node_a) Map.empty) = {286, 287}"
  by (simp add: dom_add_keys positions_a)

lemma ring_a_card: "card (dom (add_keys (1 :: nat) (positions byte_sum node_a) Map.empty)) = 2"
  unfolding dom_a by simp

lemma heap2_flag: "nodes heap2 1 = Some nd \<Longrightarrow> 0 \<in> set (iden nd) \<and>
    flag nd AND NODE_FLAG_INIT \<noteq> 0 \<and> flag nd AND NODE_FLAG_IN \<noteq> 0 \<and>
    positions byte_sum nd = positions byte_sum node_a"
  using heap2_facts(3) node_a_facts(2)
  by (auto simp: positions_flag NODE_FLAG_INIT_def NODE_FLAG_IN_def)

theorem conhash_init_witness:
  "\<exists>w'. conhash_init byte_sum None True heap0 = Some w' \<and> ring_state True w' Map.empty \<and>
     hashf w' = Some byte_sum"
  using conhash_init_correct [OF heap0_facts, of byte_sum None] by auto

theorem conhash_add_node_witness:
  "\<exists>w' m'. conhash_add_node first_fit no_rbnode 1 heap1 = Some (w', 0) \<and> ring_state True w' m' \<and>
     m' 286 = Some 1 \<and> m' 287 = Some 1 \<and> m' 5 = None"
proof -
  from conhash_add_node_correct [OF heap1_facts(1) first_fit_ok(1) heap1_facts(2) _ heap1_facts(3)
      node_a_facts(2,5,6), of no_rbnode] obtain w' m' where w': "conhash_add_node first_fit no_rbnode 1 heap1 = Some (w', 0)"
    "ring_state True w' m'" and m: "\<forall>k. if (Map.empty :: int \<rightharpoonup> nat) k = None \<and> k \<in> positions byte_sum node_a
          then m' k = Some 1 \<or> \<not> malloc_serves first_fit \<and> m' k = None else m' k = Map.empty k" by auto
  with m [rule_format, of 286] m [rule_format, of 287] m [rule_format, of 5] first_fit_ok(2)
  show ?thesis by (auto simp: positions_a)
qed

theorem conhash_del_node_witness:
  "\<exists>w' m'. conhash_del_node 1 heap2 = Some (w', 0) \<and> ring_state True w' m' \<and> m' = Map.empty"
proof -
  from conhash_del_node_correct [OF heap2_facts(1,2) _ heap2_facts(3)] heap2_flag [OF heap2_facts(3)]
  obtain w' m' where w': "conhash_del_node 1 heap2 = Some (w', 0)" "ring_state (card (dom m') \<noteq> 1) w' m'"
    "m' = (\<lambda>k. if add_keys (1 :: nat) (positions byte_sum node_a) Map.empty k = Some 1 \<and> k \<in> positions byte_sum node_a
              then None else add_keys (1 :: nat) (positions byte_sum node_a) Map.empty k)" by auto
  from w'(3) have "m' = Map.empty" by (auto simp: add_keys_def fun_eq_iff)
  with w'(1,2) show ?thesis by auto
qed

theorem conhash_lookup_witness:
  "conhash_lookup heap2 (Some [0x61]) = Some 1 \<and> conhash_lookup heap1 (Some [0x61]) = Some 0"
proof
  from conhash_lookup_correct [OF heap2_facts(1,2), of "[0x61]"]
  show "conhash_lookup heap2 (Some [0x61]) = Some 1"
    unfolding ring_a_card unfolding dom_a by (auto simp: add_keys_def split: if_splits)
  from conhash_lookup_correct [OF heap1_facts(1,2), of "[0x61]"]
  show "conhash_lookup heap1 (Some [0x61]) = Some 0" by simp
qed

theorem add_node_disruption_witness:
  "\<exists>w'. conhash_add_node first_fit no_rbnode 1 heap1 = Some (w', 0) \<and>
     (\<forall>obj. conhash_lookup w' (Some obj) = conhash_lookup heap1 (Some obj) \<or>
            conhash_lookup w' (Some obj) = Some 1)"
  by (rule add_node_minimal_disruption [OF heap1_facts(1) first_fit_ok(1) heap1_facts(2) _ heap1_facts(3)
        node_a_facts(2,5,6)]) (simp_all add: node_a_facts)

theorem del_node_disruption_witness:
  "\<exists>w'. conhash_del_node 1 heap2 = Some (w', 0) \<and> (\<forall>obj. conhash_lookup w' (Some obj) \<noteq> Some 1)"
proof -
  have "k \<in> positions byte_sum node_a" if "add_keys (1 :: nat) (positions byte_sum node_a) Map.empty k = Some 1" for k
    using that by (auto simp: add_keys_def split: if_splits)
  with del_node_minimal_disruption [OF heap2_facts(1,2) _ heap2_facts(3)] heap2_flag [OF heap2_facts(3)]
  show ?thesis unfolding ring_a_card by auto
qed

theorem add_del_roundtrip_witness:
  "\<exists>w1 w2. conhash_add_node first_fit no_rbnode 1 heap1 = Some (w1, 0) \<and> conhash_del_node 1 w1 = Some (w2, 0) \<and>
     ring_state False w2 Map.empty \<and> nodes w2 = nodes heap1"
  using add_del_node_roundtrip [OF heap1_facts(1) first_fit_ok heap1_facts(2) _ heap1_facts(3)
      node_a_facts(2,4), of no_rbnode] by auto

theorem conhash_node_errors_witness:
  "conhash_add_node first_fit no_rbnode 1 heap0 = Some (heap0, -1) \<and>
   conhash_del_node 1 heap1 = Some (heap1, -1) \<and> conhash_lookup heap1 None = Some 0"
  using conhash_node_errors [of heap0 1 first_fit no_rbnode node_a] heap1_facts(3)
    conhash_node_errors [of heap1 1 first_fit no_rbnode node_a] node_a_facts(6)
  by (simp add: heap0_def)

theorem conhash_fini_witness:
  "\<exists>w' ch'. fini_loop heap2 = Some w' \<and> chash w' = Some ch' \<and> dom (mem (vnode_tree ch')) = {Sent} \<and>
     conhash_fini heap2 = Some (w'\<lparr>chash := None\<rparr>) \<and> vnodes w' = Map.empty"
  using conhash_fini_frees [OF heap2_facts(1)] by auto

theorem conhash_get_vnodes_witness:
  "conhash_get_vnodes heap2 (Some [0, 0, 0]) 3 = Some (Some [286, 287, 0]) \<and> conhash_get_vnodes_num heap2 = 2"
proof -
  have "sorted_list_of_set {286, 287 :: int} = [286, 287]" by simp
  with conhash_get_vnodes_correct [OF heap2_facts(1), of 3 "[0, 0, 0]"]
  show ?thesis unfolding ring_a_card unfolding dom_a by simp
qed

theorem conhash_set_node_witness:
  "cstr_of (iden (conhash_set_node node_a (replicate 70 0x62) 5)) = Some (replicate 63 0x62)"
  using conhash_set_node_iden [of node_a "replicate 70 0x62" 5] node_a_facts(1)
  by (auto simp: node_a_def conhash_set_node_def strncpy63_def nth_append)

theorem node2string_witness:
  "conhash_node2string node_a 7 = Some [0x61, 0x2d, 0x30, 0x30, 0x37]"
proof -
  have a: "cstr_of (iden node_a) = Some [0x61]" by code_simp
  have "[0x61] @ 45 # zero_pad 3 (decimal 7) = [0x61, 0x2d, 0x30, 0x30, 0x37 :: u8]" by code_simp
  with node2string_inj [OF node_a_facts(1,1), of 7 7, OF _ _ a a] show ?thesis by simp
qed

theorem conhash_hash_def_witness: "conhash_hash_def True zero_state [0x61] < 2 ^ 34"
  using conhash_hash_def_value [of zero_state "[0x61]" True] by (simp add: zero_state_def)

end
