(* ===== verification/ConsistentHash.thy ===== *)
theory ConsistentHash
  imports ConHashTheorems
begin

text \<open>
  The class \<open>con_hash\<close> (\<open>src/consistent_hash.h\<close>): the ring of cache servers that the master and
  every cache server keep, on top of the C library.

  The object is the memory of the library, in which the \<open>node_s\<close> objects are those that
  \<open>make_shared\<close> allocated, and the map from strings \<open>ip:port\<close> to them.  The map holds the only
  reference to a \<open>node_s\<close> once a member function has returned, so that a node is freed when its entry
  is erased or overwritten.  Every server has 32 replicas.
\<close>

section \<open>State and operations\<close>

record con_hash =
  conhash :: heap
  nodes_map :: "cstr \<rightharpoonup> nat"

text \<open>What C functions see of a \<open>std::string\<close>.\<close>

definition c_str :: "cstr \<Rightarrow> cstr" where
  "c_str s = takeWhile (\<lambda>c. c \<noteq> 0) s"

text \<open>A \<open>node_s\<close> from \<open>make_shared\<close>, and the end of the last reference to one.\<close>

definition zero_node :: node_s where
  "zero_node = \<lparr>iden = replicate 64 0, replicas = 0, flag = 0\<rparr>"

definition release :: "nat option \<Rightarrow> heap \<Rightarrow> heap" where
  "release a w = (case a of None \<Rightarrow> w | Some p \<Rightarrow> w\<lparr>nodes := (nodes w)(p := None)\<rparr>)"

text \<open>The constructor: \<open>hash_def\<close> is the default hash of the library, \<open>ok\<close> whether there is memory.\<close>

definition con_hash_new :: "(cstr \<Rightarrow> int) \<Rightarrow> bool \<Rightarrow> con_hash option" where
  "con_hash_new hash_def ok = do {
     w \<leftarrow> conhash_init hash_def None ok \<lparr>chash = None, vnodes = Map.empty, nodes = Map.empty, clock = 0\<rparr>;
     Some \<lparr>conhash = w, nodes_map = Map.empty\<rparr> }"

definition con_hash_delete :: "con_hash \<Rightarrow> con_hash option" where
  "con_hash_delete c = do {
     w \<leftarrow> conhash_fini (conhash c);
     Some (c\<lparr>conhash := w\<rparr>) }"

text \<open>\<open>al\<close> is \<open>new\<close>, \<open>mal\<close> the \<open>malloc\<close> of the library, \<open>junk\<close> what a new tree node contains.\<close>

definition conhash_add_CacheServer :: "new_fun \<Rightarrow> allocator \<Rightarrow> rbnode \<Rightarrow> cstr \<Rightarrow> con_hash \<Rightarrow> con_hash option" where
  "conhash_add_CacheServer al mal junk ip_port c = do {
     let w = conhash c;
     let node = al (live w);
     let w = w\<lparr>nodes := (nodes w)(node \<mapsto> conhash_set_node zero_node (c_str ip_port) 32)\<rparr>;
     (w, r) \<leftarrow> conhash_add_node mal junk node w;
     Some \<lparr>conhash = release (nodes_map c ip_port) w, nodes_map = (nodes_map c)(ip_port \<mapsto> node)\<rparr> }"

definition conhash_del_CacheServer :: "cstr \<Rightarrow> con_hash \<Rightarrow> con_hash option" where
  "conhash_del_CacheServer ip_port c =
     (case nodes_map c ip_port of
        None \<Rightarrow> Some c
      | Some node \<Rightarrow> do {
          (w, r) \<leftarrow> conhash_del_node node (conhash c);
          Some \<lparr>conhash = release (Some node) w, nodes_map = (nodes_map c)(ip_port := None)\<rparr> })"

text \<open>The string \<open>NULL\<close> that a lookup returns when there is no node.\<close>

definition null_name :: cstr where
  "null_name = [0x4e, 0x55, 0x4c, 0x4c]"

definition conhash_get_CacheServer :: "con_hash \<Rightarrow> cstr \<Rightarrow> cstr option" where
  "conhash_get_CacheServer c k = do {
     node \<leftarrow> conhash_lookup (conhash c) (Some (c_str k));
     (if node \<noteq> 0 then do {
        nd \<leftarrow> nodes (conhash c) node;
        cstr_of (iden nd) }
      else Some null_name) }"

section \<open>The ring of server names\<close>

text \<open>
  The abstract ring maps positions to server names; \<open>server_at\<close> is the answer to a lookup at a
  position, \<open>server_pos\<close> the positions of a server.
\<close>

definition server_node :: "cstr \<Rightarrow> node_s" where
  "server_node s = (conhash_set_node zero_node (c_str s) 32)\<lparr>flag := NODE_FLAG_INIT OR NODE_FLAG_IN\<rparr>"

definition server_pos :: "(cstr \<Rightarrow> int) \<Rightarrow> cstr \<Rightarrow> int set" where
  "server_pos f s = positions f (server_node s)"

definition server_at :: "(int \<rightharpoonup> cstr) \<Rightarrow> int \<Rightarrow> cstr" where
  "server_at M h = (if dom M = {} then null_name else the (M (succ_key (dom M) h)))"

text \<open>
  \<open>servers_ok b c f M\<close>: the object holds the ring \<open>M\<close> with the hash function \<open>f\<close>; every name in the
  map has a node of its own with that name, flagged as in, and the positions it has in the ring are
  among its own.
\<close>

definition servers_ok :: "bool \<Rightarrow> con_hash \<Rightarrow> (cstr \<Rightarrow> int) \<Rightarrow> (int \<rightharpoonup> cstr) \<Rightarrow> bool" where
  "servers_ok b c f M \<longleftrightarrow>
     ring_state b (conhash c) (nodes_map c \<circ>\<^sub>m M) \<and> hashf (conhash c) = Some f \<and>
     ran M \<subseteq> dom (nodes_map c) \<and> inj_on (nodes_map c) (dom (nodes_map c)) \<and>
     (\<forall>s p. nodes_map c s = Some p \<longrightarrow>
        p \<noteq> 0 \<and> nodes (conhash c) p = Some (server_node s) \<and> length s \<le> 63 \<and> 0 \<notin> set s) \<and>
     (\<forall>k s. M k = Some s \<longrightarrow> k \<in> server_pos f s)"

lemma servers_okD:
  assumes "servers_ok b c f M"
  shows "ring_state b (conhash c) (nodes_map c \<circ>\<^sub>m M)" "hashf (conhash c) = Some f"
    "ran M \<subseteq> dom (nodes_map c)" "inj_on (nodes_map c) (dom (nodes_map c))"
    "nodes_map c s = Some p \<Longrightarrow> p \<noteq> 0 \<and> nodes (conhash c) p = Some (server_node s) \<and> length s \<le> 63 \<and> 0 \<notin> set s"
    "M k = Some s \<Longrightarrow> k \<in> server_pos f s"
  using assms unfolding servers_ok_def by blast+

lemma dom_names: "ran M \<subseteq> dom nm \<Longrightarrow> dom (nm \<circ>\<^sub>m M) = dom M"
  by (fastforce simp: map_comp_def ran_def split: option.splits)

lemma node_fields: "0 \<in> set (iden (conhash_set_node zero_node s 32))" "0 \<in> set (iden (server_node t))"
    "flag (conhash_set_node zero_node s 32) AND NODE_FLAG_INIT \<noteq> 0"
    "flag (conhash_set_node zero_node s 32) AND NODE_FLAG_IN = 0"
    "flag (server_node t) AND NODE_FLAG_INIT \<noteq> 0" "flag (server_node t) AND NODE_FLAG_IN \<noteq> 0"
  by (simp_all add: server_node_def conhash_set_node_def strncpy63_def zero_node_def NODE_FLAG_INIT_def NODE_FLAG_IN_def)

lemma c_str_id: "0 \<notin> set s \<Longrightarrow> c_str s = s"
  by (auto simp: c_str_def takeWhile_eq_all_conv)

lemma server_iden:
  assumes "length s \<le> 63" and "0 \<notin> set s"
  shows "cstr_of (iden (server_node s)) = Some s"
proof -
  have "takeWhile (\<lambda>c. c \<noteq> 0) (s @ replicate n 0 @ [0 :: u8]) = s" for n
    using assms(2) by (subst takeWhile_append2) (auto simp: takeWhile_eq_Nil_iff hd_append)
  then show ?thesis
    using assms by (simp add: server_node_def conhash_set_node_def strncpy63_def zero_node_def cstr_of_def c_str_id)
qed

lemma con_hash_new_ok: "\<exists>c. con_hash_new f True = Some c \<and> servers_ok True c f Map.empty \<and> nodes_map c = Map.empty"
  using conhash_init_runs [of "\<lparr>chash = None, vnodes = Map.empty, nodes = Map.empty, clock = 0\<rparr>" f None]
  by (auto simp: con_hash_new_def servers_ok_def)

lemma add_names:
  assumes "ran M \<subseteq> dom nm" and "nm s = None"
  shows "nm(s \<mapsto> p) \<circ>\<^sub>m add_keys s H M = add_keys p H (nm \<circ>\<^sub>m M)"
proof
  fix k
  show "(nm(s \<mapsto> p) \<circ>\<^sub>m add_keys s H M) k = add_keys p H (nm \<circ>\<^sub>m M) k"
  proof (cases "M k")
    case None
    then show ?thesis by (simp add: map_comp_def add_keys_def)
  next
    case (Some t)
    with assms have "t \<noteq> s" "nm t \<noteq> None" by (auto simp: ran_def)
    with Some show ?thesis by (auto simp: map_comp_def add_keys_def)
  qed
qed

lemma del_names:
  assumes "inj_on nm (dom nm)" and "nm s = Some p" and "ran M \<subseteq> dom nm"
    and "\<And>k. M k = Some s \<Longrightarrow> k \<in> H"
  shows "nm(s := None) \<circ>\<^sub>m del_keys s H M = del_keys p H (nm \<circ>\<^sub>m M)"
proof
  fix k
  show "(nm(s := None) \<circ>\<^sub>m del_keys s H M) k = del_keys p H (nm \<circ>\<^sub>m M) k"
  proof (cases "M k")
    case None
    then show ?thesis by (simp add: map_comp_def del_keys_def)
  next
    case (Some t)
    with assms(3) have "t \<in> dom nm" by (auto simp: ran_def)
    with assms(1,2) have "nm t = Some p \<longleftrightarrow> t = s" by (metis domI inj_onD)
    with Some assms(4) [of k] show ?thesis by (auto simp: map_comp_def del_keys_def)
  qed
qed

text \<open>The three operations on the ring of names.\<close>

lemma con_hash_add_runs:
  assumes ok: "servers_ok True c f M" and new: "nodes_map c s = None"
    and al: "new_ok al" and mal: "malloc_fresh mal" "malloc_serves mal" and s: "length s \<le> 63" "0 \<notin> set s"
  shows "\<exists>c'. conhash_add_CacheServer al mal junk s c = Some c' \<and>
     servers_ok True c' f (add_keys s (server_pos f s) M) \<and> dom (nodes_map c') = insert s (dom (nodes_map c))"
proof -
  note C = servers_okD [OF ok]
  define node where "node = al (live (conhash c))"
  obtain xs where R: "ring_rel True (conhash c) xs (nodes_map c \<circ>\<^sub>m M)" using C(1) by (auto simp: ring_state_def)
  have "\<not> live (conhash c) node" "node \<noteq> 0"
    using new_ok_fresh [OF al] finite_live [OF R] unfolding node_def by blast+
  then have node: "nodes (conhash c) node = None" "node \<noteq> 0" by (auto simp: live_def)
  let ?nd = "conhash_set_node zero_node (c_str s) 32"
  let ?w = "(conhash c)\<lparr>nodes := (nodes (conhash c))(node \<mapsto> ?nd)\<rparr>"
  have pos: "positions f ?nd = server_pos f s"
    unfolding server_pos_def server_node_def by (simp add: positions_flag)
  have nd: "?nd\<lparr>flag := flag ?nd OR NODE_FLAG_IN\<rparr> = server_node s"
    by (simp add: server_node_def conhash_set_node_def)
  have "ring_state True ?w (nodes_map c \<circ>\<^sub>m M)" "hashf ?w = Some f" "nodes ?w node = Some ?nd"
    using C(1,2) by (simp_all add: ring_state_nodes hashf_nodes)
  from conhash_add_node_runs [OF this(1) mal(1) this(2) node(2) this(3) node_fields(1,3,4), of junk, unfolded pos nd]
  obtain w' m' where w': "conhash_add_node mal junk node ?w = Some (w', 0)" "hashf w' = Some f"
    "nodes w' = (nodes (conhash c))(node \<mapsto> server_node s)" "ring_state True w' m'"
    "grown (malloc_serves mal) node (server_pos f s) (nodes_map c \<circ>\<^sub>m M) m'"
    by (auto simp: runs_def)
  have m': "m' = (nodes_map c)(s \<mapsto> node) \<circ>\<^sub>m add_keys s (server_pos f s) M"
    using grown_served w'(5) mal(2) add_names [OF C(3) new] by metis
  let ?c = "\<lparr>conhash = w', nodes_map = (nodes_map c)(s \<mapsto> node)\<rparr>"
  have run: "conhash_add_CacheServer al mal junk s c = Some ?c"
    using w'(1) new by (simp add: conhash_add_CacheServer_def release_def Let_def flip: node_def)
  have old: "p \<noteq> node" if "nodes_map c t = Some p" for t p
    using C(5) [OF that] node(1) by auto
  then have "inj_on ((nodes_map c)(s \<mapsto> node)) (insert s (dom (nodes_map c)))"
    using C(4) new unfolding inj_on_def by (auto simp: dom_def) metis+
  moreover have "ran (add_keys s (server_pos f s) M) \<subseteq> insert s (dom (nodes_map c))"
    using C(3) by (fastforce simp: ran_def add_keys_def split: if_splits)
  moreover have "\<forall>t p. ((nodes_map c)(s \<mapsto> node)) t = Some p \<longrightarrow>
      p \<noteq> 0 \<and> nodes w' p = Some (server_node t) \<and> length t \<le> 63 \<and> 0 \<notin> set t"
    using C(5) old node(2) s unfolding w'(3) by auto
  moreover have "\<forall>k t. add_keys s (server_pos f s) M k = Some t \<longrightarrow> k \<in> server_pos f t"
    using C(6) by (auto simp: add_keys_def split: if_splits)
  ultimately have "servers_ok True ?c f (add_keys s (server_pos f s) M)"
    using w'(2,4) m' by (simp add: servers_ok_def)
  with run show ?thesis by auto
qed

lemma con_hash_del_runs:
  assumes ok: "servers_ok b c f M" and "in": "nodes_map c s = Some p"
  shows "\<exists>c'. conhash_del_CacheServer s c = Some c' \<and>
     servers_ok (card (dom (del_keys s (server_pos f s) M)) \<noteq> 1) c' f (del_keys s (server_pos f s) M) \<and>
     dom (nodes_map c') = dom (nodes_map c) - {s}"
proof -
  note C = servers_okD [OF ok]
  note P = C(5) [OF "in"]
  from conhash_del_node_runs [OF C(1,2) _ _ node_fields(2,5,6), of p s] P obtain w' where
    w': "conhash_del_node p (conhash c) = Some (w', 0)" "hashf w' = Some f"
      "nodes w' = (nodes (conhash c))(p \<mapsto> (server_node s)\<lparr>flag := flag (server_node s) AND NOT NODE_FLAG_IN\<rparr>)"
      "ring_state False w' (del_keys p (server_pos f s) (nodes_map c \<circ>\<^sub>m M))"
    by (auto simp: runs_def server_pos_def)
  let ?M = "del_keys s (server_pos f s) M" and ?nm = "(nodes_map c)(s := None)"
  have m': "?nm \<circ>\<^sub>m ?M = del_keys p (server_pos f s) (nodes_map c \<circ>\<^sub>m M)"
    using del_names [OF C(4) "in" C(3)] C(6) by blast
  have ran: "ran ?M \<subseteq> dom ?nm"
  proof
    fix t
    assume "t \<in> ran ?M"
    then obtain k where k: "?M k = Some t" by (auto simp: ran_def)
    then have "M k = Some t" "\<not> (t = s \<and> k \<in> server_pos f s)" by (auto simp: del_keys_def split: if_splits)
    with C(3,6) show "t \<in> dom ?nm" by (auto simp: ran_def)
  qed
  let ?w = "release (Some p) w'"
  have "ring_state False ?w (?nm \<circ>\<^sub>m ?M)"
    using w'(4) m' by (simp add: release_def ring_state_def ring_rel_def)
  moreover have "dom (?nm \<circ>\<^sub>m ?M) = dom ?M" by (rule dom_names [OF ran])
  ultimately have ring: "ring_state (card (dom ?M) \<noteq> 1) ?w (?nm \<circ>\<^sub>m ?M)"
    using ring_state_clean [of False ?w "?nm \<circ>\<^sub>m ?M"] by (cases "card (dom ?M) = 1") auto
  have "q \<noteq> p" if "nodes_map c t = Some q" "t \<noteq> s" for t q
    using C(4) that "in" by (metis domI inj_onD)
  then have "\<forall>t q. ?nm t = Some q \<longrightarrow> q \<noteq> 0 \<and> nodes ?w q = Some (server_node t) \<and> length t \<le> 63 \<and> 0 \<notin> set t"
    using C(5) by (auto simp: release_def w'(3))
  moreover have "inj_on ?nm (dom ?nm)"
    using C(4) unfolding inj_on_def by (auto simp: dom_def)
  moreover have "\<forall>k t. ?M k = Some t \<longrightarrow> k \<in> server_pos f t"
    using C(6) by (auto simp: del_keys_def split: if_splits)
  moreover have "hashf ?w = Some f" using w'(2) by (simp add: release_def hashf_nodes)
  ultimately have "servers_ok (card (dom ?M) \<noteq> 1) \<lparr>conhash = ?w, nodes_map = ?nm\<rparr> f ?M"
    using ring ran by (simp add: servers_ok_def)
  then show ?thesis using w'(1) "in" by (auto simp: conhash_del_CacheServer_def)
qed

lemma con_hash_get_runs:
  assumes ok: "servers_ok b c f M" and "card (dom M) < 2 ^ 32"
  shows "conhash_get_CacheServer c k = Some (server_at M (f (c_str k)))"
proof -
  note C = servers_okD [OF ok]
  let ?m = "nodes_map c \<circ>\<^sub>m M" and ?h = "f (c_str k)"
  have dom: "dom ?m = dom M" by (rule dom_names [OF C(3)])
  have fin: "finite (dom M)" using ring_state_finite [OF C(1)] unfolding dom .
  have look: "conhash_lookup (conhash c) (Some (c_str k)) = Some (owner ?m ?h)"
    using conhash_lookup_runs [OF C(1,2)] assms(2) dom by simp
  show ?thesis
  proof (cases "dom M = {}")
    case True
    then have "owner ?m ?h = 0" using dom by (simp add: owner_def)
    with look True show ?thesis by (simp add: conhash_get_CacheServer_def server_at_def)
  next
    case False
    let ?s = "succ_key (dom M) ?h"
    obtain t where t: "M ?s = Some t" using succ_key_cases [OF fin False, of ?h] by auto
    with C(3) obtain p where p: "nodes_map c t = Some p" by (auto simp: ran_def)
    have "owner ?m ?h = p" using dom False t p by (simp add: owner_def map_comp_def)
    with look C(5) [OF p] server_iden [of t] False t show ?thesis
      by (simp add: conhash_get_CacheServer_def server_at_def)
  qed
qed

text \<open>The server at a position, in terms of the node that owns it.\<close>

lemma server_at_owner:
  assumes "servers_ok b c f M" and "dom M \<noteq> {}"
  shows "nodes_map c (server_at M h) = Some (owner (nodes_map c \<circ>\<^sub>m M) h)" and "server_at M h \<in> ran M"
proof -
  note C = servers_okD [OF assms(1)]
  have dom: "dom (nodes_map c \<circ>\<^sub>m M) = dom M" by (rule dom_names [OF C(3)])
  have fin: "finite (dom M)" using ring_state_finite [OF C(1)] unfolding dom .
  obtain t where t: "M (succ_key (dom M) h) = Some t" using succ_key_cases [OF fin assms(2), of h] by auto
  with C(3) obtain p where "nodes_map c t = Some p" by (auto simp: ran_def)
  with t assms(2) dom show "nodes_map c (server_at M h) = Some (owner (nodes_map c \<circ>\<^sub>m M) h)"
    by (simp add: server_at_def owner_def map_comp_def)
  from t assms(2) show "server_at M h \<in> ran M" by (auto simp: server_at_def ran_def)
qed

lemma names_finite:
  assumes "servers_ok b c f M"
  shows "finite (dom M)"
proof -
  note C = servers_okD [OF assms]
  show ?thesis using ring_state_finite [OF C(1)] unfolding dom_names [OF C(3)] .
qed

lemma server_at_add:
  assumes "finite (dom M)" "finite H" "dom M \<noteq> {}"
  shows "server_at (add_keys s H M) h = server_at M h \<or> server_at (add_keys s H M) h = s"
proof -
  let ?M = "add_keys s H M" and ?s = "succ_key (dom (add_keys s H M)) h"
  have fin: "finite (dom ?M)" "dom ?M \<noteq> {}" using assms by (simp_all add: dom_add_keys)
  from succ_key_cases [OF this, of h] have "?s \<in> dom ?M" by blast
  then consider "?s \<in> dom M" | "M ?s = None" "?s \<in> H" by (auto simp: dom_add_keys)
  then show ?thesis
  proof cases
    case 1
    then have "succ_key (dom M) h = ?s" using succ_key_subset [OF fin(1), of "dom M"] by (simp add: dom_add_keys)
    with 1 assms(3) fin(2) show ?thesis by (auto simp: server_at_def add_keys_def)
  next
    case 2
    with fin(2) show ?thesis by (simp add: server_at_def add_keys_def)
  qed
qed

lemma server_at_del:
  assumes "finite (dom M)" "server_at M h \<noteq> s" "dom M \<noteq> {}"
  shows "server_at (del_keys s H M) h = server_at M h"
proof -
  let ?M = "del_keys s H M" and ?s = "succ_key (dom M) h"
  obtain t where t: "M ?s = Some t" using succ_key_cases [OF assms(1,3), of h] by auto
  with assms(2,3) have "?M ?s = Some t" by (simp add: server_at_def del_keys_def)
  then have "?s \<in> dom ?M" by auto
  moreover have "dom ?M \<subseteq> dom M" using map_le_implies_dom_le [OF del_keys_le] .
  ultimately have "succ_key (dom ?M) h = ?s" by (intro succ_key_subset [OF assms(1)])
  with \<open>?M ?s = Some t\<close> t assms(3) show ?thesis by (auto simp: server_at_def)
qed

definition name_ok :: "cstr \<Rightarrow> bool" where
  "name_ok n \<longleftrightarrow> length n \<le> 63 \<and> 0 \<notin> set n"

text \<open>The ring that results from registering servers in this order.\<close>

definition ring_of :: "(cstr \<Rightarrow> int) \<Rightarrow> cstr list \<Rightarrow> int \<rightharpoonup> cstr" where
  "ring_of f ns = fold (\<lambda>n M. add_keys n (server_pos f n) M) ns Map.empty"

lemma dom_ring_of: "dom (ring_of f ns) = (\<Union>n \<in> set ns. server_pos f n)"
proof -
  have "dom (fold (\<lambda>n M. add_keys n (server_pos f n) M) ns M) = dom M \<union> (\<Union>n \<in> set ns. server_pos f n)" for M
    by (induction ns arbitrary: M) (auto simp: dom_add_keys)
  then show ?thesis by (simp add: ring_of_def)
qed

lemma ring_of_snoc: "ring_of f (ns @ [n]) = add_keys n (server_pos f n) (ring_of f ns)"
  by (simp add: ring_of_def)

text \<open>Adding returns for any name that is not there, whatever its bytes.\<close>

lemma con_hash_add_returns:
  assumes "servers_ok True c f M" and "new_ok al" and "malloc_fresh mal" and "nodes_map c s = None"
  shows "\<exists>c'. conhash_add_CacheServer al mal junk s c = Some c' \<and> dom (nodes_map c') = insert s (dom (nodes_map c))"
proof -
  note C = servers_okD [OF assms(1)]
  define node where "node = al (live (conhash c))"
  obtain xs where R: "ring_rel True (conhash c) xs (nodes_map c \<circ>\<^sub>m M)" using C(1) by (auto simp: ring_state_def)
  have "\<not> live (conhash c) node" "node \<noteq> 0"
    using new_ok_fresh [OF assms(2)] finite_live [OF R] unfolding node_def by blast+
  then have node: "nodes (conhash c) node = None" "node \<noteq> 0" by (auto simp: live_def)
  let ?nd = "conhash_set_node zero_node (c_str s) 32"
  let ?w = "(conhash c)\<lparr>nodes := (nodes (conhash c))(node \<mapsto> ?nd)\<rparr>"
  have "ring_state True ?w (nodes_map c \<circ>\<^sub>m M)" "hashf ?w = Some f" "nodes ?w node = Some ?nd"
    using C(1,2) by (simp_all add: ring_state_nodes hashf_nodes)
  from conhash_add_node_runs [OF this(1) assms(3) this(2) node(2) this(3) node_fields(1,3,4), of junk]
  obtain w' where "conhash_add_node mal junk node ?w = Some (w', 0)" by (auto simp: runs_def)
  then show ?thesis by (simp add: conhash_add_CacheServer_def Let_def flip: node_def)
qed

lemma con_hash_readd_runs:
  assumes "servers_ok True c f M" and "new_ok al" and "malloc_fresh mal"
    and "s \<in> dom (nodes_map c)" and "server_pos f s \<subseteq> dom M" and "dom M \<noteq> {}" and "card (dom M) < 2 ^ 32"
    and "server_at M (f (c_str k)) = s"
  shows "\<exists>c'. conhash_add_CacheServer al mal junk s c = Some c' \<and> conhash_get_CacheServer c' k = None"
proof -
  note C = servers_okD [OF assms(1)]
  from assms(4) obtain p where p: "nodes_map c s = Some p" by blast
  define node where "node = al (live (conhash c))"
  obtain xs where R: "ring_rel True (conhash c) xs (nodes_map c \<circ>\<^sub>m M)" using C(1) by (auto simp: ring_state_def)
  have "\<not> live (conhash c) node" "node \<noteq> 0"
    using new_ok_fresh [OF assms(2)] finite_live [OF R] unfolding node_def by blast+
  then have node: "nodes (conhash c) node = None" "node \<noteq> 0" by (auto simp: live_def)
  let ?nd = "conhash_set_node zero_node (c_str s) 32" and ?m = "nodes_map c \<circ>\<^sub>m M"
  let ?w = "(conhash c)\<lparr>nodes := (nodes (conhash c))(node \<mapsto> ?nd)\<rparr>"
  have "ring_state True ?w ?m" "hashf ?w = Some f" "nodes ?w node = Some ?nd"
    using C(1,2) by (simp_all add: ring_state_nodes hashf_nodes)
  from conhash_add_node_runs [OF this(1) assms(3) this(2) node(2) this(3) node_fields(1,3,4), of junk]
  obtain w' m' where w': "conhash_add_node mal junk node ?w = Some (w', 0)" "hashf w' = Some f"
    "nodes w' = (nodes (conhash c))(node \<mapsto> ?nd\<lparr>flag := flag ?nd OR NODE_FLAG_IN\<rparr>)" "ring_state True w' m'"
    "grown (malloc_serves mal) node (positions f ?nd) ?m m'"
    by (auto simp: runs_def)
  have dom: "dom ?m = dom M" by (rule dom_names [OF C(3)])
  have pos: "positions f ?nd = server_pos f s"
    unfolding server_pos_def server_node_def by (simp add: positions_flag)
  have "m' = ?m"
  proof
    fix k
    have "\<not> (?m k = None \<and> k \<in> server_pos f s)" using assms(5) dom by blast
    with w'(5) show "m' k = ?m k" unfolding grown_def pos by (metis (no_types, lifting))
  qed
  let ?c = "\<lparr>conhash = release (Some p) w', nodes_map = (nodes_map c)(s \<mapsto> node)\<rparr>"
  have run: "conhash_add_CacheServer al mal junk s c = Some ?c"
    using w'(1) p by (simp add: conhash_add_CacheServer_def Let_def flip: node_def)
  have "ring_state True (release (Some p) w') ?m"
    using w'(4) \<open>m' = ?m\<close> by (simp add: release_def ring_state_def ring_rel_def)
  moreover have "hashf (release (Some p) w') = Some f" using w'(2) by (simp add: release_def hashf_nodes)
  ultimately have "conhash_lookup (release (Some p) w') (Some (c_str k)) = Some (owner ?m (f (c_str k)))"
    using conhash_lookup_runs assms(7) dom by metis
  moreover have "owner ?m (f (c_str k)) = p"
    using server_at_owner(1) [OF assms(1,6), of "f (c_str k)"] assms(8) p by simp
  ultimately have "conhash_get_CacheServer ?c k = None"
    using C(5) [OF p] by (simp add: conhash_get_CacheServer_def release_def)
  with run show ?thesis by blast
qed

section \<open>Properties\<close>

text \<open>
  C29. The class refines the ring of server names: registering a new server occupies the free
  positions among its 32, removing one frees those it has and frees its node, and the server of a
  key is the name at the first occupied position, or \<open>NULL\<close> on an empty ring.
\<close>

theorem con_hash_refines:
  assumes "servers_ok b c f M" and "new_ok al" and "malloc_fresh mal" and "malloc_serves mal"
    and "length s \<le> 63" and "0 \<notin> set s"
  shows "(b \<and> nodes_map c s = None \<longrightarrow> (\<exists>c'. conhash_add_CacheServer al mal junk s c = Some c' \<and>
        servers_ok True c' f (add_keys s (server_pos f s) M))) \<and>
     (nodes_map c s \<noteq> None \<longrightarrow> (\<exists>c'. conhash_del_CacheServer s c = Some c' \<and>
        servers_ok (card (dom (del_keys s (server_pos f s) M)) \<noteq> 1) c' f (del_keys s (server_pos f s) M))) \<and>
     (nodes_map c s = None \<longrightarrow> conhash_del_CacheServer s c = Some c) \<and>
     (card (dom M) < 2 ^ 32 \<longrightarrow> (\<forall>k. conhash_get_CacheServer c k = Some (server_at M (f (c_str k)))))"
  using con_hash_add_runs [of c f M s al mal junk] con_hash_del_runs [OF assms(1), of s] con_hash_get_runs [OF assms(1)] assms
  by (cases b; cases "nodes_map c s") (auto simp: conhash_del_CacheServer_def)

text \<open>
  Cache servers come and go without moving the keys of the others: after a server was
  registered every key is where it was or on the new server, and after one was removed every key
  that was not on it is where it was.
\<close>

theorem con_hash_moves_little:
  assumes "servers_ok True c f M" and "new_ok al" and "malloc_fresh mal" and "malloc_serves mal"
    and "length s \<le> 63" and "0 \<notin> set s" and "nodes_map c s = None" and "dom M \<noteq> {}"
    and "card (dom M) < 2 ^ 31"
  shows "\<exists>c1 c2. conhash_add_CacheServer al mal junk s c = Some c1 \<and> conhash_del_CacheServer s c1 = Some c2 \<and>
     (\<forall>k. conhash_get_CacheServer c1 k = conhash_get_CacheServer c k \<or> conhash_get_CacheServer c1 k = Some s) \<and>
     (\<forall>k. conhash_get_CacheServer c1 k \<noteq> Some s \<longrightarrow> conhash_get_CacheServer c2 k = conhash_get_CacheServer c1 k)"
proof -
  let ?H = "server_pos f s"
  let ?M1 = "add_keys s ?H M" let ?M2 = "del_keys s ?H ?M1"
  obtain c1 where c1: "conhash_add_CacheServer al mal junk s c = Some c1" "servers_ok True c1 f ?M1"
    "dom (nodes_map c1) = insert s (dom (nodes_map c))"
    using con_hash_add_runs [OF assms(1,7,2-6), of junk] by blast
  then obtain p where "nodes_map c1 s = Some p" by blast
  from con_hash_del_runs [OF c1(2) this] obtain b c2 where c2: "conhash_del_CacheServer s c1 = Some c2" "servers_ok b c2 f ?M2"
    by blast
  have H: "finite ?H" "card ?H \<le> 32"
    using card_positions [of f "server_node s"]
    by (simp_all add: server_pos_def finite_positions server_node_def conhash_set_node_def)
  have fin: "finite (dom M)" "finite (dom ?M1)" using names_finite assms(1) c1(2) by blast+
  have "card (dom ?M1) \<le> card (dom M) + card ?H" by (simp add: dom_add_keys card_Un_le)
  with H(2) assms(9) have lt: "card (dom ?M1) < 2 ^ 32" by simp
  moreover have "card (dom ?M2) \<le> card (dom ?M1)"
    using map_le_implies_dom_le [OF del_keys_le] by (rule card_mono [OF fin(2)])
  ultimately have "card (dom ?M2) < 2 ^ 32" by simp
  with lt assms(9) con_hash_get_runs [OF assms(1)] con_hash_get_runs [OF c1(2)] con_hash_get_runs [OF c2(2)]
    server_at_add [OF fin(1) H(1) assms(8)] server_at_del [OF fin(2)] assms(8)
  have "(\<forall>k. conhash_get_CacheServer c1 k = conhash_get_CacheServer c k \<or> conhash_get_CacheServer c1 k = Some s) \<and>
     (\<forall>k. conhash_get_CacheServer c1 k \<noteq> Some s \<longrightarrow> conhash_get_CacheServer c2 k = conhash_get_CacheServer c1 k)"
    by (simp add: dom_add_keys)
  with c1(1) c2(1) show ?thesis by blast
qed

text \<open>
  Registering a server a second time leaves the ring pointing to freed memory: the map entry is
  overwritten, which frees the first node, while its positions stay in the ring; a lookup of
  any key of that server then dereferences the freed node.
\<close>

theorem con_hash_readd_dangles:
  assumes "servers_ok True c f M" and "new_ok al" and "malloc_fresh mal"
    and "s \<in> dom (nodes_map c)" and "server_pos f s \<subseteq> dom M" and "dom M \<noteq> {}" and "card (dom M) < 2 ^ 32"
    and "server_at M (f (c_str k)) = s"
  shows "\<exists>c'. conhash_add_CacheServer al mal junk s c = Some c' \<and> conhash_get_CacheServer c' k = None"
  by (rule con_hash_readd_runs [OF assms])

section \<open>Witnesses\<close>

definition ring_a :: "con_hash option" where
  "ring_a = do {
     c \<leftarrow> con_hash_new byte_sum True;
     conhash_add_CacheServer new_first first_fit no_rbnode [0x61] c }"

definition map_a :: "int \<rightharpoonup> cstr" where
  "map_a = add_keys [0x61] (server_pos byte_sum [0x61]) Map.empty"

lemma ring_a_ok: "\<exists>c. ring_a = Some c \<and> servers_ok True c byte_sum map_a \<and> dom (nodes_map c) = {[0x61]}"
proof -
  obtain c0 where c0: "con_hash_new byte_sum True = Some c0" "servers_ok True c0 byte_sum Map.empty" "nodes_map c0 = Map.empty"
    using con_hash_new_ok by blast
  from con_hash_add_runs [OF c0(2) _ new_first_ok first_fit_ok, of "[0x61]" no_rbnode] c0(3) obtain c1 where
    "conhash_add_CacheServer new_first first_fit no_rbnode [0x61] c0 = Some c1"
    "servers_ok True c1 byte_sum map_a" "dom (nodes_map c1) = {[0x61]}" by (auto simp: map_a_def)
  with c0(1) show ?thesis by (simp add: ring_a_def)
qed

lemma map_a_facts: "dom map_a = server_pos byte_sum [0x61]" "dom map_a \<noteq> {}" "card (dom map_a) \<le> 32" "ran map_a = {[0x61]}"
proof -
  let ?nd = "server_node [0x61]"
  have r: "replicas ?nd = 32" by (simp add: server_node_def conhash_set_node_def)
  show d: "dom map_a = server_pos byte_sum [0x61]" by (simp add: map_a_def dom_add_keys)
  have "replica_pos byte_sum ?nd 0 \<in> positions byte_sum ?nd" unfolding positions_def r by simp
  then show ne: "dom map_a \<noteq> {}" unfolding d server_pos_def by blast
  show "card (dom map_a) \<le> 32" unfolding d server_pos_def using card_positions [of byte_sum ?nd] by (simp add: r)
  show "ran map_a = {[0x61]}" using ne unfolding d by (auto simp: map_a_def ran_def add_keys_def split: if_splits)
qed

lemma not_registered: "dom (nodes_map c) = {[0x61]} \<Longrightarrow> nodes_map c [0x62] = None"
proof -
  assume "dom (nodes_map c) = {[0x61]}"
  then have "[0x62] \<notin> dom (nodes_map c)" by simp
  then show "nodes_map c [0x62] = None" by (simp add: domIff)
qed

theorem con_hash_refines_witness:
  "\<exists>c. ring_a = Some c \<and> (\<exists>c'. conhash_add_CacheServer new_first first_fit no_rbnode [0x62] c = Some c' \<and>
        servers_ok True c' byte_sum (add_keys [0x62] (server_pos byte_sum [0x62]) map_a)) \<and>
     conhash_del_CacheServer [0x62] c = Some c"
proof -
  obtain c where c: "ring_a = Some c" "servers_ok True c byte_sum map_a" "dom (nodes_map c) = {[0x61]}" using ring_a_ok by blast
  from con_hash_refines [OF c(2) new_first_ok first_fit_ok, of "[0x62]" no_rbnode] not_registered [OF c(3)]
  have "(\<exists>c'. conhash_add_CacheServer new_first first_fit no_rbnode [0x62] c = Some c' \<and>
        servers_ok True c' byte_sum (add_keys [0x62] (server_pos byte_sum [0x62]) map_a)) \<and>
     conhash_del_CacheServer [0x62] c = Some c" by simp
  with c(1) show ?thesis by blast
qed

theorem con_hash_moves_witness:
  "\<exists>c c1. ring_a = Some c \<and> conhash_add_CacheServer new_first first_fit no_rbnode [0x62] c = Some c1 \<and>
     (\<forall>k. conhash_get_CacheServer c1 k = conhash_get_CacheServer c k \<or> conhash_get_CacheServer c1 k = Some [0x62])"
proof -
  obtain c where c: "ring_a = Some c" "servers_ok True c byte_sum map_a" "dom (nodes_map c) = {[0x61]}" using ring_a_ok by blast
  from con_hash_moves_little [OF c(2) new_first_ok first_fit_ok _ _ not_registered [OF c(3)] map_a_facts(2), of no_rbnode]
    map_a_facts(3) c(1)
  show ?thesis by auto
qed

theorem con_hash_readd_witness:
  "\<exists>c c'. ring_a = Some c \<and> conhash_add_CacheServer new_first first_fit no_rbnode [0x61] c = Some c' \<and>
     conhash_get_CacheServer c' [0x78] = None"
proof -
  obtain c where c: "ring_a = Some c" "servers_ok True c byte_sum map_a" "dom (nodes_map c) = {[0x61]}" using ring_a_ok by blast
  have "server_at map_a (byte_sum (c_str [0x78])) = [0x61]"
    using server_at_owner(2) [OF c(2) map_a_facts(2)] map_a_facts(4) by auto
  with con_hash_readd_dangles [OF c(2) new_first_ok first_fit_ok(1), of "[0x61]" "[0x78]" no_rbnode] c map_a_facts
  show ?thesis by auto
qed

end
