(* ===== verification/DList.thy ===== *)
theory DList
  imports Prelude
begin

text \<open>
  The two doubly linked lists of the repository, \<open>Doublelist\<close> of \<open>cache_server/lru.h\<close> and
  \<open>DLinkList\<close> of \<open>master_server/serverList.h\<close>: nodes in a memory of their own, between two
  sentinels that the list never gives out.  A node is a payload (what the class \<open>Node\<close> of the
  respective file holds besides its links) and two links; address 0 is \<open>nullptr\<close>.

  What the two classes promise is the interface \<open>sentinel_list\<close>: in terms of the list of
  addresses from head to tail, \<open>add\<close> appends and \<open>del\<close> removes.
\<close>

section \<open>State and operations\<close>

record 'a dnode =
  payload :: 'a
  next_of :: nat
  prev_of :: nat

record 'a dlist =
  head :: nat
  tail :: nat
  size_of :: int
  cells :: "nat \<rightharpoonup> 'a dnode"

definition upd_cell :: "nat \<Rightarrow> ('a dnode \<Rightarrow> 'a dnode) \<Rightarrow> 'a dlist \<Rightarrow> 'a dlist option" where
  "upd_cell p f l = do {
     n \<leftarrow> cells l p;
     Some (l\<lparr>cells := (cells l)(p \<mapsto> f n)\<rparr>) }"

definition set_next :: "nat \<Rightarrow> nat \<Rightarrow> 'a dlist \<Rightarrow> 'a dlist option" where
  "set_next p v = upd_cell p (\<lambda>n. n\<lparr>next_of := v\<rparr>)"

definition set_prev :: "nat \<Rightarrow> nat \<Rightarrow> 'a dlist \<Rightarrow> 'a dlist option" where
  "set_prev p v = upd_cell p (\<lambda>n. n\<lparr>prev_of := v\<rparr>)"

text \<open>\<open>Doublelist::addLast\<close>, \<open>remove\<close> and \<open>removeFirst\<close> (0 for \<open>nullptr\<close>).\<close>

definition addLast :: "nat \<Rightarrow> 'a dlist \<Rightarrow> 'a dlist option" where
  "addLast x l = do {
     t \<leftarrow> cells l (tail l);
     l \<leftarrow> set_prev x (prev_of t) l;
     l \<leftarrow> set_next x (tail l) l;
     t \<leftarrow> cells l (tail l);
     l \<leftarrow> set_next (prev_of t) x l;
     l \<leftarrow> set_prev (tail l) x l;
     Some (l\<lparr>size_of := size_of l + 1\<rparr>) }"

definition list_remove :: "nat \<Rightarrow> 'a dlist \<Rightarrow> 'a dlist option" where
  "list_remove x l = do {
     n \<leftarrow> cells l x;
     l \<leftarrow> set_next (prev_of n) (next_of n) l;
     n \<leftarrow> cells l x;
     l \<leftarrow> set_prev (next_of n) (prev_of n) l;
     Some (l\<lparr>size_of := size_of l - 1\<rparr>) }"

definition removeFirst :: "'a dlist \<Rightarrow> ('a dlist \<times> nat) option" where
  "removeFirst l = do {
     h \<leftarrow> cells l (head l);
     (if next_of h = tail l then Some (l, 0)
      else do {
        let first = next_of h;
        l \<leftarrow> list_remove first l;
        Some (l, first) }) }"

text \<open>\<open>DLinkList::addLast\<close> (its links are written in another order) and \<open>delNode\<close>, which frees.\<close>

definition dlink_addLast :: "nat \<Rightarrow> 'a dlist \<Rightarrow> 'a dlist option" where
  "dlink_addLast node l = do {
     t \<leftarrow> cells l (tail l);
     l \<leftarrow> set_next (prev_of t) node l;
     t \<leftarrow> cells l (tail l);
     l \<leftarrow> set_prev node (prev_of t) l;
     l \<leftarrow> set_next node (tail l) l;
     l \<leftarrow> set_prev (tail l) node l;
     Some (l\<lparr>size_of := size_of l + 1\<rparr>) }"

definition delete_cell :: "nat \<Rightarrow> 'a dlist \<Rightarrow> 'a dlist" where
  "delete_cell p l = l\<lparr>cells := (cells l)(p := None)\<rparr>"

definition dlink_delNode :: "nat \<Rightarrow> 'a dlist \<Rightarrow> 'a dlist option" where
  "dlink_delNode node l = do {
     n \<leftarrow> cells l node;
     l \<leftarrow> set_next (prev_of n) (next_of n) l;
     n \<leftarrow> cells l node;
     l \<leftarrow> set_prev (next_of n) (prev_of n) l;
     Some ((delete_cell node l)\<lparr>size_of := size_of l - 1\<rparr>) }"

text \<open>The walk from a node to the tail that both classes' loops make, collecting addresses.\<close>

partial_function (option) walk_to_tail :: "'a dlist \<Rightarrow> nat \<Rightarrow> nat list option" where
  "walk_to_tail l travel =
     (if travel = tail l then Some []
      else do {
        n \<leftarrow> cells l travel;
        ps \<leftarrow> walk_to_tail l (next_of n);
        Some (travel # ps) })"

text \<open>
  The destructors: the loop that both have, then the ends of the list, which the one class deletes
  only when the pointer is null.
\<close>

partial_function (option) delete_nodes :: "nat \<Rightarrow> 'a dlist \<Rightarrow> 'a dlist option" where
  "delete_nodes travel l =
     (if travel = tail l then Some l
      else do {
        n \<leftarrow> cells l travel;
        delete_nodes (next_of n) (delete_cell travel l) })"

definition doublelist_delete :: "'a dlist \<Rightarrow> 'a dlist option" where
  "doublelist_delete l = do {
     h \<leftarrow> cells l (head l);
     l \<leftarrow> delete_nodes (next_of h) l;
     let l = (if head l = 0 then delete_cell (head l) l else l);
     Some (if tail l = 0 then delete_cell (tail l) l else l) }"

definition dlink_delete :: "'a dlist \<Rightarrow> 'a dlist option" where
  "dlink_delete l = do {
     h \<leftarrow> cells l (head l);
     l \<leftarrow> delete_nodes (next_of h) l;
     Some (delete_cell (tail l) (delete_cell (head l) l)) }"

section \<open>Linked addresses\<close>

fun linked :: "(nat \<rightharpoonup> 'a dnode) \<Rightarrow> nat list \<Rightarrow> bool" where
  "linked h (a # b # ps) \<longleftrightarrow>
     map_option next_of (h a) = Some b \<and> map_option prev_of (h b) = Some a \<and> linked h (b # ps)"
| "linked h ps \<longleftrightarrow> True"

definition dll :: "'a dlist \<Rightarrow> nat list \<Rightarrow> bool" where
  "dll l ps \<longleftrightarrow> distinct (head l # ps @ [tail l]) \<and> linked (cells l) (head l # ps @ [tail l]) \<and>
     0 \<notin> set (head l # ps @ [tail l]) \<and> size_of l = int (length ps) \<and> finite (dom (cells l))"

lemma linked_append:
  "linked h (ps @ a # qs) \<longleftrightarrow> linked h (ps @ [a]) \<and> linked h (a # qs)"
proof (induction ps)
  case (Cons p ps)
  then show ?case by (cases ps) auto
qed simp

lemma linked_cong:
  assumes "\<And>a. a \<in> set (butlast ps) \<Longrightarrow> map_option next_of (h' a) = map_option next_of (h a)"
    and "\<And>a. a \<in> set (tl ps) \<Longrightarrow> map_option prev_of (h' a) = map_option prev_of (h a)"
  shows "linked h' ps \<longleftrightarrow> linked h ps"
  using assms
proof (induction h ps rule: linked.induct)
  case (1 h p q ps)
  have "linked h' (q # ps) \<longleftrightarrow> linked h (q # ps)"
    by (rule "1.IH") (use "1.prems" in \<open>auto split: if_splits\<close>)
  with "1.prems"(1) [of p] "1.prems"(2) [of q] show ?case by simp
qed auto

lemma linked_set_next:
  "a \<notin> set (butlast ps) \<Longrightarrow> h a = Some n \<Longrightarrow> linked (h(a \<mapsto> n\<lparr>next_of := v\<rparr>)) ps \<longleftrightarrow> linked h ps"
  by (rule linked_cong) auto

lemma linked_set_prev:
  "a \<notin> set (tl ps) \<Longrightarrow> h a = Some n \<Longrightarrow> linked (h(a \<mapsto> n\<lparr>prev_of := v\<rparr>)) ps \<longleftrightarrow> linked h ps"
  by (rule linked_cong) auto

lemma in_tl: "a \<in> set (tl ps) \<Longrightarrow> a \<in> set ps"
  by (cases ps) auto

lemma linked_other: "a \<notin> set ps \<Longrightarrow> linked (h(a := v)) ps \<longleftrightarrow> linked h ps"
  by (rule linked_cong) (auto dest: in_set_butlastD in_tl)

lemma linked_payload:
  "h a = Some n \<Longrightarrow> next_of n' = next_of n \<Longrightarrow> prev_of n' = prev_of n \<Longrightarrow>
   linked (h(a \<mapsto> n')) ps \<longleftrightarrow> linked h ps"
  by (rule linked_cong) auto

lemma dll_notin: "dll l ps \<Longrightarrow> x \<in> set ps \<Longrightarrow> x \<noteq> head l \<and> x \<noteq> tail l \<and> x \<noteq> 0"
  unfolding dll_def by (cases "x = 0") auto

text \<open>The last address before the tail, and what surrounds an address of the list.\<close>

lemma dll_last:
  assumes "dll l ps"
  obtains qs a t n where "head l # ps = qs @ [a]" "cells l (tail l) = Some t" "prev_of t = a"
    "cells l a = Some n" "next_of n = tail l" "linked (cells l) (qs @ [a])"
proof -
  obtain qs a where qs: "head l # ps = qs @ [a]" by (metis list.distinct(1) rev_exhaust)
  have "linked (cells l) ((head l # ps) @ [tail l])" using assms by (simp add: dll_def)
  then have "linked (cells l) (qs @ a # [tail l])" unfolding qs by simp
  then have "linked (cells l) (qs @ [a])" "linked (cells l) [a, tail l]"
    using linked_append [of "cells l" qs a "[tail l]"] by simp_all
  with qs that show ?thesis by auto
qed

lemma dll_split:
  assumes "dll l ps" "x \<in> set ps"
  obtains us vs as a b bs n where "ps = us @ x # vs" "head l # us = as @ [a]" "vs @ [tail l] = b # bs"
    "cells l x = Some n" "prev_of n = a" "next_of n = b"
    "linked (cells l) (as @ [a])" "linked (cells l) (b # bs)" "\<exists>m. cells l a = Some m" "\<exists>m. cells l b = Some m"
proof -
  from assms(2) obtain us vs where ps: "ps = us @ x # vs" by (auto dest: split_list)
  obtain as a where a: "head l # us = as @ [a]" by (metis list.distinct(1) rev_exhaust)
  obtain b bs where b: "vs @ [tail l] = b # bs" by (cases "vs @ [tail l]") auto
  have "linked (cells l) (((head l # us) @ x # vs) @ [tail l])" using assms(1) ps by (simp add: dll_def)
  then have "linked (cells l) (as @ a # x # b # bs)" unfolding a using b by simp
  then have "linked (cells l) (as @ [a])" "linked (cells l) (a # x # b # bs)"
    using linked_append [of "cells l" as a "x # b # bs"] by simp_all
  with ps a b that show ?thesis by auto
qed

section \<open>The operations\<close>

text \<open>Payloads are kept everywhere, liveness too; the sentinels stay.\<close>

definition links_only :: "'a dlist \<Rightarrow> 'a dlist \<Rightarrow> bool" where
  "links_only l l' \<longleftrightarrow> head l' = head l \<and> tail l' = tail l \<and>
     (\<forall>p. map_option payload (cells l' p) = map_option payload (cells l p))"

lemma links_only_dom: "links_only l l' \<Longrightarrow> dom (cells l') = dom (cells l)"
  unfolding links_only_def by (auto simp: dom_def) (metis option.map_disc_iff not_None_eq)+

lemma set_next_Some: "cells l p = Some n \<Longrightarrow> set_next p v l = Some (l\<lparr>cells := (cells l)(p \<mapsto> n\<lparr>next_of := v\<rparr>)\<rparr>)"
  by (simp add: set_next_def upd_cell_def)

lemma set_prev_Some: "cells l p = Some n \<Longrightarrow> set_prev p v l = Some (l\<lparr>cells := (cells l)(p \<mapsto> n\<lparr>prev_of := v\<rparr>)\<rparr>)"
  by (simp add: set_prev_def upd_cell_def)

text \<open>Both orders of the writes of \<open>addLast\<close> end in the same memory.\<close>

definition appended :: "nat \<Rightarrow> nat \<Rightarrow> 'a dnode \<Rightarrow> 'a dnode \<Rightarrow> 'a dnode \<Rightarrow> 'a dlist \<Rightarrow> 'a dlist" where
  "appended x a n m t l = l\<lparr>cells := (cells l)(x \<mapsto> n\<lparr>prev_of := a, next_of := tail l\<rparr>,
     a \<mapsto> m\<lparr>next_of := x\<rparr>, tail l \<mapsto> t\<lparr>prev_of := x\<rparr>), size_of := size_of l + 1\<rparr>"

lemma addLast_appended:
  assumes "cells l (tail l) = Some t" "prev_of t = a" "cells l a = Some m" "cells l x = Some n"
    and "x \<noteq> a" "x \<noteq> tail l" "a \<noteq> tail l"
  shows "addLast x l = Some (appended x a n m t l)" "dlink_addLast x l = Some (appended x a n m t l)"
  using assms
  by (simp_all add: addLast_def dlink_addLast_def set_next_def set_prev_def upd_cell_def appended_def fun_upd_twist)

lemma appended_dll:
  assumes D: "dll l ps" and x: "x \<notin> set ps" "x \<noteq> head l" "x \<noteq> tail l" "x \<noteq> 0" "cells l x = Some n"
  shows "\<exists>l'. addLast x l = Some l' \<and> dlink_addLast x l = Some l' \<and> dll l' (ps @ [x]) \<and> links_only l l'"
proof -
  from dll_last [OF D] obtain qs a t m where qs: "head l # ps = qs @ [a]"
    and t: "cells l (tail l) = Some t" "prev_of t = a"
    and a: "cells l a = Some m" "next_of m = tail l" and L: "linked (cells l) (qs @ [a])" by metis
  have "distinct ((head l # ps) @ [tail l])" "x \<notin> set (head l # ps)" using D x by (simp_all add: dll_def)
  then have ne: "x \<noteq> a" "a \<noteq> tail l" and notin: "a \<notin> set qs" "tail l \<notin> set qs" "x \<notin> set qs"
    unfolding qs by auto
  note app = addLast_appended [OF t a(1) x(5) ne(1) x(3) ne(2)]
  let ?l = "appended x a n m t l"
  have "linked (cells ?l) (qs @ [a]) \<longleftrightarrow> linked (cells l) (qs @ [a])"
    unfolding appended_def using notin ne a(1) t(1) x(5)
    by (intro linked_cong) (auto dest: in_tl)
  then have "linked (cells ?l) (qs @ a # [x, tail l])"
    using L linked_append [of "cells ?l" qs a "[x, tail l]"] ne x(3)
    by (simp add: appended_def)
  then have "linked (cells ?l) ((head l # ps) @ [x, tail l])"
    unfolding qs by simp
  then have "linked (cells ?l) (head ?l # (ps @ [x]) @ [tail ?l])"
    by (simp add: appended_def)
  then have "dll ?l (ps @ [x])"
    using D x unfolding dll_def by (auto simp: appended_def)
  moreover have "links_only l ?l"
    using t a x ne by (auto simp: links_only_def appended_def)
  ultimately show ?thesis using app by blast
qed

text \<open>Unlinking, with or without freeing the node.\<close>

lemma remove_dll:
  assumes D: "dll l ps" and x: "x \<in> set ps"
  shows "\<exists>l'. list_remove x l = Some l' \<and> dlink_delNode x l = Some (delete_cell x l') \<and>
    dll l' (remove1 x ps) \<and> dll (delete_cell x l') (remove1 x ps) \<and> links_only l l'"
proof -
  from dll_split [OF D x] obtain us vs as a b bs n m k where ps: "ps = us @ x # vs"
    and a: "head l # us = as @ [a]" and b: "vs @ [tail l] = b # bs"
    and n: "cells l x = Some n" "prev_of n = a" "next_of n = b"
    and L: "linked (cells l) (as @ [a])" "linked (cells l) (b # bs)"
    and mk: "cells l a = Some m" "cells l b = Some k" by metis
  have "distinct ((head l # us) @ x # vs @ [tail l])" using D ps by (simp add: dll_def)
  then have dist: "distinct (as @ a # x # b # bs)" unfolding a b by simp
  then have ne: "x \<noteq> a" "x \<noteq> b" "a \<noteq> b" by auto
  let ?l = "l\<lparr>cells := (cells l)(a \<mapsto> m\<lparr>next_of := b\<rparr>, b \<mapsto> k\<lparr>prev_of := a\<rparr>), size_of := size_of l - 1\<rparr>"
  have run: "list_remove x l = Some ?l" "dlink_delNode x l = Some (delete_cell x ?l)"
    using n mk ne by (simp_all add: list_remove_def dlink_delNode_def set_next_def set_prev_def upd_cell_def delete_cell_def)
  have "linked (cells ?l) (as @ [a]) \<longleftrightarrow> linked (cells l) (as @ [a])"
    "linked (cells ?l) (b # bs) \<longleftrightarrow> linked (cells l) (b # bs)"
    using dist mk by (intro linked_cong; auto dest: in_tl in_set_butlastD split: if_splits)+
  then have "linked (cells ?l) (as @ a # b # bs)"
    using L linked_append [of "cells ?l" as a "b # bs"] ne by simp
  then have "linked (cells ?l) ((head l # us) @ vs @ [tail l])" unfolding a b by simp
  moreover have rem: "remove1 x ps = us @ vs" using D ps by (simp add: dll_def remove1_append)
  ultimately have dll: "dll ?l (remove1 x ps)" using D ps unfolding dll_def by auto
  have "x \<notin> set (head l # remove1 x ps @ [tail l])" using D ps rem by (auto simp: dll_def)
  then have "linked ((cells ?l)(x := None)) (head l # remove1 x ps @ [tail l])"
    using dll by (subst linked_other) (simp_all add: dll_def)
  then have "dll (delete_cell x ?l) (remove1 x ps)"
    using dll by (simp add: dll_def delete_cell_def)
  moreover have "links_only l ?l" using mk by (auto simp: links_only_def)
  ultimately show ?thesis using run dll by blast
qed

lemma removeFirst_dll:
  assumes "dll l ps"
  shows "removeFirst l = (case ps of [] \<Rightarrow> Some (l, 0)
           | p # _ \<Rightarrow> Option.bind (list_remove p l) (\<lambda>l. Some (l, p)))"
proof (cases ps)
  case Nil
  with assms show ?thesis by (auto simp: removeFirst_def dll_def)
next
  case (Cons p qs)
  with assms have "p \<noteq> tail l" "\<exists>n. cells l (head l) = Some n \<and> next_of n = p" by (auto simp: dll_def)
  with Cons show ?thesis by (auto simp: removeFirst_def Let_def)
qed

lemma walk_linked:
  assumes "linked (cells l) (p # ps @ [tail l])" "tail l \<notin> set (p # ps)"
  shows "walk_to_tail l p = Some (p # ps)"
  using assms
proof (induction ps arbitrary: p)
  case Nil
  then show ?case by (auto simp: walk_to_tail.simps [of l p] walk_to_tail.simps [of l "tail l"])
next
  case (Cons q ps)
  from Cons.IH [of q] Cons.prems show ?case by (auto simp: walk_to_tail.simps [of l p])
qed

lemma walk_dll:
  assumes "dll l ps"
  shows "\<exists>n. cells l (head l) = Some n \<and> walk_to_tail l (next_of n) = Some ps"
proof (cases ps)
  case Nil
  with assms show ?thesis by (auto simp: dll_def walk_to_tail.simps)
next
  case (Cons p qs)
  with assms have "linked (cells l) (p # qs @ [tail l])" "tail l \<notin> set (p # qs)"
    "\<exists>n. cells l (head l) = Some n \<and> next_of n = p" by (auto simp: dll_def)
  with walk_linked Cons show ?thesis by metis
qed

text \<open>Both loops free the nodes; the ends stay allocated in the one class.\<close>

lemma delete_linked:
  assumes "linked (cells l) (p # ps @ [tail l])" "distinct (p # ps @ [tail l])"
  shows "delete_nodes p l = Some (l\<lparr>cells := cells l |` (- set (p # ps))\<rparr>)"
  using assms
proof (induction ps arbitrary: p l)
  case Nil
  have "cells l |` (- {p}) = (cells l)(p := None)" by (auto simp: restrict_map_def fun_eq_iff)
  with Nil show ?case
    by (auto simp: delete_nodes.simps [of p l] delete_nodes.simps [of "tail l"] delete_cell_def fun_upd_def)
next
  case (Cons q ps)
  from Cons.prems obtain n where n: "cells l p = Some n" "next_of n = q" by auto
  have "linked (cells (delete_cell p l)) (q # ps @ [tail (delete_cell p l)])"
    using Cons.prems by (auto simp: delete_cell_def linked_other)
  moreover have "distinct (q # ps @ [tail (delete_cell p l)])" using Cons.prems(2) by (simp add: delete_cell_def)
  ultimately have "delete_nodes q (delete_cell p l) = Some ((delete_cell p l)\<lparr>cells := cells (delete_cell p l) |` (- set (q # ps))\<rparr>)"
    by (rule Cons.IH)
  moreover have "cells (delete_cell p l) |` (- set (q # ps)) = cells l |` (- set (p # q # ps))"
    by (auto simp: delete_cell_def restrict_map_def fun_eq_iff)
  moreover have "delete_nodes p l = delete_nodes q (delete_cell p l)"
    using n Cons.prems(2) by (subst delete_nodes.simps) simp
  ultimately show ?case by (simp only: delete_cell_def) simp
qed

lemma delete_lists:
  assumes "dll l ps"
  shows "doublelist_delete l = Some (l\<lparr>cells := cells l |` (- set ps)\<rparr>)"
    "dlink_delete l = Some (l\<lparr>cells := cells l |` (- set (head l # tail l # ps))\<rparr>)"
proof -
  from assms have d: "linked (cells l) (head l # ps @ [tail l])" "distinct (head l # ps @ [tail l])" "head l \<noteq> 0" "tail l \<noteq> 0"
    by (auto simp: dll_def)
  have del: "\<exists>h. cells l (head l) = Some h \<and> delete_nodes (next_of h) l = Some (l\<lparr>cells := cells l |` (- set ps)\<rparr>)"
  proof (cases ps)
    case Nil
    with d(1) show ?thesis by (auto simp: delete_nodes.simps restrict_map_def)
  next
    case (Cons p qs)
    with d delete_linked [of l p qs] show ?thesis by auto
  qed
  then show "doublelist_delete l = Some (l\<lparr>cells := cells l |` (- set ps)\<rparr>)"
    using d(3,4) by (auto simp: doublelist_delete_def)
  have "((cells l |` (- set ps))(head l := None))(tail l := None) = cells l |` (- set (head l # tail l # ps))"
    by (auto simp: restrict_map_def fun_eq_iff)
  with del show "dlink_delete l = Some (l\<lparr>cells := cells l |` (- set (head l # tail l # ps))\<rparr>)"
    by (auto simp: dlink_delete_def delete_cell_def)
qed

lemma dll_new:
  assumes "dll l ps" "cells l x = None"
  shows "dll (l\<lparr>cells := (cells l)(x \<mapsto> n)\<rparr>) ps" "x \<notin> set ps" "x \<noteq> head l" "x \<noteq> tail l"
proof -
  have live: "cells l p \<noteq> None" if "p \<in> set (head l # ps @ [tail l])" for p
    using that dll_last [OF assms(1)] dll_split [OF assms(1)] walk_dll [OF assms(1)]
    by (metis in_set_conv_decomp insert_iff list.simps(15) option.distinct(1) set_append Un_iff empty_iff list.set(1))
  with assms(2) show notin: "x \<notin> set ps" "x \<noteq> head l" "x \<noteq> tail l" by force+
  then have "x \<notin> set (head l # ps @ [tail l])" by auto
  with assms(1) show "dll (l\<lparr>cells := (cells l)(x \<mapsto> n)\<rparr>) ps"
    by (simp add: dll_def linked_other)
qed

section \<open>Lists with an index\<close>

text \<open>
  Both owners of a list keep a hash map from a key of the payload to the address of the node.
  \<open>ys\<close> are the nodes (address and payload) from head to tail, \<open>f\<close> gives the key of a payload.
\<close>

definition addr_map :: "('a \<Rightarrow> 'k) \<Rightarrow> (nat \<times> 'a) list \<Rightarrow> 'k \<rightharpoonup> nat" where
  "addr_map f ys = map_of (map (\<lambda>e. (f (snd e), fst e)) ys)"

definition indexed :: "('a \<Rightarrow> 'k) \<Rightarrow> ('k \<rightharpoonup> nat) \<Rightarrow> 'a dlist \<Rightarrow> (nat \<times> 'a) list \<Rightarrow> bool" where
  "indexed f m l ys \<longleftrightarrow> dll l (map fst ys) \<and>
     (\<forall>e \<in> set ys. map_option payload (cells l (fst e)) = Some (snd e)) \<and>
     distinct (map (\<lambda>e. f (snd e)) ys) \<and> m = addr_map f ys \<and> cells l 0 = None"

lemma addr_map_without: "addr_map f (filter (\<lambda>e. f (snd e) \<noteq> k) ys) = (addr_map f ys)(k := None)"
  using map_of_filter_neq [of k "map (\<lambda>e. (f (snd e), fst e)) ys"]
  by (simp add: addr_map_def filter_map o_def)

lemma addr_map_snoc:
  "f (snd e) \<notin> (\<lambda>e. f (snd e)) ` set ys \<Longrightarrow> addr_map f (ys @ [e]) = (addr_map f ys)(f (snd e) \<mapsto> fst e)"
  using map_of_snoc [of "f (snd e)" "map (\<lambda>e. (f (snd e), fst e)) ys" "fst e"]
  by (simp add: addr_map_def image_image)

lemma addr_map_Some:
  "distinct (map (\<lambda>e. f (snd e)) ys) \<Longrightarrow> addr_map f ys k = Some p \<longleftrightarrow> (\<exists>d. (p, d) \<in> set ys \<and> f d = k)"
  by (force simp: addr_map_def o_def)

lemma addr_map_None: "addr_map f ys k = None \<longleftrightarrow> k \<notin> (\<lambda>e. f (snd e)) ` set ys"
  by (simp add: addr_map_def map_of_eq_None_iff image_image)

lemma indexedD:
  assumes "indexed f m l ys"
  shows "dll l (map fst ys)" "distinct (map fst ys)" "distinct (map (\<lambda>e. f (snd e)) ys)" "m = addr_map f ys"
    "cells l 0 = None" "e \<in> set ys \<Longrightarrow> map_option payload (cells l (fst e)) = Some (snd e)"
    "(p, d) \<in> set ys \<Longrightarrow> m (f d) = Some p" "m k = None \<longleftrightarrow> k \<notin> (\<lambda>e. f (snd e)) ` set ys"
  using assms addr_map_Some [of f ys] addr_map_None [of f ys] unfolding indexed_def by (auto simp: dll_def)

lemma remove1_filter:
  assumes "distinct (map fst ys)" "distinct (map (\<lambda>e. f (snd e)) ys)" "(x, d) \<in> set ys"
  shows "remove1 x (map fst ys) = map fst (filter (\<lambda>e. f (snd e) \<noteq> f d) ys)"
  using assms
proof (induction ys)
  case (Cons y ys)
  show ?case
  proof (cases "y = (x, d)")
    case True
    with Cons.prems(2) have "filter (\<lambda>e. f (snd e) \<noteq> f d) ys = ys" by (auto simp: filter_id_conv image_iff)
    with True show ?thesis by simp
  next
    case False
    with Cons.prems have "(x, d) \<in> set ys" by auto
    moreover from this Cons.prems have "fst y \<noteq> x" "f (snd y) \<noteq> f d" by (force simp: image_iff)+
    ultimately show ?thesis using Cons by simp
  qed
qed simp

lemma indexed_delete_cell:
  assumes "indexed f m l ys" "x \<notin> fst ` set ys" "x \<noteq> head l" "x \<noteq> tail l"
  shows "indexed f m (delete_cell x l) ys"
proof -
  note P = indexedD [OF assms(1)]
  have "fst e \<noteq> x" if "e \<in> set ys" for e using that assms(2) by force
  with P(6) have "\<forall>e \<in> set ys. map_option payload (cells (delete_cell x l) (fst e)) = Some (snd e)"
    by (simp add: delete_cell_def)
  moreover have "dll (delete_cell x l) (map fst ys)"
    using P(1) assms(2-4) by (simp add: dll_def delete_cell_def linked_other)
  ultimately show ?thesis using P(3-5) by (simp add: indexed_def delete_cell_def)
qed

section \<open>The interface\<close>

locale sentinel_list =
  fixes add :: "nat \<Rightarrow> 'a dlist \<Rightarrow> 'a dlist option"
    and del :: "nat \<Rightarrow> 'a dlist \<Rightarrow> 'a dlist option"
  assumes add: "dll l ps \<Longrightarrow> x \<notin> set ps \<Longrightarrow> x \<noteq> head l \<Longrightarrow> x \<noteq> tail l \<Longrightarrow> x \<noteq> 0 \<Longrightarrow> cells l x \<noteq> None \<Longrightarrow>
      \<exists>l'. add x l = Some l' \<and> dll l' (ps @ [x]) \<and> links_only l l'"
    and del: "dll l ps \<Longrightarrow> x \<in> set ps \<Longrightarrow>
      \<exists>l'. del x l = Some l' \<and> dll l' (remove1 x ps) \<and> head l' = head l \<and> tail l' = tail l \<and>
        (\<forall>p. p \<noteq> x \<longrightarrow> map_option payload (cells l' p) = map_option payload (cells l p))"
begin

text \<open>A new node with a payload at the end.\<close>

lemma add_new:
  assumes "dll l ps" "cells l x = None" "x \<noteq> 0"
  shows "\<exists>l'. add x (l\<lparr>cells := (cells l)(x \<mapsto> n)\<rparr>) = Some l' \<and> dll l' (ps @ [x]) \<and>
    head l' = head l \<and> tail l' = tail l \<and> map_option payload (cells l' x) = Some (payload n) \<and>
    (\<forall>p. p \<noteq> x \<longrightarrow> map_option payload (cells l' p) = map_option payload (cells l p))"
proof -
  let ?l = "l\<lparr>cells := (cells l)(x \<mapsto> n)\<rparr>"
  have "x \<notin> set ps" "x \<noteq> head ?l" "x \<noteq> tail ?l" "cells ?l x \<noteq> None"
    using dll_new(2-4) [OF assms(1,2)] by simp_all
  from add [OF dll_new(1) [OF assms(1,2)] this(1-3) assms(3) this(4)] obtain l' where
    l': "add x ?l = Some l'" "dll l' (ps @ [x])" "links_only ?l l'" by blast
  then have P: "map_option payload (cells l' p) = map_option payload (cells ?l p)"
    "head l' = head l" "tail l' = tail l" for p
    by (simp_all add: links_only_def)
  have "map_option payload (cells l' x) = Some (payload n)"
    "\<forall>p. p \<noteq> x \<longrightarrow> map_option payload (cells l' p) = map_option payload (cells l p)"
    unfolding P(1) by simp_all
  with l' P(2,3) show ?thesis by blast
qed

text \<open>A new node and its index entry; a node and its index entry taken out.\<close>

lemma add_indexed:
  assumes I: "indexed f m l ys" and d: "f d \<notin> (\<lambda>e. f (snd e)) ` set ys" and x: "cells l x = None" "x \<noteq> 0"
  shows "\<exists>l'. add x (l\<lparr>cells := (cells l)(x \<mapsto> \<lparr>payload = d, next_of = n1, prev_of = n2\<rparr>)\<rparr>) = Some l' \<and>
    indexed f (m(f d \<mapsto> x)) l' (ys @ [(x, d)])"
proof -
  note P = indexedD [OF I]
  from add_new [OF P(1) x, of "\<lparr>payload = d, next_of = n1, prev_of = n2\<rparr>"] obtain l' where
    l: "add x (l\<lparr>cells := (cells l)(x \<mapsto> \<lparr>payload = d, next_of = n1, prev_of = n2\<rparr>)\<rparr>) = Some l'"
      "dll l' (map fst ys @ [x])" "map_option payload (cells l' x) = Some d"
      "\<forall>p. p \<noteq> x \<longrightarrow> map_option payload (cells l' p) = map_option payload (cells l p)" by auto
  have "map_option payload (cells l' (fst e)) = Some (snd e)" if "e \<in> set ys" for e
  proof -
    have "fst e \<noteq> x" using P(6) [OF that] x(1) by auto
    with l(4) P(6) [OF that] show ?thesis by simp
  qed
  then have "\<forall>e \<in> set (ys @ [(x, d)]). map_option payload (cells l' (fst e)) = Some (snd e)"
    using l(3) by (metis UnE fst_conv list.set(1) list.set(2) set_append singletonD snd_conv insertE empty_iff)
  moreover have "cells l' 0 = None" using l(4) x(2) P(5) by (metis option.map_disc_iff)
  moreover have "addr_map f (ys @ [(x, d)]) = m(f d \<mapsto> x)"
    using addr_map_snoc [of f "(x, d)" ys] d P(4) by simp
  ultimately have "indexed f (m(f d \<mapsto> x)) l' (ys @ [(x, d)])"
    using l(2) P(3) d by (auto simp: indexed_def)
  with l(1) show ?thesis by blast
qed

lemma del_indexed:
  assumes I: "indexed f m l ys" and x: "(x, d) \<in> set ys"
  shows "\<exists>l'. del x l = Some l' \<and> head l' = head l \<and> tail l' = tail l \<and>
    indexed f (m(f d := None)) l' (filter (\<lambda>e. f (snd e) \<noteq> f d) ys)"
proof -
  note P = indexedD [OF I]
  let ?ys = "filter (\<lambda>e. f (snd e) \<noteq> f d) ys"
  have xin: "x \<in> set (map fst ys)" using x by force
  then have x0: "x \<noteq> 0" using P(1) unfolding dll_def by (metis Un_iff list.set_intros(2) set_append)
  from del [OF P(1) xin] obtain l' where l': "del x l = Some l'" "dll l' (map fst ?ys)" "head l' = head l"
    "tail l' = tail l" "\<forall>p. p \<noteq> x \<longrightarrow> map_option payload (cells l' p) = map_option payload (cells l p)"
    unfolding remove1_filter [where f = f, OF P(2,3) x] by blast
  have "map_option payload (cells l' (fst e)) = Some (snd e)" if "e \<in> set ?ys" for e
  proof -
    have "e \<in> set ys" "e \<noteq> (x, d)" using that by auto
    with distinct_same [OF P(2) _ x, of e] have "fst e \<noteq> x" by auto
    with l'(5) P(6) [OF \<open>e \<in> set ys\<close>] show ?thesis by simp
  qed
  moreover have "cells l' 0 = None" using l'(5) x0 P(5) by (metis option.map_disc_iff)
  moreover have "distinct (map (\<lambda>e. f (snd e)) ?ys)" using P(3) by (simp add: distinct_map_filter)
  ultimately have "indexed f (m(f d := None)) l' ?ys"
    using l'(2) P(4) by (simp add: indexed_def addr_map_without)
  with l' show ?thesis by blast
qed

end

interpretation dl: sentinel_list addLast list_remove
proof
  fix l :: "'a dlist" and ps x
  show "dll l ps \<Longrightarrow> x \<notin> set ps \<Longrightarrow> x \<noteq> head l \<Longrightarrow> x \<noteq> tail l \<Longrightarrow> x \<noteq> 0 \<Longrightarrow> cells l x \<noteq> None \<Longrightarrow>
      \<exists>l'. addLast x l = Some l' \<and> dll l' (ps @ [x]) \<and> links_only l l'"
    using appended_dll [of l ps x] by blast
  show "dll l ps \<Longrightarrow> x \<in> set ps \<Longrightarrow>
      \<exists>l'. list_remove x l = Some l' \<and> dll l' (remove1 x ps) \<and> head l' = head l \<and> tail l' = tail l \<and>
        (\<forall>p. p \<noteq> x \<longrightarrow> map_option payload (cells l' p) = map_option payload (cells l p))"
    using remove_dll [of l ps x] unfolding links_only_def by blast
qed

interpretation dlink: sentinel_list dlink_addLast dlink_delNode
proof
  fix l :: "'a dlist" and ps x
  show "dll l ps \<Longrightarrow> x \<notin> set ps \<Longrightarrow> x \<noteq> head l \<Longrightarrow> x \<noteq> tail l \<Longrightarrow> x \<noteq> 0 \<Longrightarrow> cells l x \<noteq> None \<Longrightarrow>
      \<exists>l'. dlink_addLast x l = Some l' \<and> dll l' (ps @ [x]) \<and> links_only l l'"
    using appended_dll [of l ps x] by blast
  show "\<exists>l'. dlink_delNode x l = Some l' \<and> dll l' (remove1 x ps) \<and> head l' = head l \<and> tail l' = tail l \<and>
        (\<forall>p. p \<noteq> x \<longrightarrow> map_option payload (cells l' p) = map_option payload (cells l p))"
    if "dll l ps" "x \<in> set ps"
  proof -
    from remove_dll [OF that] obtain l' where "dlink_delNode x l = Some (delete_cell x l')"
      "dll (delete_cell x l') (remove1 x ps)" "links_only l l'" by blast
    then show ?thesis by (intro exI [of _ "delete_cell x l'"]) (simp add: links_only_def delete_cell_def)
  qed
qed

end
