(* ===== verification/Lru.thy ===== *)
theory Lru
  imports DList
begin

text \<open>
  The least-recently-used cache of \<open>cache_server/lru.h\<close>.  The bodies of \<open>LRUCache\<close> and
  \<open>ThreadSafeLRUCache\<close> are the same; the second takes its mutex around every operation but
  \<open>hasKey\<close>, so that an operation is one step and a check with \<open>hasKey\<close> is a step of its own.

  A cache is a hash map from keys to list nodes and a list of nodes from the least to the most
  recently used.  \<open>new\<close> is the parameter \<open>al\<close>.
\<close>

section \<open>State\<close>

record ('k, 'v) lru_data =
  lkey :: 'k
  lval :: 'v
  ldirty :: bool

record ('k, 'v) lru_cache =
  lmap :: "'k \<rightharpoonup> nat"
  lcache :: "('k, 'v) lru_data dlist"
  lcap :: int

definition lru_live :: "('k, 'v) lru_cache \<Rightarrow> nat \<Rightarrow> bool" where
  "lru_live c a \<longleftrightarrow> cells (lcache c) a \<noteq> None"

text \<open>
  The constructor: the sentinels hold default values, and the outer links of the sentinels hold
  whatever was in the memory.
\<close>

definition doublelist_new :: "new_fun \<Rightarrow> 'a \<Rightarrow> nat \<Rightarrow> nat \<Rightarrow> 'a dlist" where
  "doublelist_new al def junk1 junk2 =
     (let h = al (\<lambda>_. False); t = al (\<lambda>a. a = h)
      in \<lparr>head = h, tail = t, size_of = 0,
          cells = [h \<mapsto> \<lparr>payload = def, next_of = t, prev_of = junk1\<rparr>,
                   t \<mapsto> \<lparr>payload = def, next_of = junk2, prev_of = h\<rparr>]\<rparr>)"

definition lru_new :: "new_fun \<Rightarrow> 'k \<Rightarrow> 'v \<Rightarrow> nat \<Rightarrow> nat \<Rightarrow> int \<Rightarrow> ('k, 'v) lru_cache" where
  "lru_new al k v junk1 junk2 capacity =
     \<lparr>lmap = Map.empty,
      lcache = doublelist_new al \<lparr>lkey = k, lval = v, ldirty = False\<rparr> junk1 junk2, lcap = capacity\<rparr>"

section \<open>Operations\<close>

text \<open>\<open>map[key]\<close> of a hash map of pointers: a missing key is inserted with a null pointer.\<close>

definition map_index :: "'k \<Rightarrow> ('k, 'v) lru_cache \<Rightarrow> ('k, 'v) lru_cache \<times> nat" where
  "map_index k c = (case lmap c k of
     Some x \<Rightarrow> (c, x)
   | None \<Rightarrow> (c\<lparr>lmap := (lmap c)(k \<mapsto> 0)\<rparr>, 0))"

definition makeRecently :: "'k \<Rightarrow> ('k, 'v) lru_cache \<Rightarrow> ('k, 'v) lru_cache option" where
  "makeRecently k c =
     (let (c, x) = map_index k c
      in do {
        l \<leftarrow> list_remove x (lcache c);
        l \<leftarrow> addLast x l;
        Some (c\<lparr>lcache := l\<rparr>) })"

definition addRecently :: "new_fun \<Rightarrow> 'k \<Rightarrow> 'v \<Rightarrow> ('k, 'v) lru_cache \<Rightarrow> ('k, 'v) lru_cache option" where
  "addRecently al k v c =
     (let x = al (lru_live c);
          l = lcache c;
          l = l\<lparr>cells := (cells l)(x \<mapsto>
                 \<lparr>payload = \<lparr>lkey = k, lval = v, ldirty = False\<rparr>, next_of = 0, prev_of = 0\<rparr>)\<rparr>
      in do {
        l \<leftarrow> addLast x l;
        Some (c\<lparr>lcache := l, lmap := (if lmap c k = None then (lmap c)(k \<mapsto> x) else lmap c)\<rparr>) })"

definition deleteKey :: "'k \<Rightarrow> ('k, 'v) lru_cache \<Rightarrow> ('k, 'v) lru_cache option" where
  "deleteKey k c =
     (let (c, x) = map_index k c
      in do {
        l \<leftarrow> list_remove x (lcache c);
        Some (c\<lparr>lcache := delete_cell x l, lmap := (lmap c)(k := None)\<rparr>) })"

definition removeLeastRecently :: "('k, 'v) lru_cache \<Rightarrow> ('k, 'v) lru_cache option" where
  "removeLeastRecently c = do {
     (l, x) \<leftarrow> removeFirst (lcache c);
     n \<leftarrow> cells l x;
     Some (c\<lparr>lcache := delete_cell x l, lmap := (lmap c)(lkey (payload n) := None)\<rparr>) }"

definition hasKey :: "'k \<Rightarrow> ('k, 'v) lru_cache \<Rightarrow> bool" where
  "hasKey k c \<longleftrightarrow> lmap c k \<noteq> None"

definition lru_set :: "new_fun \<Rightarrow> 'k \<Rightarrow> 'v \<Rightarrow> ('k, 'v) lru_cache \<Rightarrow> ('k, 'v) lru_cache option" where
  "lru_set al k v c =
     (if hasKey k c then do {
        c \<leftarrow> deleteKey k c;
        addRecently al k v c }
      else do {
        c \<leftarrow> (if lcap c = size_of (lcache c) then removeLeastRecently c else Some c);
        addRecently al k v c })"

definition lru_get :: "'k \<Rightarrow> ('k, 'v) lru_cache \<Rightarrow> (('k, 'v) lru_cache \<times> 'v) option" where
  "lru_get k c = do {
     c \<leftarrow> makeRecently k c;
     let (c, x) = map_index k c;
     n \<leftarrow> cells (lcache c) x;
     Some (c, lval (payload n)) }"

definition lru_keys_oneshot :: "('k, 'v) lru_cache \<Rightarrow> 'k list option" where
  "lru_keys_oneshot c = do {
     h \<leftarrow> cells (lcache c) (head (lcache c));
     ps \<leftarrow> walk_to_tail (lcache c) (next_of h);
     Some (map (\<lambda>p. lkey (payload (the (cells (lcache c) p)))) ps) }"

definition set_flag :: "bool \<Rightarrow> 'k \<Rightarrow> ('k, 'v) lru_cache \<Rightarrow> ('k, 'v) lru_cache option" where
  "set_flag d k c =
     (case lmap c k of None \<Rightarrow> Some c
      | Some x \<Rightarrow> do {
          l \<leftarrow> upd_cell x (\<lambda>n. n\<lparr>payload := (payload n)\<lparr>ldirty := d\<rparr>\<rparr>) (lcache c);
          Some (c\<lparr>lcache := l\<rparr>) })"

definition set_dirty :: "'k \<Rightarrow> ('k, 'v) lru_cache \<Rightarrow> ('k, 'v) lru_cache option" where
  "set_dirty = set_flag True"

definition set_clean :: "'k \<Rightarrow> ('k, 'v) lru_cache \<Rightarrow> ('k, 'v) lru_cache option" where
  "set_clean = set_flag False"

definition is_dirty :: "'k \<Rightarrow> ('k, 'v) lru_cache \<Rightarrow> bool option" where
  "is_dirty k c =
     (case lmap c k of None \<Rightarrow> Some False
      | Some x \<Rightarrow> map_option (\<lambda>n. ldirty (payload n)) (cells (lcache c) x))"

text \<open>
  The class \<open>LRUCache\<close> without a lock has the same private operations and the same three public ones.
\<close>

definition LRUCache_hasKey :: "'k \<Rightarrow> ('k, 'v) lru_cache \<Rightarrow> bool" where
  "LRUCache_hasKey k c \<longleftrightarrow> lmap c k \<noteq> None"

definition LRUCache_set :: "new_fun \<Rightarrow> 'k \<Rightarrow> 'v \<Rightarrow> ('k, 'v) lru_cache \<Rightarrow> ('k, 'v) lru_cache option" where
  "LRUCache_set al k v c =
     (if lmap c k \<noteq> None then do {
        c \<leftarrow> deleteKey k c;
        addRecently al k v c }
      else do {
        c \<leftarrow> (if lcap c = size_of (lcache c) then removeLeastRecently c else Some c);
        addRecently al k v c })"

definition LRUCache_get :: "'k \<Rightarrow> ('k, 'v) lru_cache \<Rightarrow> (('k, 'v) lru_cache \<times> 'v) option" where
  "LRUCache_get k c = do {
     c \<leftarrow> makeRecently k c;
     let (c, x) = map_index k c;
     n \<leftarrow> cells (lcache c) x;
     Some (c, lval (payload n)) }"

lemma LRUCache_same: "LRUCache_set = lru_set" "LRUCache_get = lru_get" "LRUCache_hasKey = hasKey"
  by (simp_all add: fun_eq_iff LRUCache_set_def LRUCache_get_def LRUCache_hasKey_def lru_set_def lru_get_def hasKey_def)

section \<open>The abstract cache\<close>

text \<open>A list of entries from the least to the most recently used.\<close>

type_synonym ('k, 'v) lru_list = "('k, 'v) lru_data list"

definition without :: "'k \<Rightarrow> ('k, 'v) lru_list \<Rightarrow> ('k, 'v) lru_list" where
  "without k xs = filter (\<lambda>d. lkey d \<noteq> k) xs"

definition entry_of :: "'k \<Rightarrow> ('k, 'v) lru_list \<Rightarrow> ('k, 'v) lru_data option" where
  "entry_of k xs = find (\<lambda>d. lkey d = k) xs"

definition spec_set :: "int \<Rightarrow> 'k \<Rightarrow> 'v \<Rightarrow> ('k, 'v) lru_list \<Rightarrow> ('k, 'v) lru_list" where
  "spec_set cap k v xs =
     (if entry_of k xs \<noteq> None then without k xs
      else if int (length xs) = cap then tl xs else xs) @ [\<lparr>lkey = k, lval = v, ldirty = False\<rparr>]"

definition spec_touch :: "'k \<Rightarrow> ('k, 'v) lru_list \<Rightarrow> ('k, 'v) lru_list" where
  "spec_touch k xs = (case entry_of k xs of None \<Rightarrow> xs | Some d \<Rightarrow> without k xs @ [d])"

definition spec_flag :: "bool \<Rightarrow> 'k \<Rightarrow> ('k, 'v) lru_list \<Rightarrow> ('k, 'v) lru_list" where
  "spec_flag b k xs = map (\<lambda>d. if lkey d = k then d\<lparr>ldirty := b\<rparr> else d) xs"

definition lru_pairs :: "('k, 'v) lru_cache \<Rightarrow> (nat \<times> ('k, 'v) lru_data) list \<Rightarrow> bool" where
  "lru_pairs c ys \<longleftrightarrow> dll (lcache c) (map fst ys) \<and>
     (\<forall>(p, d) \<in> set ys. map_option payload (cells (lcache c) p) = Some d) \<and>
     distinct (map (lkey \<circ> snd) ys) \<and> lmap c = map_of (map (\<lambda>(p, d). (lkey d, p)) ys) \<and>
     cells (lcache c) 0 = None"

definition lru_rel :: "('k, 'v) lru_cache \<Rightarrow> ('k, 'v) lru_list \<Rightarrow> bool" where
  "lru_rel c xs \<longleftrightarrow> (\<exists>ys. lru_pairs c ys \<and> xs = map snd ys)"

end
