(* ===== verification/LruTheorems.thy ===== *)
theory LruTheorems
  imports Lru
begin

text \<open>
  The cache against its abstract specification (a list of entries in the order of their last use),
  and what a client sees: the bound, reading back, least-recently-used eviction, and the race
  between \<open>hasKey\<close> and \<open>get\<close>.
\<close>

section \<open>Refinement of the operations\<close>

abbreviation pkey :: "nat \<times> ('k, 'v) lru_data \<Rightarrow> 'k" where
  "pkey e \<equiv> lkey (snd e)"

lemma lru_pairs_indexed: "lru_pairs c ys \<longleftrightarrow> indexed lkey (lmap c) (lcache c) ys"
  unfolding lru_pairs_def indexed_def addr_map_def by (simp add: o_def case_prod_unfold)

lemmas lru_pairsD = indexedD [OF iffD1 [OF lru_pairs_indexed]]

lemma pairs_entry:
  assumes "lru_pairs c ys"
  shows "entry_of k (map snd ys) = Some d \<longleftrightarrow> (\<exists>p. (p, d) \<in> set ys \<and> lkey d = k)"
    and "lmap c k = None \<longleftrightarrow> entry_of k (map snd ys) = None"
    and "(p, d) \<in> set ys \<Longrightarrow> lkey d = k \<Longrightarrow> lmap c k = Some p"
proof -
  note P = lru_pairsD [OF assms]
  have none: "entry_of k (map snd ys) = None \<longleftrightarrow> k \<notin> pkey ` set ys"
    by (auto simp: entry_of_def find_None_iff)
  then show "lmap c k = None \<longleftrightarrow> entry_of k (map snd ys) = None" by (simp add: P(4) addr_map_None)
  show "(p, d) \<in> set ys \<Longrightarrow> lkey d = k \<Longrightarrow> lmap c k = Some p"
    using addr_map_Some [OF P(3)] P(4) by auto
  show "entry_of k (map snd ys) = Some d \<longleftrightarrow> (\<exists>p. (p, d) \<in> set ys \<and> lkey d = k)"
  proof
    assume "entry_of k (map snd ys) = Some d"
    then have "d \<in> snd ` set ys" "lkey d = k" unfolding entry_of_def by (auto simp: find_Some_iff)
    then show "\<exists>p. (p, d) \<in> set ys \<and> lkey d = k" by force
  next
    assume "\<exists>p. (p, d) \<in> set ys \<and> lkey d = k"
    then obtain p where p: "(p, d) \<in> set ys" "lkey d = k" by blast
    with none obtain d' where d': "entry_of k (map snd ys) = Some d'" by force
    then have "d' \<in> snd ` set ys" "lkey d' = k" unfolding entry_of_def by (auto simp: find_Some_iff)
    with p P(3) have "d' = d" by (force simp: distinct_map inj_on_def)
    with d' show "entry_of k (map snd ys) = Some d" by simp
  qed
qed

lemma pairs_delete:
  assumes "lru_pairs c ys" "(x, d) \<in> set ys"
  shows "\<exists>l. list_remove x (lcache c) = Some l \<and>
     lru_pairs (c\<lparr>lcache := delete_cell x l, lmap := (lmap c)(lkey d := None)\<rparr>) (filter (\<lambda>e. pkey e \<noteq> lkey d) ys)"
proof -
  note P = lru_pairsD [OF assms(1)]
  from dl.del_indexed [OF assms(1) [unfolded lru_pairs_indexed] assms(2)] obtain l where
    l: "list_remove x (lcache c) = Some l" "head l = head (lcache c)" "tail l = tail (lcache c)"
      "indexed lkey ((lmap c)(lkey d := None)) l (filter (\<lambda>e. pkey e \<noteq> lkey d) ys)" by auto
  have "fst e \<noteq> x" if "e \<in> set (filter (\<lambda>e. pkey e \<noteq> lkey d) ys)" for e
  proof
    assume "fst e = x"
    with that distinct_same [OF P(2) _ assms(2), of e] have "e = (x, d)" by simp
    with that show False by simp
  qed
  then have "x \<notin> fst ` set (filter (\<lambda>e. pkey e \<noteq> lkey d) ys)" by blast
  moreover have "x \<in> set (map fst ys)" using assms(2) by force
  from dll_notin [OF P(1) this] have "x \<noteq> head l" "x \<noteq> tail l" using l(2,3) by auto
  ultimately show ?thesis using indexed_delete_cell [OF l(4)] l(1) by (simp add: lru_pairs_indexed)
qed

lemma pairs_add:
  assumes "lru_pairs c ys" "k \<notin> pkey ` set ys" "new_ok al"
  shows "\<exists>c' x. addRecently al k v c = Some c' \<and> lcap c' = lcap c \<and>
     lru_pairs c' (ys @ [(x, \<lparr>lkey = k, lval = v, ldirty = False\<rparr>)])"
proof -
  note P = lru_pairsD [OF assms(1)]
  obtain x where xdef: "x = al (lru_live c)" by simp
  have "{a. lru_live c a} = dom (cells (lcache c))" by (auto simp: lru_live_def)
  then have "finite {a. lru_live c a}" using P(1) by (simp add: dll_def)
  from new_ok_fresh(1) [OF assms(3)] new_ok_fresh(2) [OF assms(3) this]
  have "x \<noteq> 0" "\<not> lru_live c x" unfolding xdef by blast+
  then have x: "cells (lcache c) x = None" "x \<noteq> 0" by (simp_all add: lru_live_def)
  have none: "lmap c k = None" using P(8) assms(2) by simp
  from dl.add_indexed [OF assms(1) [unfolded lru_pairs_indexed], of "\<lparr>lkey = k, lval = v, ldirty = False\<rparr>" x 0 0]
    assms(2) x obtain l where "addLast x ((lcache c)\<lparr>cells := (cells (lcache c))(x \<mapsto>
        \<lparr>payload = \<lparr>lkey = k, lval = v, ldirty = False\<rparr>, next_of = 0, prev_of = 0\<rparr>)\<rparr>) = Some l"
      "indexed lkey ((lmap c)(k \<mapsto> x)) l (ys @ [(x, \<lparr>lkey = k, lval = v, ldirty = False\<rparr>)])" by auto
  with none show ?thesis
    by (intro exI [of _ "c\<lparr>lcache := l, lmap := (lmap c)(k \<mapsto> x)\<rparr>"] exI [of _ x])
      (simp add: addRecently_def Let_def lru_pairs_indexed flip: xdef)
qed

lemma pairs_touch:
  assumes "lru_pairs c ys" "(x, d) \<in> set ys"
  shows "\<exists>c'. makeRecently (lkey d) c = Some c' \<and> lcap c' = lcap c \<and>
     lru_pairs c' (filter (\<lambda>e. pkey e \<noteq> lkey d) ys @ [(x, d)])"
proof -
  note P = lru_pairsD [OF assms(1)]
  let ?ys = "filter (\<lambda>e. pkey e \<noteq> lkey d) ys"
  note key = P(7) [OF assms(2)]
  have xin: "x \<in> set (map fst ys)" using assms(2) by force
  note rem = remove1_filter [where f = lkey, OF P(2,3) assms(2)]
  from remove_dll [OF P(1) xin] obtain l where l: "list_remove x (lcache c) = Some l"
    "dll l (map fst ?ys)" "links_only (lcache c) l" unfolding rem by blast
  have "x \<notin> set (map fst ?ys)" unfolding rem [symmetric] using P(2) by (simp add: distinct_map)
  moreover have "x \<noteq> head l" "x \<noteq> tail l" "x \<noteq> 0"
    using dll_notin [OF P(1) xin] l(3) by (simp_all add: links_only_def)
  moreover have "cells l x \<noteq> None"
    using l(3) P(6) [OF assms(2)] unfolding links_only_def by (metis fst_conv option.map_disc_iff option.distinct(1))
  ultimately obtain l' where l': "addLast x l = Some l'" "dll l' (map fst ?ys @ [x])" "links_only l l'"
    using appended_dll [OF l(2)] by blast
  have pay: "map_option payload (cells l' p) = map_option payload (cells (lcache c) p)" for p
    using l(3) l'(3) by (simp add: links_only_def)
  let ?c = "c\<lparr>lcache := l'\<rparr>"
  have "cells l' 0 = None" using pay [of 0] P(5) by simp
  moreover have "\<forall>e \<in> set (?ys @ [(x, d)]). map_option payload (cells l' (fst e)) = Some (snd e)"
    using P(6) assms(2) unfolding pay by auto
  moreover have "addr_map lkey (?ys @ [(x, d)]) = lmap c"
    using addr_map_snoc [of lkey "(x, d)" ?ys] key P(4) by (force simp: addr_map_without fun_upd_idem)
  moreover have "distinct (map pkey (?ys @ [(x, d)]))" using P(3) by (auto simp: distinct_map_filter)
  ultimately have "lru_pairs ?c (?ys @ [(x, d)])" using l'(2) by (simp add: lru_pairs_indexed indexed_def)
  moreover have "makeRecently (lkey d) c = Some ?c"
    using l(1) l'(1) key by (simp add: makeRecently_def map_index_def)
  ultimately show ?thesis by (intro exI [of _ ?c]) simp
qed

lemma without_pairs: "without k (map snd ys) = map snd (filter (\<lambda>e. pkey e \<noteq> k) ys)"
  by (simp add: without_def filter_map o_def)

lemma pairs_evict:
  assumes "lru_pairs c (e # ys)"
  shows "\<exists>c'. removeLeastRecently c = Some c' \<and> lcap c' = lcap c \<and> lru_pairs c' ys"
proof -
  note P = lru_pairsD [OF assms]
  from pairs_delete [OF assms, of "fst e" "snd e"] obtain l where l: "list_remove (fst e) (lcache c) = Some l"
    "lru_pairs (c\<lparr>lcache := delete_cell (fst e) l, lmap := (lmap c)(pkey e := None)\<rparr>)
       (filter (\<lambda>e'. pkey e' \<noteq> pkey e) (e # ys))" by auto
  have "filter (\<lambda>e'. pkey e' \<noteq> pkey e) (e # ys) = ys"
    using P(3) by (auto simp: filter_id_conv image_iff)
  moreover have "removeFirst (lcache c) = Some (l, fst e)"
    using removeFirst_dll [OF P(1)] l(1) by simp
  moreover have "links_only (lcache c) l" using remove_dll [OF P(1), of "fst e"] l(1) by auto
  then have "map_option payload (cells l (fst e)) = Some (snd e)" using P(6) [of e] by (simp add: links_only_def)
  then obtain n where "cells l (fst e) = Some n" "payload n = snd e" by auto
  ultimately show ?thesis using l(2) by (simp add: removeLeastRecently_def)
qed

lemma hasKey_entry: "lru_rel c xs \<Longrightarrow> hasKey k c \<longleftrightarrow> entry_of k xs \<noteq> None"
  unfolding lru_rel_def hasKey_def by (metis pairs_entry(2))

lemma set_runs:
  assumes "lru_rel c xs" "new_ok al" "lcap c \<noteq> 0"
  shows "\<exists>c'. lru_set al k v c = Some c' \<and> lru_rel c' (spec_set (lcap c) k v xs) \<and> lcap c' = lcap c"
proof -
  from assms(1) obtain ys where ys: "lru_pairs c ys" "xs = map snd ys" by (auto simp: lru_rel_def)
  note P = lru_pairsD [OF ys(1)] and E = pairs_entry [OF ys(1)]
  let ?d = "\<lparr>lkey = k, lval = v, ldirty = False\<rparr>"
  show ?thesis
  proof (cases "entry_of k xs")
    case (Some d)
    then obtain x where x: "(x, d) \<in> set ys" "lkey d = k" using E(1) ys(2) by auto
    from E(3) [OF x] have i: "map_index k c = (c, x)" "hasKey k c" by (simp_all add: map_index_def hasKey_def)
    from pairs_delete [OF ys(1) x(1)] x(2) obtain l where l: "list_remove x (lcache c) = Some l"
      "lru_pairs (c\<lparr>lcache := delete_cell x l, lmap := (lmap c)(k := None)\<rparr>) (filter (\<lambda>e. pkey e \<noteq> k) ys)"
      by auto
    from pairs_add [OF l(2) _ assms(2), of k v] obtain c' x' where
      "addRecently al k v (c\<lparr>lcache := delete_cell x l, lmap := (lmap c)(k := None)\<rparr>) = Some c'" "lcap c' = lcap c"
      "lru_pairs c' (filter (\<lambda>e. pkey e \<noteq> k) ys @ [(x', ?d)])" by auto
    with i l(1) Some show ?thesis
      by (auto simp: lru_set_def deleteKey_def spec_set_def lru_rel_def ys(2) without_pairs
          intro!: exI [of _ "filter (\<lambda>e. pkey e \<noteq> k) ys @ [(x', ?d)]"])
  next
    case None
    then have h: "\<not> hasKey k c" "k \<notin> pkey ` set ys"
      using hasKey_entry [OF assms(1)] E(2) [of k] P(4) ys(2) by (auto simp: addr_map_None)
    have sz: "size_of (lcache c) = int (length ys)" using P(1) by (simp add: dll_def)
    obtain c1 where c1: "(if lcap c = size_of (lcache c) then removeLeastRecently c else Some c) = Some c1"
      "lcap c1 = lcap c" "lru_pairs c1 (if int (length ys) = lcap c then tl ys else ys)"
    proof (cases "lcap c = int (length ys)")
      case True
      with assms(3) have "ys = hd ys # tl ys" by (cases ys) auto
      with pairs_evict [of c "hd ys" "tl ys"] ys(1) obtain c' where
        "removeLeastRecently c = Some c'" "lcap c' = lcap c" "lru_pairs c' (tl ys)" by auto
      with that [of c'] True sz show ?thesis by simp
    next
      case False
      with that [of c] sz ys(1) show ?thesis by simp
    qed
    have "k \<notin> pkey ` set (if int (length ys) = lcap c then tl ys else ys)"
      using h(2) by (auto dest: in_tl)
    from pairs_add [OF c1(3) this assms(2), of v] c1(2) obtain c' x' where
      "addRecently al k v c1 = Some c'" "lcap c' = lcap c"
      "lru_pairs c' ((if int (length ys) = lcap c then tl ys else ys) @ [(x', ?d)])" by metis
    with h(1) c1(1) None show ?thesis
      by (auto simp: lru_set_def spec_set_def lru_rel_def ys(2) map_tl
          intro!: exI [of _ "(if int (length ys) = lcap c then tl ys else ys) @ [(x', ?d)]"])
  qed
qed

lemma get_runs:
  assumes "lru_rel c xs" "entry_of k xs = Some d"
  shows "\<exists>c'. lru_get k c = Some (c', lval d) \<and> lru_rel c' (spec_touch k xs) \<and> lcap c' = lcap c"
proof -
  from assms(1) obtain ys where ys: "lru_pairs c ys" "xs = map snd ys" by (auto simp: lru_rel_def)
  from assms(2) obtain x where x: "(x, d) \<in> set ys" "lkey d = k"
    using pairs_entry(1) [OF ys(1)] ys(2) by auto
  from pairs_touch [OF ys(1) x(1)] x(2) obtain c' where c': "makeRecently k c = Some c'" "lcap c' = lcap c"
    "lru_pairs c' (filter (\<lambda>e. pkey e \<noteq> k) ys @ [(x, d)])" by auto
  then have "lmap c' k = Some x" "map_option payload (cells (lcache c') x) = Some d"
    using pairs_entry(3) [OF c'(3), of x d k] lru_pairsD(6) [OF c'(3), of "(x, d)"] x(2) by auto
  then have "lru_get k c = Some (c', lval d)"
    using c'(1) by (auto simp: lru_get_def map_index_def)
  moreover have "lru_rel c' (spec_touch k xs)"
    using c'(3) assms(2) by (auto simp: lru_rel_def spec_touch_def ys(2) without_pairs
        intro!: exI [of _ "filter (\<lambda>e. pkey e \<noteq> k) ys @ [(x, d)]"])
  ultimately show ?thesis using c'(2) by blast
qed

lemma get_absent:
  assumes "lru_rel c xs" "entry_of k xs = None"
  shows "lru_get k c = None"
proof -
  from assms(1) obtain ys where ys: "lru_pairs c ys" "xs = map snd ys" by (auto simp: lru_rel_def)
  with pairs_entry(2) [OF ys(1)] assms(2) have "lmap c k = None" by simp
  with lru_pairsD(5) [OF ys(1)] show ?thesis
    by (simp add: lru_get_def makeRecently_def map_index_def list_remove_def)
qed

lemma flag_runs:
  assumes "lru_rel c xs"
  shows "\<exists>c'. set_flag b k c = Some c' \<and> lru_rel c' (spec_flag b k xs) \<and> lcap c' = lcap c"
proof -
  from assms obtain ys where ys: "lru_pairs c ys" "xs = map snd ys" by (auto simp: lru_rel_def)
  note P = lru_pairsD [OF ys(1)] and E = pairs_entry [OF ys(1)]
  let ?g = "\<lambda>d. if lkey d = k then d\<lparr>ldirty := b\<rparr> else d"
  show ?thesis
  proof (cases "entry_of k xs")
    case None
    then have "spec_flag b k xs = xs"
      by (auto simp: spec_flag_def entry_of_def find_None_iff intro: map_idI)
    moreover have "lmap c k = None" using None E(2) [of k] ys(2) by simp
    ultimately show ?thesis using assms by (simp add: set_flag_def)
  next
    case (Some d)
    then obtain x where x: "(x, d) \<in> set ys" "lkey d = k" using E(1) ys(2) by auto
    from P(6) [OF x(1)] obtain n where n: "cells (lcache c) x = Some n" "payload n = d" by auto
    let ?l = "(lcache c)\<lparr>cells := (cells (lcache c))(x \<mapsto> n\<lparr>payload := d\<lparr>ldirty := b\<rparr>\<rparr>)\<rparr>"
    let ?ys = "map (\<lambda>e. (fst e, ?g (snd e))) ys"
    have same: "fst e = x \<longleftrightarrow> pkey e = k" if "e \<in> set ys" for e
      using distinct_same [OF P(2) that x(1)] distinct_same [OF P(3) that x(1)] x(2) by (cases e) auto
    have addr: "addr_map lkey ?ys = addr_map lkey ys"
      unfolding addr_map_def by (simp add: o_def) (rule arg_cong [of _ _ map_of], auto)
    have keys: "map pkey ?ys = map pkey ys" "map fst ?ys = map fst ys" by auto
    have dll: "dll ?l (map fst ys)" using P(1) n(1) by (simp add: dll_def linked_payload)
    have zero: "cells ?l 0 = None" using P(5) n(1) by (cases "x = 0") auto
    have pay: "map_option payload (cells ?l (fst e)) = Some (?g (snd e))" if "e \<in> set ys" for e
    proof (cases "fst e = x")
      case True
      with distinct_same [OF P(2) that x(1)] have "snd e = d" by (cases e) auto
      with True x(2) show ?thesis by simp
    next
      case False
      with same [OF that] P(6) [OF that] show ?thesis by simp
    qed
    have "lru_pairs (c\<lparr>lcache := ?l\<rparr>) ?ys"
      unfolding lru_pairs_indexed indexed_def
    proof (intro conjI ballI)
      fix e' assume "e' \<in> set ?ys"
      then obtain e where e: "e \<in> set ys" "e' = (fst e, ?g (snd e))" by auto
      show "map_option payload (cells (lcache (c\<lparr>lcache := ?l\<rparr>)) (fst e')) = Some (snd e')"
        using pay [OF e(1)] unfolding e(2) by simp
    qed (unfold keys addr, use dll zero P(3,4) in simp_all)
    moreover have "set_flag b k c = Some (c\<lparr>lcache := ?l\<rparr>)"
      using E(3) [OF x] n by (simp add: set_flag_def upd_cell_def)
    moreover have "spec_flag b k xs = map snd ?ys" by (simp add: spec_flag_def ys(2))
    ultimately show ?thesis by (auto simp: lru_rel_def)
  qed
qed

lemma dirty_runs: "lru_rel c xs \<Longrightarrow> is_dirty k c = Some (case entry_of k xs of None \<Rightarrow> False | Some d \<Rightarrow> ldirty d)"
proof -
  assume "lru_rel c xs"
  then obtain ys where ys: "lru_pairs c ys" "xs = map snd ys" by (auto simp: lru_rel_def)
  note P = lru_pairsD [OF ys(1)] and E = pairs_entry [OF ys(1)]
  show ?thesis
  proof (cases "entry_of k xs")
    case None
    with E(2) [of k] ys(2) show ?thesis by (simp add: is_dirty_def)
  next
    case (Some d)
    then obtain x where x: "(x, d) \<in> set ys" "lkey d = k" using E(1) ys(2) by auto
    with P(6) [OF x(1)] E(3) [OF x] Some show ?thesis by (auto simp: is_dirty_def)
  qed
qed

lemma keys_runs: "lru_rel c xs \<Longrightarrow> lru_keys_oneshot c = Some (map lkey xs)"
proof -
  assume "lru_rel c xs"
  then obtain ys where ys: "lru_pairs c ys" "xs = map snd ys" by (auto simp: lru_rel_def)
  note P = lru_pairsD [OF ys(1)]
  have "lkey (payload (the (cells (lcache c) (fst e)))) = pkey e" if "e \<in> set ys" for e
    using P(6) [OF that] by auto
  with walk_dll [OF P(1)] show ?thesis by (auto simp: lru_keys_oneshot_def ys(2))
qed

lemma new_runs:
  assumes "new_ok al"
  shows "lru_rel (lru_new al k v j1 j2 cap) []"
proof -
  let ?h = "al (\<lambda>_. False)" and ?t = "al (\<lambda>a. a = al (\<lambda>_. False))"
  have "?h \<noteq> 0" "?t \<noteq> 0" "?t \<noteq> ?h"
    using new_ok_fresh(1) [OF assms] new_ok_fresh(2) [OF assms, of "\<lambda>a. a = ?h"] by auto
  then have "lru_pairs (lru_new al k v j1 j2 cap) []"
    by (simp add: lru_pairs_def lru_new_def doublelist_new_def Let_def dll_def)
  then show ?thesis by (auto simp: lru_rel_def)
qed

section \<open>The trace of a client\<close>

text \<open>
  A client stores a key, or reads it after it checked that it is there.  The keys in the order of
  their last use (a read of a key that is not among the last \<open>cap\<close> is no use), and the values last
  stored, are functions of the trace alone.
\<close>

datatype ('k, 'v) lru_op = Put 'k 'v | Get 'k

definition lru_step :: "new_fun \<Rightarrow> ('k, 'v) lru_op \<Rightarrow> ('k, 'v) lru_cache \<Rightarrow> ('k, 'v) lru_cache option" where
  "lru_step al op c = (case op of
     Put k v \<Rightarrow> lru_set al k v c
   | Get k \<Rightarrow> if hasKey k c then map_option fst (lru_get k c) else Some c)"

fun lru_run :: "new_fun \<Rightarrow> ('k, 'v) lru_op list \<Rightarrow> ('k, 'v) lru_cache \<Rightarrow> ('k, 'v) lru_cache option" where
  "lru_run al [] c = Some c"
| "lru_run al (op # ops) c = do { c \<leftarrow> lru_step al op c; lru_run al ops c }"

definition last_n :: "nat \<Rightarrow> 'a list \<Rightarrow> 'a list" where
  "last_n n xs = drop (length xs - n) xs"

definition touch :: "'k \<Rightarrow> 'k list \<Rightarrow> 'k list" where
  "touch k ks = filter (\<lambda>x. x \<noteq> k) ks @ [k]"

fun recent :: "nat \<Rightarrow> 'k list \<Rightarrow> ('k, 'v) lru_op list \<Rightarrow> 'k list" where
  "recent n ks [] = ks"
| "recent n ks (Put k v # ops) = recent n (touch k ks) ops"
| "recent n ks (Get k # ops) = recent n (if k \<in> set (last_n n ks) then touch k ks else ks) ops"

fun stored :: "('k \<rightharpoonup> 'v) \<Rightarrow> ('k, 'v) lru_op list \<Rightarrow> 'k \<rightharpoonup> 'v" where
  "stored m [] = m"
| "stored m (Put k v # ops) = stored (m(k \<mapsto> v)) ops"
| "stored m (Get k # ops) = stored m ops"

lemma entry_of_iff: "entry_of k xs = None \<longleftrightarrow> k \<notin> lkey ` set xs"
  by (auto simp: entry_of_def find_None_iff)

lemma entry_of_Some: "entry_of k xs = Some d \<Longrightarrow> d \<in> set xs \<and> lkey d = k"
  by (auto simp: entry_of_def find_Some_iff)

lemma keys_without: "map lkey (without k xs) = filter (\<lambda>x. x \<noteq> k) (map lkey xs)"
  by (simp add: without_def filter_map o_def)

lemma keys_touch: "k \<in> lkey ` set xs \<Longrightarrow> map lkey (spec_touch k xs) = touch k (map lkey xs)"
  by (auto simp: spec_touch_def touch_def keys_without dest: entry_of_Some split: option.splits)
    (simp add: entry_of_iff)

lemma keys_set:
  "map lkey (spec_set cap k v xs) =
     (if k \<in> lkey ` set xs then touch k (map lkey xs)
      else (if int (length xs) = cap then tl (map lkey xs) else map lkey xs) @ [k])"
  by (auto simp: spec_set_def keys_without touch_def entry_of_iff map_tl)

lemma last_n_all: "length xs \<le> n \<Longrightarrow> last_n n xs = xs"
  by (simp add: last_n_def)

lemma length_last_n: "length (last_n n xs) = min n (length xs)"
  by (simp add: last_n_def)

lemma filter_neq: "k \<notin> set xs \<Longrightarrow> filter (\<lambda>x. x \<noteq> k) xs = xs"
  by (auto intro: filter_True)

lemma last_n_suffix: "length us = length us + length zs - n \<Longrightarrow> last_n n (us @ zs) = zs"
  by (simp add: last_n_def)

lemma last_n_split:
  obtains us vs where "ks = us @ vs" "last_n n ks = vs" "length us = length ks - n"
proof
  show "ks = take (length ks - n) ks @ last_n n ks" by (simp add: last_n_def)
qed simp_all

lemma filter_distinct_len: "distinct xs \<Longrightarrow> k \<in> set xs \<Longrightarrow> length (filter (\<lambda>x. x \<noteq> k) xs) = length xs - 1"
proof (induction xs)
  case (Cons x xs)
  then show ?case
    by (cases "x = k") (auto simp: filter_neq dest: length_pos_if_in_set)
qed simp

lemma last_n_touch_in:
  assumes "distinct ks" "k \<in> set (last_n n ks)"
  shows "last_n n (touch k ks) = touch k (last_n n ks)"
proof -
  obtain us vs where uv: "ks = us @ vs" "last_n n ks = vs" "length us = length ks - n" by (rule last_n_split)
  have "k \<in> set vs" using assms(2) unfolding uv(2) .
  with assms(1) uv(1) have k: "k \<in> set vs" "k \<notin> set us" "distinct vs" by auto
  have "touch k ks = us @ touch k vs" using k(2) by (simp add: touch_def uv(1) filter_neq)
  moreover have "length (touch k vs) = length vs"
    using filter_distinct_len [OF k(3,1)] k(1) by (auto simp: touch_def dest: length_pos_if_in_set)
  ultimately show ?thesis using uv(3) unfolding uv(2) by (simp add: last_n_suffix uv(1))
qed

lemma last_n_touch_out:
  assumes "distinct ks" "k \<notin> set (last_n n ks)" "0 < n"
  shows "last_n n (touch k ks) = (if length (last_n n ks) = n then tl (last_n n ks) else last_n n ks) @ [k]"
proof -
  obtain us vs where uv: "ks = us @ vs" "last_n n ks = vs" "length us = length ks - n" by (rule last_n_split)
  have vs: "filter (\<lambda>x. x \<noteq> k) vs = vs" using assms(2) uv(2) by (auto simp: filter_id_conv)
  let ?us = "filter (\<lambda>x. x \<noteq> k) us"
  show ?thesis
  proof (cases "length vs = n")
    case True
    with assms(3) obtain y ys where "vs = y # ys" by (cases vs) auto
    with True vs uv(2) show ?thesis unfolding uv(1) by (simp add: touch_def last_n_def)
  next
    case False
    with length_last_n [of n ks] have "length ks < n" using uv(2) by (simp add: min_def split: if_splits)
    with uv(1,3) have "us = []" "length vs < n" by simp_all
    with vs uv(2) show ?thesis unfolding uv(1) by (simp add: touch_def last_n_def)
  qed
qed

lemma distinct_touch: "distinct ks \<Longrightarrow> distinct (touch k ks)"
  by (simp add: touch_def)

definition tracks :: "nat \<Rightarrow> ('k, 'v) lru_cache \<Rightarrow> 'k list \<Rightarrow> ('k \<rightharpoonup> 'v) \<Rightarrow> bool" where
  "tracks n c ks m \<longleftrightarrow> distinct ks \<and> lcap c = int n \<and>
     (\<exists>xs. lru_rel c xs \<and> map lkey xs = last_n n ks \<and> (\<forall>d \<in> set xs. m (lkey d) = Some (lval d)))"

lemma tracks_put:
  assumes "tracks n c ks m" "new_ok al" "0 < n"
  shows "\<exists>c'. lru_set al k v c = Some c' \<and> tracks n c' (touch k ks) (m(k \<mapsto> v))"
proof -
  from assms(1) obtain xs where xs: "distinct ks" "lcap c = int n" "lru_rel c xs" "map lkey xs = last_n n ks"
    "\<forall>d \<in> set xs. m (lkey d) = Some (lval d)" by (auto simp: tracks_def)
  from set_runs [OF xs(3) assms(2), of k v] xs(2) assms(3) obtain c' where
    c': "lru_set al k v c = Some c'" "lru_rel c' (spec_set (int n) k v xs)" "lcap c' = int n" by auto
  have len: "length xs = length (last_n n ks)" by (metis length_map xs(4))
  have "map lkey (spec_set (int n) k v xs) = last_n n (touch k ks)"
  proof (cases "k \<in> set (last_n n ks)")
    case True
    with last_n_touch_in [OF xs(1) True] show ?thesis by (simp add: keys_set xs(4) flip: set_map)
  next
    case False
    with last_n_touch_out [OF xs(1) False assms(3)] len show ?thesis by (simp add: keys_set xs(4) flip: set_map)
  qed
  moreover have "\<forall>d \<in> set (spec_set (int n) k v xs). (m(k \<mapsto> v)) (lkey d) = Some (lval d)"
    using xs(5) by (auto simp: spec_set_def without_def entry_of_iff dest: in_tl split: if_splits)
  ultimately show ?thesis using c' distinct_touch [OF xs(1)] unfolding tracks_def by blast
qed

lemma tracks_get:
  assumes "tracks n c ks m" "k \<in> set (last_n n ks)"
  shows "\<exists>c' v. hasKey k c \<and> lru_get k c = Some (c', v) \<and> m k = Some v \<and> tracks n c' (touch k ks) m"
proof -
  from assms(1) obtain xs where xs: "distinct ks" "lcap c = int n" "lru_rel c xs" "map lkey xs = last_n n ks"
    "\<forall>d \<in> set xs. m (lkey d) = Some (lval d)" by (auto simp: tracks_def)
  have "k \<in> lkey ` set xs" using assms(2) xs(4) by (metis set_map)
  then obtain d where d: "entry_of k xs = Some d" using entry_of_iff [of k xs] by auto
  from get_runs [OF xs(3) d] obtain c' where c': "lru_get k c = Some (c', lval d)" "lru_rel c' (spec_touch k xs)"
    "lcap c' = lcap c" by auto
  have "map lkey (spec_touch k xs) = last_n n (touch k ks)"
    using keys_touch [OF \<open>k \<in> lkey ` set xs\<close>] last_n_touch_in [OF xs(1) assms(2)] xs(4) by simp
  moreover have "set (spec_touch k xs) \<subseteq> set xs"
    using entry_of_Some [OF d] d by (auto simp: spec_touch_def without_def)
  ultimately have "tracks n c' (touch k ks) m"
    using c'(2,3) xs(2,5) distinct_touch [OF xs(1)] unfolding tracks_def by (metis subsetD)
  with c'(1) d xs(5) entry_of_Some [OF d] hasKey_entry [OF xs(3), of k] show ?thesis by auto
qed

lemma tracks_run:
  assumes "tracks n c ks m" "new_ok al" "0 < n"
  shows "\<exists>c'. lru_run al ops c = Some c' \<and> tracks n c' (recent n ks ops) (stored m ops)"
  using assms(1)
proof (induction ops arbitrary: c ks m)
  case (Cons op ops)
  show ?case
  proof (cases op)
    case (Put k v)
    from tracks_put [OF Cons.prems assms(2,3), of k v] obtain c' where
      "lru_set al k v c = Some c'" "tracks n c' (touch k ks) (m(k \<mapsto> v))" by blast
    with Cons.IH [OF this(2)] Put show ?thesis by (simp add: lru_step_def del: fun_upd_apply)
  next
    case (Get k)
    have has: "hasKey k c \<longleftrightarrow> k \<in> set (last_n n ks)"
    proof -
      from Cons.prems obtain xs where "lru_rel c xs" "map lkey xs = last_n n ks" by (auto simp: tracks_def)
      with hasKey_entry [OF this(1), of k] show ?thesis by (metis entry_of_iff set_map)
    qed
    show ?thesis
    proof (cases "k \<in> set (last_n n ks)")
      case True
      from tracks_get [OF Cons.prems this] obtain c' v where
        "lru_get k c = Some (c', v)" "tracks n c' (touch k ks) m" by blast
      with Cons.IH [OF this(2)] Get True has show ?thesis by (simp add: lru_step_def)
    next
      case False
      with Cons Get has show ?thesis by (simp add: lru_step_def)
    qed
  qed
qed simp

section \<open>Properties\<close>

text \<open>
  C14. The cache is least-recently-used: after any trace of stores and checked reads on a new cache
  of capacity \<open>n > 0\<close>, nothing has faulted, the keys held are exactly the last \<open>n\<close> in the
  order of their last use (so never more than \<open>n\<close>), and every one of them reads as the value last
  stored for it.
\<close>

theorem lru_keeps_most_recent:
  assumes "new_ok al" and "0 < n"
  shows "\<exists>c. lru_run al ops (lru_new al k0 v0 j1 j2 (int n)) = Some c \<and>
     lru_keys_oneshot c = Some (last_n n (recent n [] ops)) \<and>
     (\<forall>k. hasKey k c \<longleftrightarrow> k \<in> set (last_n n (recent n [] ops))) \<and>
     (\<forall>k. hasKey k c \<longrightarrow> (\<exists>c' v. lru_get k c = Some (c', v) \<and> stored Map.empty ops k = Some v))"
proof -
  have "tracks n (lru_new al k0 v0 j1 j2 (int n)) [] Map.empty"
    using new_runs [OF assms(1), of k0 v0 j1 j2 "int n"] unfolding tracks_def
    by (auto simp: lru_new_def last_n_def)
  from tracks_run [OF this assms, of ops] obtain c where
    c: "lru_run al ops (lru_new al k0 v0 j1 j2 (int n)) = Some c" and t: "tracks n c (recent n [] ops) (stored Map.empty ops)"
    by blast
  from t obtain xs where xs: "lru_rel c xs" "map lkey xs = last_n n (recent n [] ops)" by (auto simp: tracks_def)
  have has: "hasKey k c \<longleftrightarrow> k \<in> set (last_n n (recent n [] ops))" for k
    using hasKey_entry [OF xs(1), of k] xs(2) by (metis entry_of_iff set_map)
  with c keys_runs [OF xs(1)] xs(2) tracks_get [OF t] show ?thesis by metis
qed

text \<open>
  C25. Every operation refines its abstract counterpart on the list of entries in the order of
  use: storing replaces the entry or evicts the first one of a full cache, and clears the dirty flag;
  reading returns the value and moves the entry to the end; the flag operations change no order.
\<close>

theorem lru_operations_refine:
  assumes "lru_rel c xs" and "new_ok al" and "lcap c \<noteq> 0"
  shows "(\<exists>c'. lru_set al k v c = Some c' \<and> lru_rel c' (spec_set (lcap c) k v xs) \<and> lcap c' = lcap c) \<and>
     (\<forall>d. entry_of k xs = Some d \<longrightarrow>
        (\<exists>c'. lru_get k c = Some (c', lval d) \<and> lru_rel c' (spec_touch k xs) \<and> lcap c' = lcap c)) \<and>
     (\<exists>c'. set_dirty k c = Some c' \<and> lru_rel c' (spec_flag True k xs) \<and> lcap c' = lcap c) \<and>
     (\<exists>c'. set_clean k c = Some c' \<and> lru_rel c' (spec_flag False k xs) \<and> lcap c' = lcap c) \<and>
     is_dirty k c = Some (case entry_of k xs of None \<Rightarrow> False | Some d \<Rightarrow> ldirty d) \<and>
     (hasKey k c \<longleftrightarrow> entry_of k xs \<noteq> None)"
  using set_runs [OF assms, of k v] get_runs [OF assms(1)] flag_runs [OF assms(1)] dirty_runs [OF assms(1)]
    hasKey_entry [OF assms(1), of k]
  unfolding set_dirty_def set_clean_def by blast

text \<open>
  C26. A check with \<open>hasKey\<close> does not protect a later \<open>get\<close>: when another thread stores a new key
  in between and the cache is full, the key checked can be the one that is evicted, and \<open>get\<close> then
  dereferences a null pointer.
\<close>

theorem lru_check_then_get_race:
  assumes "lru_rel c xs" and "new_ok al" and "lcap c = int (length xs)"
    and "xs \<noteq> []" and "k = lkey (hd xs)" and "k' \<notin> lkey ` set xs"
  shows "hasKey k c \<and> (\<exists>c'. lru_set al k' v c = Some c' \<and> \<not> hasKey k c' \<and> lru_get k c' = None)"
proof -
  from assms(4,5) obtain x ys where x: "xs = x # ys" "k = lkey x" by (cases xs) auto
  from set_runs [OF assms(1,2), of k' v] assms(3,4) obtain c' where
    c': "lru_set al k' v c = Some c'" "lru_rel c' (spec_set (lcap c) k' v xs)" by auto
  from assms(1) obtain zs where "lru_pairs c zs" "xs = map snd zs" by (auto simp: lru_rel_def)
  from lru_pairsD(3) [OF this(1)] this(2) have "distinct (map lkey xs)" by (simp add: o_def)
  with x assms(6) have "k \<notin> lkey ` set ys" "k \<noteq> k'" by auto
  moreover have "entry_of k' xs = None" using assms(6) by (simp add: entry_of_iff)
  ultimately have none: "entry_of k (spec_set (lcap c) k' v xs) = None"
    using x(1) assms(3) by (simp add: spec_set_def entry_of_iff)
  have "entry_of k xs \<noteq> None" using x by (simp add: entry_of_iff)
  with hasKey_entry [OF assms(1), of k] hasKey_entry [OF c'(2), of k] none get_absent [OF c'(2) none] c'(1)
  show ?thesis by blast
qed

text \<open>
  A cache of capacity 0 faults on its first store: the eviction finds no node and dereferences
  the null pointer that \<open>removeFirst\<close> returned.
\<close>

theorem lru_zero_capacity_faults:
  assumes "new_ok al"
  shows "lru_set al k v (lru_new al k0 v0 j1 j2 0) = None"
proof -
  obtain c where c: "c = lru_new al k0 v0 j1 j2 0" by simp
  have "lru_rel c []" unfolding c by (rule new_runs [OF assms])
  then obtain ys where ys: "lru_pairs c ys" "[] = map snd ys" unfolding lru_rel_def by blast
  note P = lru_pairsD [OF ys(1)]
  have "removeFirst (lcache c) = Some (lcache c, 0)" using removeFirst_dll [OF P(1)] ys(2) [symmetric] by simp
  with P(5) have "removeLeastRecently c = None" by (simp add: removeLeastRecently_def)
  moreover have "\<not> hasKey k c" "lcap c = size_of (lcache c)"
    by (simp_all add: c hasKey_def lru_new_def doublelist_new_def Let_def)
  ultimately show ?thesis by (simp add: lru_set_def flip: c)
qed

section \<open>Witnesses\<close>

lemmas walk_code [code] = walk_to_tail.simps
lemmas first_free_code [code] = first_free.simps

definition demo_ops :: "(nat, nat) lru_op list" where
  "demo_ops = [Put 1 10, Put 2 20, Get 1, Put 3 30, Get 2, Put 1 11]"

theorem lru_keeps_most_recent_witness:
  "\<exists>c. lru_run new_first demo_ops (lru_new new_first 0 0 0 0 2) = Some c \<and> lru_keys_oneshot c = Some [3, 1]"
proof -
  have "last_n 2 (recent 2 [] demo_ops) = [3, 1]" by code_simp
  with lru_keeps_most_recent [OF new_first_ok, of 2 demo_ops 0 0 0 0] show ?thesis by auto
qed

definition demo_lru :: "(nat, nat) lru_cache" where
  "demo_lru = the (lru_set new_first 7 70 (lru_new new_first 0 0 0 0 1))"

lemma demo_rel: "lru_rel demo_lru [\<lparr>lkey = 7, lval = 70, ldirty = False\<rparr>]" "lcap demo_lru = 1"
proof -
  obtain c where c: "c = (lru_new new_first 0 0 0 0 1 :: (nat, nat) lru_cache)" by simp
  have "lru_rel c []" "lcap c = 1" unfolding c using new_runs [OF new_first_ok] by (auto simp: lru_new_def)
  from set_runs [OF this(1) new_first_ok, of 7 70] this(2)
  show "lru_rel demo_lru [\<lparr>lkey = 7, lval = 70, ldirty = False\<rparr>]" "lcap demo_lru = 1"
    by (auto simp: demo_lru_def spec_set_def entry_of_def simp flip: c)
qed

theorem lru_operations_witness:
  "(\<exists>c'. lru_get 7 demo_lru = Some (c', 70)) \<and> is_dirty 7 demo_lru = Some False \<and>
   (\<exists>c'. lru_set new_first 8 80 demo_lru = Some c' \<and> lru_rel c' [\<lparr>lkey = 8, lval = 80, ldirty = False\<rparr>])"
  using lru_operations_refine [OF demo_rel(1) new_first_ok, of 7 70]
    lru_operations_refine [OF demo_rel(1) new_first_ok, of 8 80] demo_rel(2)
  by (auto simp: entry_of_def spec_set_def)

theorem lru_race_witness:
  "hasKey 7 demo_lru \<and> (\<exists>c'. lru_set new_first 8 80 demo_lru = Some c' \<and> lru_get 7 c' = None)"
  using lru_check_then_get_race [OF demo_rel(1) new_first_ok, of 7 8 80] demo_rel(2) by auto

theorem lru_zero_capacity_witness: "lru_set new_first (1 :: nat) (2 :: nat) (lru_new new_first 0 0 0 0 0) = None"
  by (rule lru_zero_capacity_faults [OF new_first_ok])

end
