(* ===== verification/ServerList.thy ===== *)
theory ServerList
  imports DList
begin

text \<open>
  \<open>ServerList\<close> of \<open>master_server/serverList.h\<close>: the registered cache servers in a ring, in the
  order of registration, with a hash map from server to list node.  The next server of a server
  holds its backup.
\<close>

section \<open>State and operations\<close>

record 't server_list =
  smap :: "'t \<rightharpoonup> nat"
  slist :: "'t dlist"

definition server_list_new :: "new_fun \<Rightarrow> 't \<Rightarrow> 't server_list" where
  "server_list_new al def =
     (let h = al (\<lambda>_. False); t = al (\<lambda>a. a = h)
      in \<lparr>smap = Map.empty, slist = \<lparr>head = h, tail = t, size_of = 0,
          cells = [h \<mapsto> \<lparr>payload = def, next_of = t, prev_of = 0\<rparr>,
                   t \<mapsto> \<lparr>payload = def, next_of = 0, prev_of = h\<rparr>]\<rparr>\<rparr>)"

definition isExisted :: "'t \<Rightarrow> 't server_list \<Rightarrow> bool" where
  "isExisted t s \<longleftrightarrow> smap s t \<noteq> None"

definition server_count :: "'t server_list \<Rightarrow> int" where
  "server_count s = size_of (slist s)"

text \<open>\<open>map_[t]\<close>: a missing key is inserted with a null pointer.\<close>

definition server_index :: "'t \<Rightarrow> 't server_list \<Rightarrow> 't server_list \<times> nat" where
  "server_index t s = (case smap s t of
     Some x \<Rightarrow> (s, x)
   | None \<Rightarrow> (s\<lparr>smap := (smap s)(t \<mapsto> 0)\<rparr>, 0))"

definition server_add :: "new_fun \<Rightarrow> 't \<Rightarrow> 't server_list \<Rightarrow> 't server_list option" where
  "server_add al t s =
     (let node = al (\<lambda>a. cells (slist s) a \<noteq> None);
          l = slist s;
          l = l\<lparr>cells := (cells l)(node \<mapsto> \<lparr>payload = t, next_of = 0, prev_of = 0\<rparr>)\<rparr>
      in do {
        l \<leftarrow> dlink_addLast node l;
        Some (s\<lparr>slist := l, smap := (smap s)(t \<mapsto> node)\<rparr>) })"

definition server_del :: "'t \<Rightarrow> 't server_list \<Rightarrow> 't server_list option" where
  "server_del t s =
     (let (s, node) = server_index t s
      in do {
        l \<leftarrow> dlink_delNode node (slist s);
        Some (s\<lparr>slist := l, smap := (smap s)(t := None)\<rparr>) })"

definition getNext :: "'t \<Rightarrow> 't server_list \<Rightarrow> ('t server_list \<times> 't) option" where
  "getNext t s =
     (let (s, node) = server_index t s; l = slist s
      in do {
        n \<leftarrow> cells l node;
        let node = next_of n;
        (if node = tail l then do {
           h \<leftarrow> cells l (head l);
           m \<leftarrow> cells l (next_of h);
           Some (s, payload m) }
         else do {
           m \<leftarrow> cells l node;
           Some (s, payload m) }) })"

definition getPrev :: "'t \<Rightarrow> 't server_list \<Rightarrow> ('t server_list \<times> 't) option" where
  "getPrev t s =
     (let (s, node) = server_index t s; l = slist s
      in do {
        n \<leftarrow> cells l node;
        let node = prev_of n;
        (if node = head l then do {
           h \<leftarrow> cells l (tail l);
           m \<leftarrow> cells l (prev_of h);
           Some (s, payload m) }
         else do {
           m \<leftarrow> cells l node;
           Some (s, payload m) }) })"

section \<open>The ring of servers\<close>

text \<open>The list of servers in the order of registration; successor and predecessor round the ring.\<close>

definition servers_rel :: "'t server_list \<Rightarrow> 't list \<Rightarrow> bool" where
  "servers_rel s ts \<longleftrightarrow> (\<exists>ys. indexed (\<lambda>t. t) (smap s) (slist s) ys \<and> ts = map snd ys)"

definition ring_next :: "'t list \<Rightarrow> 't \<Rightarrow> 't" where
  "ring_next ts t = (case tl (dropWhile (\<lambda>x. x \<noteq> t) ts) of [] \<Rightarrow> hd ts | u # _ \<Rightarrow> u)"

definition ring_prev :: "'t list \<Rightarrow> 't \<Rightarrow> 't" where
  "ring_prev ts t = ring_next (rev ts) t"

lemma ring_next_split:
  assumes "t \<notin> set us"
  shows "ring_next (us @ t # vs) t = hd (vs @ us @ [t])"
proof -
  have "dropWhile (\<lambda>x. x \<noteq> t) (us @ t # vs) = t # vs"
    using assms by (subst dropWhile_append2) auto
  then show ?thesis by (cases vs; cases us) (simp_all add: ring_next_def)
qed

lemma ring_prev_split:
  assumes "t \<notin> set vs"
  shows "ring_prev (us @ t # vs) t = last (t # vs @ us)"
  using ring_next_split [of t "rev vs" "rev us"] assms
  by (simp add: ring_prev_def hd_append hd_rev split: if_splits)

lemma ring_next_in: "t \<in> set ts \<Longrightarrow> ring_next ts t \<in> set ts"
proof -
  assume "t \<in> set ts"
  then obtain us vs where "ts = us @ t # vs" "t \<notin> set us" by (metis split_list_first)
  with ring_next_split [of t us vs] hd_in_set [of "vs @ us @ [t]"] show ?thesis by auto
qed

lemma ring_prev_next:
  assumes "distinct ts" "t \<in> set ts"
  shows "ring_prev ts (ring_next ts t) = t"
proof -
  from assms obtain us vs where ts: "ts = us @ t # vs" "t \<notin> set us" by (metis split_list_first)
  show ?thesis
  proof (cases vs)
    case (Cons v vs')
    with ts assms have "ring_next ts t = v" "v \<notin> set vs'" by (simp_all add: ring_next_split)
    with ring_prev_split [of v vs' "us @ [t]"] ts Cons show ?thesis by simp
  next
    case Nil
    show ?thesis
    proof (cases us)
      case (Cons u us')
      with ts Nil assms have "ring_next ts t = u" "u \<notin> set (us' @ [t])"
        using ring_next_split [OF ts(2), of "[]"] by simp_all
      with ring_prev_split [of u "us' @ [t]" "[]"] ts Nil Cons show ?thesis by simp
    next
      case Nil
      with ts \<open>vs = []\<close> ring_next_split [of t "[]" "[]"] ring_prev_split [of t "[]" "[]"] show ?thesis by simp
    qed
  qed
qed

lemma ring_next_prev: "distinct ts \<Longrightarrow> t \<in> set ts \<Longrightarrow> ring_next ts (ring_prev ts t) = t"
  using ring_prev_next [of "rev ts" t] by (simp add: ring_prev_def)

lemma ring_self:
  assumes "distinct ts" and "t \<in> set ts"
  shows "ring_next ts t = t \<longleftrightarrow> ts = [t]" and "ring_prev ts t = t \<longleftrightarrow> ts = [t]"
proof -
  have self: "ring_next us u = u \<longleftrightarrow> us = [u]" if d: "distinct us" "u \<in> set us" for us :: "'a list" and u
  proof -
    from split_list [OF d(2)] obtain xs ys where us: "us = xs @ u # ys" by blast
    with d have "u \<notin> set xs" "u \<notin> set ys" by auto
    with ring_next_split [OF this(1), of ys] us show ?thesis by (cases ys; cases xs) auto
  qed
  show "ring_next ts t = t \<longleftrightarrow> ts = [t]" by (rule self [OF assms])
  show "ring_prev ts t = t \<longleftrightarrow> ts = [t]" unfolding ring_prev_def using self [of "rev ts" t] assms by (auto simp: rev_swap)
qed

lemma ring_ends:
  assumes "distinct (ts @ [a])"
  shows "ring_next (ts @ [a]) a = hd (ts @ [a])" "ring_prev (ts @ [a]) a = last (a # ts)"
  using ring_next_split [of a ts "[]"] ring_prev_split [of a "[]" ts] assms by simp_all

section \<open>Refinement\<close>

lemma servers_new:
  assumes "new_ok al"
  shows "servers_rel (server_list_new al d) []"
proof -
  let ?h = "al (\<lambda>_. False)" and ?t = "al (\<lambda>a. a = al (\<lambda>_. False))"
  have "?h \<noteq> 0" "?t \<noteq> 0" "?t \<noteq> ?h"
    using new_ok_fresh(1) [OF assms] new_ok_fresh(2) [OF assms, of "\<lambda>a. a = ?h"] by auto
  then have "indexed (\<lambda>t. t) (smap (server_list_new al d)) (slist (server_list_new al d)) []"
    by (simp add: indexed_def server_list_new_def Let_def dll_def addr_map_def)
  then show ?thesis unfolding servers_rel_def by auto
qed

lemma servers_distinct: "servers_rel s ts \<Longrightarrow> distinct ts \<and> server_count s = int (length ts)"
  by (auto simp: servers_rel_def server_count_def dll_def dest: indexedD(1,3))

lemma servers_existed: "servers_rel s ts \<Longrightarrow> isExisted t s \<longleftrightarrow> t \<in> set ts"
proof -
  assume "servers_rel s ts"
  then obtain ys where ys: "indexed (\<lambda>t. t) (smap s) (slist s) ys" "ts = map snd ys"
    by (auto simp: servers_rel_def)
  with indexedD(8) [OF ys(1), of t] show ?thesis by (simp add: isExisted_def)
qed

lemma servers_add:
  assumes "servers_rel s ts" "t \<notin> set ts" "new_ok al"
  shows "\<exists>s'. server_add al t s = Some s' \<and> servers_rel s' (ts @ [t])"
proof -
  from assms(1) obtain ys where ys: "indexed (\<lambda>t. t) (smap s) (slist s) ys" "ts = map snd ys"
    by (auto simp: servers_rel_def)
  obtain x where xdef: "x = al (\<lambda>a. cells (slist s) a \<noteq> None)" by simp
  have "{a. cells (slist s) a \<noteq> None} = dom (cells (slist s))" by auto
  then have "finite {a. cells (slist s) a \<noteq> None}" using indexedD(1) [OF ys(1)] by (simp add: dll_def)
  from new_ok_fresh(1) [OF assms(3)] new_ok_fresh(2) [OF assms(3) this]
  have "x \<noteq> 0" "cells (slist s) x = None" unfolding xdef by blast+
  from dlink.add_indexed [OF ys(1) _ this(2,1), of t 0 0] assms(2) ys(2) obtain l where
    "dlink_addLast x ((slist s)\<lparr>cells := (cells (slist s))(x \<mapsto> \<lparr>payload = t, next_of = 0, prev_of = 0\<rparr>)\<rparr>) = Some l"
    "indexed (\<lambda>t. t) ((smap s)(t \<mapsto> x)) l (ys @ [(x, t)])" by auto
  then show ?thesis
    unfolding server_add_def Let_def xdef [symmetric]
    by (intro exI [of _ "s\<lparr>slist := l, smap := (smap s)(t \<mapsto> x)\<rparr>"])
      (auto simp: servers_rel_def ys(2) intro!: exI [of _ "ys @ [(x, t)]"])
qed

lemma servers_del:
  assumes "servers_rel s ts" "t \<in> set ts"
  shows "\<exists>s'. server_del t s = Some s' \<and> servers_rel s' (filter (\<lambda>x. x \<noteq> t) ts)"
proof -
  from assms(1) obtain ys where ys: "indexed (\<lambda>t. t) (smap s) (slist s) ys" "ts = map snd ys"
    by (auto simp: servers_rel_def)
  from assms(2) ys(2) obtain x where x: "(x, t) \<in> set ys" by auto
  from dlink.del_indexed [OF ys(1) x] obtain l where "dlink_delNode x (slist s) = Some l"
    "indexed (\<lambda>t. t) ((smap s)(t := None)) l (filter (\<lambda>e. snd e \<noteq> t) ys)" by auto
  with indexedD(7) [OF ys(1) x] show ?thesis
    by (intro exI [of _ "s\<lparr>slist := l, smap := (smap s)(t := None)\<rparr>"])
      (auto simp: server_del_def server_index_def servers_rel_def ys(2) filter_map o_def
        intro!: exI [of _ "filter (\<lambda>e. snd e \<noteq> t) ys"])
qed

lemma linked_mid: "linked h (us @ a # b # vs) \<Longrightarrow> map_option next_of (h a) = Some b \<and> map_option prev_of (h b) = Some a"
  using linked_append [of h us a "b # vs"] by simp

lemma hd_map_ne: "xs \<noteq> [] \<Longrightarrow> hd (map f xs) = f (hd xs)"
  by (rule list.map_sel(1))

lemma list_ends:
  assumes "dll l (map fst ys)" and "ys \<noteq> []"
  shows "\<exists>h. cells l (head l) = Some h \<and> next_of h = fst (hd ys)"
    and "\<exists>h. cells l (tail l) = Some h \<and> prev_of h = fst (last ys)"
proof -
  from assms(2) obtain e zs where c: "ys = e # zs" by (meson neq_Nil_conv)
  show "\<exists>h. cells l (head l) = Some h \<and> next_of h = fst (hd ys)" using assms(1) unfolding c by (auto simp: dll_def)
  from assms(2) obtain us e where r: "ys = us @ [e]" by (metis rev_exhaust)
  then have "linked (cells l) ((head l # map fst us) @ fst e # tail l # [])" using assms(1) by (simp add: dll_def)
  from linked_mid [OF this] r show "\<exists>h. cells l (tail l) = Some h \<and> prev_of h = fst (last ys)" by auto
qed

text \<open>The node of a server, between its neighbours.\<close>

lemma server_node:
  assumes "indexed (\<lambda>t. t) (smap s) (slist s) (us @ (x, t) # vs)"
  shows "\<exists>n. cells (slist s) x = Some n \<and> next_of n = hd (map fst vs @ [tail (slist s)]) \<and>
     prev_of n = last (head (slist s) # map fst us)"
    and "server_index t s = (s, x)" and "t \<notin> snd ` set us" and "t \<notin> snd ` set vs"
proof -
  let ?l = "slist s"
  note P = indexedD [OF assms]
  have x: "(x, t) \<in> set (us @ (x, t) # vs)" by simp
  show "server_index t s = (s, x)" using P(7) [OF x] by (simp add: server_index_def)
  show "t \<notin> snd ` set us" "t \<notin> snd ` set vs" using P(3) by auto
  obtain n where n: "cells ?l x = Some n" using P(6) [OF x] by auto
  obtain b bs where b: "map fst vs @ [tail ?l] = b # bs" by (cases "map fst vs @ [tail ?l]") auto
  obtain as a where a: "head ?l # map fst us = as @ [a]" by (metis list.distinct(1) rev_exhaust)
  have L: "linked (cells ?l) ((head ?l # map fst us) @ x # map fst vs @ [tail ?l])" using P(1) by (simp add: dll_def)
  have "next_of n = b" using linked_mid [of "cells ?l" "head ?l # map fst us" x b bs] L n unfolding b by simp
  moreover have "prev_of n = a" using linked_mid [of "cells ?l" as a x "map fst vs @ [tail ?l]"] L n unfolding a by simp
  ultimately show "\<exists>n. cells ?l x = Some n \<and> next_of n = hd (map fst vs @ [tail ?l]) \<and> prev_of n = last (head ?l # map fst us)"
    using n a b by (intro exI [of _ n]) (simp del: last.simps)
qed

text \<open>The payload of a node of the list, which is neither sentinel.\<close>

lemma server_payload:
  assumes "indexed (\<lambda>t. t) (smap s) (slist s) ys" and "e \<in> set ys"
  shows "\<exists>n. cells (slist s) (fst e) = Some n \<and> payload n = snd e" and "fst e \<noteq> tail (slist s)" and "fst e \<noteq> head (slist s)"
proof -
  note P = indexedD [OF assms(1)]
  show "\<exists>n. cells (slist s) (fst e) = Some n \<and> payload n = snd e" using P(6) [OF assms(2)] by auto
  show "fst e \<noteq> tail (slist s)" "fst e \<noteq> head (slist s)" using dll_notin [OF P(1), of "fst e"] assms(2) by auto
qed

lemma servers_next_prev:
  assumes "servers_rel s ts" "t \<in> set ts"
  shows "getNext t s = Some (s, ring_next ts t)" "getPrev t s = Some (s, ring_prev ts t)"
proof -
  let ?l = "slist s"
  from assms(1) obtain ys where ys: "indexed (\<lambda>t. t) (smap s) ?l ys" "ts = map snd ys" by (auto simp: servers_rel_def)
  from assms(2) ys(2) obtain x where "(x, t) \<in> set ys" by auto
  then obtain us vs where uv: "ys = us @ (x, t) # vs" by (metis split_list)
  note N = server_node [OF ys(1) [unfolded uv]] and pay = server_payload [OF ys(1)]
  from N(1) obtain n where n: "cells ?l x = Some n" "next_of n = hd (map fst vs @ [tail ?l])" "prev_of n = last (head ?l # map fst us)"
    by blast
  have ts: "ts = map snd us @ t # map snd vs" by (simp add: ys(2) uv)
  have "ys \<noteq> []" using uv by simp
  then have hl: "hd ys \<in> set ys" "last ys \<in> set ys" by simp_all
  from list_ends [OF _ \<open>ys \<noteq> []\<close>] indexedD(1) [OF ys(1)] obtain h k where
    h: "cells ?l (head ?l) = Some h" "next_of h = fst (hd ys)" and k: "cells ?l (tail ?l) = Some k" "prev_of k = fst (last ys)" by blast
  show "getNext t s = Some (s, ring_next ts t)"
  proof (cases vs)
    case Nil
    moreover have "ring_next ts t = snd (hd ys)"
      using ring_next_split [of t "map snd us" "[]"] ts Nil uv N(3) by (cases us) auto
    ultimately show ?thesis using n h pay(1) [OF hl(1)] N(2) by (auto simp: getNext_def)
  next
    case (Cons e vs')
    then have e: "e \<in> set ys" using uv by simp
    moreover have "ring_next ts t = snd e"
      using ring_next_split [of t "map snd us" "map snd vs"] ts Cons N(3) by auto
    ultimately show ?thesis using n h Cons pay [OF e] N(2) by (auto simp: getNext_def)
  qed
  show "getPrev t s = Some (s, ring_prev ts t)"
  proof (cases us rule: rev_cases)
    case Nil
    moreover have "ring_prev ts t = snd (last ys)"
      using ring_prev_split [of t "map snd vs" "[]"] ts Nil uv N(4) by (cases vs rule: rev_cases) auto
    ultimately show ?thesis using n k pay(1) [OF hl(2)] N(2) by (auto simp: getPrev_def)
  next
    case (snoc us' e)
    then have e: "e \<in> set ys" using uv by simp
    moreover have "ring_prev ts t = snd e"
      using ring_prev_split [of t "map snd vs" "map snd us"] ts snoc N(4) by auto
    ultimately show ?thesis using n k snoc pay [OF e] N(2) by (auto simp: getPrev_def)
  qed
qed

lemma index_absent: "smap s t = None \<Longrightarrow> cells (slist s) 0 = None \<Longrightarrow>
    getNext t s = None \<and> getPrev t s = None \<and> server_del t s = None"
  by (simp add: getNext_def getPrev_def server_del_def server_index_def dlink_delNode_def Let_def)

section \<open>The interface\<close>

text \<open>
  What the master relies on: a ring in the order of registration, with a state \<open>s\<close> that stands for the
  list of its members.
\<close>

locale server_ring =
  fixes rel :: "'s \<Rightarrow> 't list \<Rightarrow> bool"
    and add :: "new_fun \<Rightarrow> 't \<Rightarrow> 's \<Rightarrow> 's option"
    and del :: "'t \<Rightarrow> 's \<Rightarrow> 's option"
    and nxt :: "'t \<Rightarrow> 's \<Rightarrow> ('s \<times> 't) option"
    and prv :: "'t \<Rightarrow> 's \<Rightarrow> ('s \<times> 't) option"
    and known :: "'t \<Rightarrow> 's \<Rightarrow> bool"
  assumes members: "rel s ts \<Longrightarrow> distinct ts"
    and add_new: "rel s ts \<Longrightarrow> t \<notin> set ts \<Longrightarrow> new_ok al \<Longrightarrow> \<exists>s'. add al t s = Some s' \<and> rel s' (ts @ [t])"
    and del_old: "rel s ts \<Longrightarrow> t \<in> set ts \<Longrightarrow> \<exists>s'. del t s = Some s' \<and> rel s' (filter (\<lambda>x. x \<noteq> t) ts)"
    and beside: "rel s ts \<Longrightarrow> t \<in> set ts \<Longrightarrow> nxt t s = Some (s, ring_next ts t) \<and> prv t s = Some (s, ring_prev ts t)"
    and known_iff: "rel s ts \<Longrightarrow> known t s \<longleftrightarrow> t \<in> set ts"
begin

lemma neighbours_of:
  assumes "rel s ts" and "t \<in> set ts"
  shows "known t s" "nxt t s = Some (s, ring_next ts t)" "prv t s = Some (s, ring_prev ts t)"
    "ring_next ts t \<in> set ts" "ring_prev ts t \<in> set ts" "ring_next ts t = t \<longleftrightarrow> ts = [t]" "ring_prev ts t = t \<longleftrightarrow> ts = [t]"
  using assms known_iff [OF assms(1)] beside [OF assms] ring_self [OF members [OF assms(1)] assms(2)]
    ring_next_in [OF assms(2)] ring_next_in [of t "rev ts"]
  by (simp_all add: ring_prev_def)

text \<open>A new member comes after the last and before the first one; taking it out again restores the ring.\<close>

lemma add_between:
  assumes "rel s ts" and "t \<notin> set ts" and "new_ok al"
  shows "\<exists>s'. add al t s = Some s' \<and> rel s' (ts @ [t]) \<and> nxt t s' = Some (s', hd (ts @ [t])) \<and> prv t s' = Some (s', last (t # ts))"
proof -
  from add_new [OF assms] obtain s' where s': "add al t s = Some s'" "rel s' (ts @ [t])" by blast
  with neighbours_of(2,3) [OF s'(2), of t] ring_ends [OF members [OF s'(2)]] show ?thesis by simp
qed

lemma add_del:
  assumes "rel s ts" and "t \<notin> set ts" and "new_ok al"
  shows "\<exists>s1 s2. add al t s = Some s1 \<and> del t s1 = Some s2 \<and> rel s2 ts"
proof -
  from add_new [OF assms] obtain s1 where s1: "add al t s = Some s1" "rel s1 (ts @ [t])" by blast
  moreover from del_old [OF s1(2), of t] obtain s2 where "del t s1 = Some s2" "rel s2 (filter (\<lambda>x. x \<noteq> t) (ts @ [t]))" by auto
  moreover have "filter (\<lambda>x. x \<noteq> t) (ts @ [t]) = ts" using assms(2) by (auto simp: filter_id_conv)
  ultimately show ?thesis by metis
qed

lemma next_then_prev:
  assumes "rel s ts" and "t \<in> set ts"
  shows "\<exists>u v. nxt t s = Some (s, u) \<and> known u s \<and> prv u s = Some (s, t) \<and> prv t s = Some (s, v) \<and> known v s \<and> nxt v s = Some (s, t)"
proof -
  note N = neighbours_of [OF assms]
  from neighbours_of [OF assms(1) N(4)] neighbours_of [OF assms(1) N(5)] N
    ring_prev_next [OF members [OF assms(1)] assms(2)] ring_next_prev [OF members [OF assms(1)] assms(2)]
  show ?thesis by metis
qed

end

interpretation sl: server_ring servers_rel server_add server_del getNext getPrev isExisted
  by unfold_locales (simp_all add: servers_distinct servers_add servers_del servers_next_prev servers_existed)

section \<open>A server that is added again\<close>

lemma servers_dom: "servers_rel s ts \<Longrightarrow> dom (smap s) = set ts"
  using servers_existed [of s ts] unfolding isExisted_def by blast

lemma servers_add_again:
  assumes "servers_rel s ts" and "t \<in> set ts" and "new_ok al"
  shows "\<exists>s'. server_add al t s = Some s' \<and> server_count s' = server_count s + 1 \<and> (\<forall>us. \<not> servers_rel s' us)"
proof -
  from assms(1) obtain ys where ys: "indexed (\<lambda>t. t) (smap s) (slist s) ys" "ts = map snd ys"
    by (auto simp: servers_rel_def)
  note P = indexedD [OF ys(1)]
  obtain x where xdef: "x = al (\<lambda>a. cells (slist s) a \<noteq> None)" by simp
  have "{a. cells (slist s) a \<noteq> None} = dom (cells (slist s))" by auto
  then have "finite {a. cells (slist s) a \<noteq> None}" using P(1) by (simp add: dll_def)
  from new_ok_fresh(1) [OF assms(3)] new_ok_fresh(2) [OF assms(3) this]
  have "x \<noteq> 0" "cells (slist s) x = None" unfolding xdef by blast+
  from dlink.add_new [OF P(1) this(2,1), of "\<lparr>payload = t, next_of = 0, prev_of = 0\<rparr>"] obtain l where
    l: "dlink_addLast x ((slist s)\<lparr>cells := (cells (slist s))(x \<mapsto> \<lparr>payload = t, next_of = 0, prev_of = 0\<rparr>)\<rparr>) = Some l"
    "dll l (map fst ys @ [x])" by auto
  let ?s = "s\<lparr>slist := l, smap := (smap s)(t \<mapsto> x)\<rparr>"
  have run: "server_add al t s = Some ?s"
    unfolding server_add_def Let_def xdef [symmetric] using l(1) by simp
  have count: "server_count ?s = int (length ts) + 1" using l(2) by (simp add: server_count_def dll_def ys(2))
  have keys: "dom (smap ?s) = set ts" using servers_dom [OF assms(1)] assms(2) by auto
  have "\<not> servers_rel ?s us" for us
  proof
    assume r: "servers_rel ?s us"
    have "set us = set ts" using servers_dom [OF r] keys by simp
    with servers_distinct [OF r] servers_distinct [OF assms(1)] have "length us = length ts"
      by (metis distinct_card)
    with servers_distinct [OF r] count show False by simp
  qed
  with run count servers_distinct [OF assms(1)] show ?thesis by auto
qed

section \<open>Properties\<close>

text \<open>
  The operations on a ring of servers: a new server goes to the end, a removed one leaves the
  order of the others, neighbours wrap round; asking for a server that is not there dereferences a
  null pointer, which is why the callers must check \<open>isExisted\<close> first.
\<close>

theorem server_list_correct:
  assumes "servers_rel s ts" and "new_ok al"
  shows "(t \<notin> set ts \<longrightarrow> (\<exists>s'. server_add al t s = Some s' \<and> servers_rel s' (ts @ [t]))) \<and>
     (t \<in> set ts \<longrightarrow> (\<exists>s'. server_del t s = Some s' \<and> servers_rel s' (filter (\<lambda>x. x \<noteq> t) ts))) \<and>
     (t \<in> set ts \<longrightarrow> getNext t s = Some (s, ring_next ts t) \<and> getPrev t s = Some (s, ring_prev ts t)) \<and>
     (t \<notin> set ts \<longrightarrow> getNext t s = None \<and> getPrev t s = None \<and> server_del t s = None) \<and>
     (isExisted t s \<longleftrightarrow> t \<in> set ts) \<and> server_count s = int (length ts) \<and> distinct ts"
proof -
  from assms(1) obtain ys where ys: "indexed (\<lambda>t. t) (smap s) (slist s) ys" "ts = map snd ys"
    by (auto simp: servers_rel_def)
  have "t \<notin> set ts \<longrightarrow> getNext t s = None \<and> getPrev t s = None \<and> server_del t s = None"
    using index_absent [of s t] indexedD(5,8) [OF ys(1)] ys(2) by simp
  with servers_add [OF assms(1) _ assms(2)] servers_del [OF assms(1)] servers_next_prev [OF assms(1)]
    servers_existed [OF assms(1)] servers_distinct [OF assms(1)]
  show ?thesis by blast
qed

text \<open>
  Backups are placed consistently: the next server of a registered server exists, and the
  previous one of that is the server again, also when it is alone in the ring.
\<close>

theorem next_prev_inverse:
  assumes "servers_rel s ts" and "t \<in> set ts"
  shows "\<exists>u v. getNext t s = Some (s, u) \<and> isExisted u s \<and> getPrev u s = Some (s, t) \<and>
     getPrev t s = Some (s, v) \<and> isExisted v s \<and> getNext v s = Some (s, t)"
  by (rule sl.next_then_prev [OF assms])

section \<open>Witnesses\<close>

definition ring3 :: "nat server_list" where
  "ring3 = the (do { s \<leftarrow> server_add new_first 10 (server_list_new new_first 0);
     s \<leftarrow> server_add new_first 20 s; server_add new_first 30 s })"

lemma ring3_rel: "servers_rel ring3 [10, 20, 30]"
proof -
  obtain s0 where s0: "s0 = server_list_new new_first (0 :: nat)" by simp
  then have "servers_rel s0 []" using servers_new [OF new_first_ok] by simp
  from servers_add [OF this _ new_first_ok, of 10] obtain s1 where
    s1: "server_add new_first 10 s0 = Some s1" "servers_rel s1 [10]" by auto
  from servers_add [OF s1(2) _ new_first_ok, of 20] obtain s2 where
    s2: "server_add new_first 20 s1 = Some s2" "servers_rel s2 [10, 20]" by auto
  from servers_add [OF s2(2) _ new_first_ok, of 30] obtain s3 where
    s3: "server_add new_first 30 s2 = Some s3" "servers_rel s3 [10, 20, 30]" by auto
  then show ?thesis by (simp add: ring3_def s1(1) s2(1) flip: s0)
qed

theorem server_list_witness:
  "(\<exists>s'. server_add new_first 40 ring3 = Some s' \<and> servers_rel s' [10, 20, 30, 40]) \<and>
   (\<exists>s'. server_del 20 ring3 = Some s' \<and> servers_rel s' [10, 30]) \<and>
   map_option snd (getNext 30 ring3) = Some 10 \<and> getNext 9 ring3 = None"
  using server_list_correct [OF ring3_rel new_first_ok, of 40] server_list_correct [OF ring3_rel new_first_ok, of 20]
    server_list_correct [OF ring3_rel new_first_ok, of 30] server_list_correct [OF ring3_rel new_first_ok, of 9]
  by (auto simp: ring_next_def)

theorem next_prev_witness: "\<exists>u. getNext 30 ring3 = Some (ring3, u) \<and> getPrev u ring3 = Some (ring3, 30)"
  using next_prev_inverse [OF ring3_rel, of 30] by auto

end
