(* ===== verification/Locker.thy ===== *)
theory Locker
  imports Prelude
begin

text \<open>
  The wrappers of semaphores, mutexes and condition variables (\<open>src/lock/locker.h\<close>) over what POSIX says
  of the calls in them.

  A call blocks, returns, or is used in a way that POSIX gives no meaning.  The wait for a condition
  variable is two calls: one that goes to sleep and releases the mutex, and one that comes back
  with the mutex.  Neither program installs a signal handler, so no wait is interrupted.
\<close>

datatype 'r call = Blocks | Undefined | Returns 'r

section \<open>Semaphores\<close>

record semaphore =
  sem_value :: int

definition SEM_VALUE_MAX :: int where "SEM_VALUE_MAX = 2147483647"

text \<open>
  The constructors: \<open>None\<close> is the exception.  The value is passed as an \<open>unsigned int\<close>, and \<open>sem_init\<close>
  refuses one above \<open>SEM_VALUE_MAX\<close>.
\<close>

definition sem_init :: "u32 \<Rightarrow> semaphore option" where
  "sem_init v = (if uint v > SEM_VALUE_MAX then None else Some \<lparr>sem_value = uint v\<rparr>)"

definition sem_new :: "semaphore option" where
  "sem_new = sem_init 0"

definition sem_new_num :: "int \<Rightarrow> semaphore option" where
  "sem_new_num num = sem_init (word_of_int num)"

definition sem_wait :: "semaphore \<Rightarrow> (semaphore \<times> bool) call" where
  "sem_wait s = (if sem_value s = 0 then Blocks else Returns (s\<lparr>sem_value := sem_value s - 1\<rparr>, True))"

definition sem_post :: "semaphore \<Rightarrow> (semaphore \<times> bool) call" where
  "sem_post s = (if sem_value s = SEM_VALUE_MAX then Returns (s, False) else Returns (s\<lparr>sem_value := sem_value s + 1\<rparr>, True))"

section \<open>Mutexes\<close>

text \<open>The default mutex: a thread that locks it twice waits for itself, and only the owner may unlock it.\<close>

record locker =
  owner :: "nat option"

definition locker_new :: locker where
  "locker_new = \<lparr>owner = None\<rparr>"

definition locker_lock :: "nat \<Rightarrow> locker \<Rightarrow> (locker \<times> bool) call" where
  "locker_lock t m = (if owner m = None then Returns (m\<lparr>owner := Some t\<rparr>, True) else Blocks)"

definition locker_unlock :: "nat \<Rightarrow> locker \<Rightarrow> (locker \<times> bool) call" where
  "locker_unlock t m = (if owner m = Some t then Returns (m\<lparr>owner := None\<rparr>, True) else Undefined)"

definition locker_delete :: "locker \<Rightarrow> unit call" where
  "locker_delete m = (if owner m = None then Returns () else Undefined)"

section \<open>Condition variables\<close>

record cond_var =
  waiters :: "nat list"

definition cond_new :: cond_var where
  "cond_new = \<lparr>waiters = []\<rparr>"

definition cond_sleep :: "nat \<Rightarrow> cond_var \<Rightarrow> locker \<Rightarrow> (cond_var \<times> locker) call" where
  "cond_sleep t c m =
     (if owner m = Some t then Returns (c\<lparr>waiters := waiters c @ [t]\<rparr>, m\<lparr>owner := None\<rparr>) else Undefined)"

text \<open>
  The return of \<open>wait\<close>, after a signal or, when \<open>early\<close>, without one; and of \<open>timewait\<close>, where \<open>late\<close> says
  that the deadline has passed.
\<close>

definition cond_wait :: "bool \<Rightarrow> nat \<Rightarrow> cond_var \<Rightarrow> locker \<Rightarrow> (cond_var \<times> locker \<times> bool) call" where
  "cond_wait early t c m =
     (if t \<in> set (waiters c) \<and> \<not> early \<or> owner m \<noteq> None then Blocks
      else Returns (c\<lparr>waiters := removeAll t (waiters c)\<rparr>, m\<lparr>owner := Some t\<rparr>, True))"

definition cond_timewait :: "bool \<Rightarrow> bool \<Rightarrow> nat \<Rightarrow> cond_var \<Rightarrow> locker \<Rightarrow> (cond_var \<times> locker \<times> bool) call" where
  "cond_timewait early late t c m =
     (if t \<in> set (waiters c) \<and> \<not> early \<and> \<not> late \<or> owner m \<noteq> None then Blocks
      else Returns (c\<lparr>waiters := removeAll t (waiters c)\<rparr>, m\<lparr>owner := Some t\<rparr>, \<not> late))"

definition cond_signal :: "cond_var \<Rightarrow> cond_var \<times> bool" where
  "cond_signal c = (c\<lparr>waiters := tl (waiters c)\<rparr>, True)"

definition cond_broadcast :: "cond_var \<Rightarrow> cond_var \<times> bool" where
  "cond_broadcast c = (c\<lparr>waiters := []\<rparr>, True)"

text \<open>Nobody may wait when the variable is destroyed.\<close>

definition cond_delete :: "cond_var \<Rightarrow> unit call" where
  "cond_delete c = (if waiters c = [] then Returns () else Undefined)"

lemma sem_new_cases: "sem_new = Some \<lparr>sem_value = 0\<rparr>" "0 \<le> n \<Longrightarrow> n \<le> SEM_VALUE_MAX \<Longrightarrow> sem_new_num n = Some \<lparr>sem_value = n\<rparr>"
    "- 2147483648 \<le> n \<Longrightarrow> n < 0 \<Longrightarrow> sem_new_num n = None"
proof -
  show "sem_new = Some \<lparr>sem_value = 0\<rparr>" by (simp add: sem_new_def sem_init_def SEM_VALUE_MAX_def)
  have mod: "uint (word_of_int n :: u32) = n mod 4294967296" for n :: int by (simp add: uint_word_of_int)
  show "0 \<le> n \<Longrightarrow> n \<le> SEM_VALUE_MAX \<Longrightarrow> sem_new_num n = Some \<lparr>sem_value = n\<rparr>"
    by (simp add: sem_new_num_def sem_init_def mod SEM_VALUE_MAX_def)
  have "n mod 4294967296 = n + 4294967296" if "- 2147483648 \<le> n" "n < 0" for n :: int
    using that mod_pos_pos_trivial [of "n + 4294967296" 4294967296] by simp
  then show "- 2147483648 \<le> n \<Longrightarrow> n < 0 \<Longrightarrow> sem_new_num n = None"
    by (simp add: sem_new_num_def sem_init_def mod SEM_VALUE_MAX_def)
qed

lemmas locker_defs = locker_lock_def locker_unlock_def cond_sleep_def cond_wait_def cond_timewait_def cond_broadcast_def

end
