(* ===== verification/BlockQueue.thy ===== *)
theory BlockQueue
  imports Prelude "HOL-Library.Signed_Division" "HOL-Library.Sublist"
begin

text \<open>
  The blocking queue of the asynchronous log (\<open>src/log/block_queue.h\<close>): a circular array, its
  operations, and the machine of threads that call them.

  Every operation runs between \<open>lock\<close> and \<open>unlock\<close> of the queue's mutex and is one step; the only
  place where the mutex is released in between is the wait for the condition variable in \<open>pop\<close>,
  and there a thread's operation is cut in two steps.  The thread machine at the end of this theory
  has a step for each.  The \<open>int\<close> members stay between -1 and the capacity
  (\<open>bq_ok\<close>), so that no operation on them overflows.
\<close>

section \<open>State\<close>

record 'a bq =
  m_array :: "'a list"
  m_size :: int
  m_max_size :: int
  m_front :: int
  m_back :: int

text \<open>An access to an array at an index outside it has no result.\<close>

definition array_get :: "'a list \<Rightarrow> int \<Rightarrow> 'a option" where
  "array_get a i = (if 0 \<le> i \<and> nat i < length a then Some (a ! nat i) else None)"

definition array_set :: "'a list \<Rightarrow> int \<Rightarrow> 'a \<Rightarrow> 'a list option" where
  "array_set a i x = (if 0 \<le> i \<and> nat i < length a then Some (a[nat i := x]) else None)"

section \<open>Operations\<close>

text \<open>The constructor; here \<open>None\<close> is the exit of the process. \<open>T()\<close> is the parameter \<open>t0\<close>.\<close>

definition bq_new :: "'a \<Rightarrow> int \<Rightarrow> 'a bq option" where
  "bq_new t0 max_size =
     (if max_size \<le> 0 then None
      else Some \<lparr>m_array = replicate (nat max_size) t0, m_size = 0, m_max_size = max_size,
                 m_front = - 1, m_back = - 1\<rparr>)"

definition bq_clear :: "'a bq \<Rightarrow> 'a bq" where
  "bq_clear q = q\<lparr>m_size := 0, m_front := - 1, m_back := - 1\<rparr>"

definition bq_full :: "'a bq \<Rightarrow> bool" where
  "bq_full q = (if m_size q \<ge> m_max_size q then True else False)"

definition bq_empty :: "'a bq \<Rightarrow> bool" where
  "bq_empty q = (if 0 = m_size q then True else False)"

text \<open>\<open>front\<close> and \<open>back\<close>: the inner \<open>None\<close> is the return value \<open>false\<close>.\<close>

definition bq_front :: "'a bq \<Rightarrow> 'a option option" where
  "bq_front q =
     (if 0 = m_size q then Some None
      else do { v \<leftarrow> array_get (m_array q) (m_front q); Some (Some v) })"

definition bq_back :: "'a bq \<Rightarrow> 'a option option" where
  "bq_back q =
     (if 0 = m_size q then Some None
      else do { v \<leftarrow> array_get (m_array q) (m_back q); Some (Some v) })"

definition bq_size :: "'a bq \<Rightarrow> int" where
  "bq_size q = m_size q"

definition bq_max_size :: "'a bq \<Rightarrow> int" where
  "bq_max_size q = m_max_size q"

text \<open>\<open>push\<close> broadcasts on both branches; the machine below wakes the waiting threads.\<close>

definition bq_push :: "'a \<Rightarrow> 'a bq \<Rightarrow> ('a bq \<times> bool) option" where
  "bq_push item q =
     (if m_size q \<ge> m_max_size q then Some (q, False)
      else do {
        let back = (m_back q + 1) smod m_max_size q;
        a \<leftarrow> array_set (m_array q) back item;
        Some (q\<lparr>m_back := back, m_array := a, m_size := m_size q + 1\<rparr>, True) })"

text \<open>The part of both \<open>pop\<close>s that takes an element, after the wait.\<close>

definition bq_take :: "'a bq \<Rightarrow> ('a bq \<times> 'a) option" where
  "bq_take q = do {
     let front = (m_front q + 1) smod m_max_size q;
     item \<leftarrow> array_get (m_array q) front;
     Some (q\<lparr>m_front := front, m_size := m_size q - 1\<rparr>, item) }"

text \<open>
  What a thread does from one release of the mutex to the next: it returns with an element, it
  returns \<open>false\<close>, or it waits for the condition variable.
\<close>

datatype 'a pop_step = Returned 'a | Failed | Waits

text \<open>The test of the loop \<open>while (m_size <= 0)\<close> of \<open>pop\<close>, and what follows it.\<close>

definition bq_pop :: "'a bq \<Rightarrow> ('a bq \<times> 'a pop_step) option" where
  "bq_pop q =
     (if m_size q \<le> 0 then Some (q, Waits)
      else do { (q, item) \<leftarrow> bq_take q; Some (q, Returned item) })"

text \<open>The return from \<open>m_cond.wait\<close> in that loop, with its result.\<close>

definition bq_pop_resume :: "bool \<Rightarrow> 'a bq \<Rightarrow> ('a bq \<times> 'a pop_step) option" where
  "bq_pop_resume ok q = (if \<not> ok then Some (q, Failed) else bq_pop q)"

text \<open>
  The deadline of \<open>pop\<close> with a timeout: seconds and nanoseconds, from the seconds of
  \<open>gettimeofday\<close> and the timeout in milliseconds.
\<close>

definition pop_deadline :: "int \<Rightarrow> int \<Rightarrow> int \<times> int" where
  "pop_deadline tv_sec ms_timeout =
     (tv_sec + ms_timeout sdiv 1000, (ms_timeout smod 1000) * 1000)"

definition bq_timed_pop :: "int \<Rightarrow> int \<Rightarrow> 'a bq \<Rightarrow> ('a bq \<times> 'a pop_step \<times> (int \<times> int)) option" where
  "bq_timed_pop tv_sec ms_timeout q =
     (if m_size q \<le> 0 then Some (q, Waits, pop_deadline tv_sec ms_timeout)
      else do { (q, item) \<leftarrow> bq_take q; Some (q, Returned item, (0, 0)) })"

definition bq_timed_resume :: "bool \<Rightarrow> 'a bq \<Rightarrow> ('a bq \<times> 'a pop_step) option" where
  "bq_timed_resume ok q =
     (if \<not> ok then Some (q, Failed)
      else if m_size q \<le> 0 then Some (q, Failed)
      else do { (q, item) \<leftarrow> bq_take q; Some (q, Returned item) })"

section \<open>The queue as a list\<close>

definition slot :: "'a bq \<Rightarrow> nat \<Rightarrow> nat" where
  "slot q i = nat ((m_front q + 1 + int i) mod m_max_size q)"

definition contents :: "'a bq \<Rightarrow> 'a list" where
  "contents q = map (\<lambda>i. m_array q ! slot q i) [0..<nat (m_size q)]"

definition bq_ok :: "'a bq \<Rightarrow> bool" where
  "bq_ok q \<longleftrightarrow> 0 < m_max_size q \<and> int (length (m_array q)) = m_max_size q \<and>
     0 \<le> m_size q \<and> m_size q \<le> m_max_size q \<and>
     - 1 \<le> m_front q \<and> m_front q < m_max_size q \<and> - 1 \<le> m_back q \<and> m_back q < m_max_size q \<and>
     m_back q mod m_max_size q = (m_front q + m_size q) mod m_max_size q \<and> (0 < m_size q \<longrightarrow> 0 \<le> m_back q)"

lemma bq_okD:
  assumes "bq_ok q"
  shows "0 < m_max_size q" "int (length (m_array q)) = m_max_size q" "0 \<le> m_size q" "m_size q \<le> m_max_size q"
    "- 1 \<le> m_front q" "m_front q < m_max_size q" "- 1 \<le> m_back q" "m_back q < m_max_size q"
    "m_back q mod m_max_size q = (m_front q + m_size q) mod m_max_size q" "0 < m_size q \<Longrightarrow> 0 \<le> m_back q"
  using assms by (simp_all add: bq_ok_def)

lemma smod_nonneg: "0 \<le> a \<Longrightarrow> 0 < b \<Longrightarrow> a smod b = a mod (b :: int)"
  by (simp add: smod_mod_positive)

lemma length_contents: "bq_ok q \<Longrightarrow> int (length (contents q)) = m_size q"
  by (simp add: contents_def bq_okD(3))

lemma slot_less: "bq_ok q \<Longrightarrow> slot q i < length (m_array q)"
  using bq_okD(1,2) [of q] by (simp add: slot_def nat_less_iff)

lemma slot_inj:
  assumes "bq_ok q" and "i < nat (m_max_size q)" and "j < nat (m_max_size q)" and "slot q i = slot q j"
  shows "i = j"
proof -
  have pos: "0 < m_max_size q" by (rule bq_okD(1) [OF assms(1)])
  from assms(4) pos have "(m_front q + 1 + int i) mod m_max_size q = (m_front q + 1 + int j) mod m_max_size q"
    unfolding slot_def by (meson eq_nat_nat_iff pos_mod_sign)
  then have "(m_front q + 1 + int i - (m_front q + 1)) mod m_max_size q = (m_front q + 1 + int j - (m_front q + 1)) mod m_max_size q"
    by (rule mod_diff_cong) simp
  with assms(2,3) show ?thesis by simp
qed

lemma slot_Suc:
  assumes "bq_ok q" and "f = (m_front q + 1) mod m_max_size q"
  shows "slot (q\<lparr>m_front := f, m_size := k\<rparr>) i = slot q (Suc i)"
proof -
  have "(f + 1 + int i) mod m_max_size q = (m_front q + 1 + (1 + int i)) mod m_max_size q"
    unfolding assms(2) by (metis add.assoc mod_add_left_eq)
  then show ?thesis by (simp add: slot_def algebra_simps)
qed

lemma slot_back:
  assumes "bq_ok q"
  shows "(m_back q + 1) mod m_max_size q = int (slot q (nat (m_size q)))"
proof -
  note Q = bq_okD [OF assms]
  have "(m_back q + 1) mod m_max_size q = (m_back q mod m_max_size q + 1) mod m_max_size q" by (simp add: mod_simps)
  also have "\<dots> = (m_front q + 1 + m_size q) mod m_max_size q" unfolding Q(9) by (simp add: mod_simps algebra_simps)
  finally show ?thesis using Q(1,3) by (simp add: slot_def)
qed

lemma new_queue: "0 < mx \<Longrightarrow> \<exists>q. bq_new t0 mx = Some q \<and> bq_ok q \<and> contents q = [] \<and> m_max_size q = mx"
  by (simp add: bq_new_def bq_ok_def contents_def)

lemma clear_queue: "bq_ok q \<Longrightarrow> bq_ok (bq_clear q) \<and> contents (bq_clear q) = [] \<and> m_max_size (bq_clear q) = m_max_size q"
  by (simp add: bq_clear_def bq_ok_def contents_def)

lemma push_room:
  assumes "bq_ok q" and "m_size q < m_max_size q"
  shows "\<exists>q'. bq_push x q = Some (q', True) \<and> bq_ok q' \<and> contents q' = contents q @ [x] \<and> m_max_size q' = m_max_size q"
proof -
  note Q = bq_okD [OF assms(1)]
  define b where "b = slot q (nat (m_size q))"
  have b: "b < length (m_array q)" unfolding b_def by (rule slot_less [OF assms(1)])
  have r: "(m_back q + 1) smod m_max_size q = int b"
    using Q(1,7) slot_back [OF assms(1)] by (simp add: smod_nonneg b_def)
  define q' where "q' = q\<lparr>m_back := int b, m_array := (m_array q)[b := x], m_size := m_size q + 1\<rparr>"
  have run: "bq_push x q = Some (q', True)"
    using assms(2) b by (simp add: bq_push_def r array_set_def q'_def Let_def)
  have sl: "slot q' i = slot q i" for i by (simp add: slot_def q'_def)
  have "int b = (m_front q + 1 + m_size q) mod m_max_size q" using Q(1,3) by (simp add: b_def slot_def)
  then have "int b mod m_max_size q' = (m_front q' + m_size q') mod m_max_size q'" by (simp add: q'_def algebra_simps)
  with Q assms(2) b have ok: "bq_ok q'" by (simp add: bq_ok_def q'_def)
  have n: "nat (m_size q') = Suc (nat (m_size q))" using Q(3) by (simp add: q'_def)
  have "m_array q' ! slot q i = m_array q ! slot q i" if "i < nat (m_size q)" for i
  proof -
    have "slot q i \<noteq> b"
      using slot_inj [OF assms(1), of i "nat (m_size q)"] that assms(2) Q(1) unfolding b_def by auto
    then show ?thesis by (simp add: q'_def)
  qed
  moreover have "m_array q' ! b = x" using b by (simp add: q'_def)
  ultimately have "contents q' = contents q @ [x]" by (simp add: contents_def sl n b_def)
  with run ok show ?thesis by (simp add: q'_def)
qed

lemma push_full: "m_max_size q \<le> m_size q \<Longrightarrow> bq_push x q = Some (q, False)"
  by (simp add: bq_push_def)

lemma take_queue:
  assumes "bq_ok q" and "0 < m_size q"
  shows "\<exists>q' x. bq_take q = Some (q', x) \<and> bq_ok q' \<and> contents q = x # contents q' \<and> m_max_size q' = m_max_size q \<and>
     m_front q' = int (slot q 0) \<and> m_array q' = m_array q \<and> x = m_array q ! slot q 0"
proof -
  note Q = bq_okD [OF assms(1)]
  define f where "f = (m_front q + 1) mod m_max_size q"
  have f: "0 \<le> f" "f < m_max_size q" "f = int (slot q 0)" using Q(1) by (simp_all add: f_def slot_def)
  have r: "(m_front q + 1) smod m_max_size q = f" using Q(1,5) by (simp add: smod_nonneg f_def)
  define q' where "q' = q\<lparr>m_front := f, m_size := m_size q - 1\<rparr>"
  have run: "bq_take q = Some (q', m_array q ! slot q 0)"
    using f Q(2) by (simp add: bq_take_def r array_get_def q'_def Let_def)
  have sl: "slot q' i = slot q (Suc i)" for i
    unfolding q'_def by (rule slot_Suc [OF assms(1) f_def])
  have bk: "m_back q' mod m_max_size q' = (m_front q' + m_size q') mod m_max_size q'"
    unfolding q'_def using Q(9) by (simp add: f_def mod_simps)
  have ok: "bq_ok q'"
    unfolding bq_ok_def using Q(1-5,7,8,10) assms(2) f(1,2)
    by (intro conjI bk impI) (simp_all add: q'_def)
  obtain n where n: "nat (m_size q) = Suc n" "nat (m_size q') = n"
    using assms(2) by (cases "nat (m_size q)") (auto simp: q'_def)
  have "contents q = m_array q ! slot q 0 # contents q'"
    unfolding contents_def n sl by (simp add: q'_def upt_conv_Cons del: upt_Suc flip: map_Suc_upt)
  with run ok f(3) show ?thesis by (simp add: q'_def)
qed

lemma back_queue:
  assumes "bq_ok q" and "0 < m_size q"
  shows "bq_back q = Some (Some (last (contents q)))"
proof -
  note Q = bq_okD [OF assms(1)]
  obtain n where n: "nat (m_size q) = Suc n" "m_size q = 1 + int n"
    using assms(2) that [of "nat (m_size q - 1)"] by simp
  have eq: "m_back q mod m_max_size q = int (slot q n)"
    unfolding slot_def Q(9) n(2) using Q(1) by (simp add: algebra_simps)
  with Q(8,10) assms(2) have bk: "m_back q = int (slot q n)" by simp
  have "contents q = map (\<lambda>i. m_array q ! slot q i) [0..<n] @ [m_array q ! slot q n]"
    unfolding contents_def n(1) by simp
  then have "last (contents q) = m_array q ! slot q n" by simp
  with bk n(2) slot_less [OF assms(1), of n] show ?thesis by (simp add: bq_back_def array_get_def)
qed

section \<open>Threads\<close>

text \<open>
  A thread inside \<open>pop\<close> is about to lock the mutex and test (\<open>PopTest\<close>), blocked in the wait
  (\<open>PopWait\<close>), or woken and about to get the mutex back (\<open>PopWoken\<close>); the same for \<open>pop\<close> with a
  timeout.  A step of the machine is what one thread does while it holds the mutex.  A blocked thread
  may come back without a broadcast: spuriously, with an error, or at its deadline.
\<close>

datatype phase = PopTest | PopWait | PopWoken | TimedTest | TimedWait | TimedWoken

fun woken :: "phase \<Rightarrow> phase" where
  "woken PopWait = PopWoken"
| "woken TimedWait = TimedWoken"
| "woken p = p"

fun blocked :: "phase \<Rightarrow> phase" where
  "blocked PopTest = PopWait"
| "blocked PopWait = PopWait"
| "blocked PopWoken = PopWait"
| "blocked p = TimedWait"

text \<open>\<open>ok\<close> is the result of the wait; \<open>sec\<close> and \<open>ms\<close> are the clock and the timeout.\<close>

fun thread_step :: "phase \<Rightarrow> bool \<Rightarrow> int \<Rightarrow> int \<Rightarrow> 'a bq \<Rightarrow> ('a bq \<times> 'a pop_step) option" where
  "thread_step PopTest ok sec ms q = bq_pop q"
| "thread_step PopWait ok sec ms q = bq_pop_resume ok q"
| "thread_step PopWoken ok sec ms q = bq_pop_resume ok q"
| "thread_step TimedTest ok sec ms q = map_option (\<lambda>(q, r, d). (q, r)) (bq_timed_pop sec ms q)"
| "thread_step TimedWait ok sec ms q = bq_timed_resume ok q"
| "thread_step TimedWoken ok sec ms q = bq_timed_resume ok q"

text \<open>
  \<open>pushed\<close>, \<open>taken\<close> and \<open>popped\<close> record what \<open>push\<close> accepted, what left the queue, and what \<open>pop\<close>
  gave to which thread.
\<close>

record 'a bq_sys =
  queue :: "'a bq"
  threads :: "nat \<rightharpoonup> phase"
  pushed :: "'a list"
  taken :: "'a list"
  popped :: "(nat \<times> 'a) list"

definition broadcast :: "(nat \<rightharpoonup> phase) \<Rightarrow> nat \<rightharpoonup> phase" where
  "broadcast ph = map_option woken \<circ> ph"

fun settle :: "nat \<Rightarrow> phase \<Rightarrow> 'a bq \<Rightarrow> 'a pop_step \<Rightarrow> 'a bq_sys \<Rightarrow> 'a bq_sys" where
  "settle t p q (Returned x) s =
     s\<lparr>queue := q, threads := (threads s)(t := None), taken := taken s @ [x], popped := popped s @ [(t, x)]\<rparr>"
| "settle t p q Failed s = s\<lparr>queue := q, threads := (threads s)(t := None)\<rparr>"
| "settle t p q Waits s = s\<lparr>queue := q, threads := (threads s)(t \<mapsto> blocked p)\<rparr>"

inductive bq_trans :: "'a bq_sys \<Rightarrow> 'a bq_sys \<Rightarrow> bool" where
  trans_push: "bq_push x (queue s) = Some (q, ok) \<Longrightarrow>
     bq_trans s (s\<lparr>queue := q, threads := broadcast (threads s), pushed := pushed s @ (if ok then [x] else [])\<rparr>)"
| trans_call: "threads s t = None \<Longrightarrow> p = PopTest \<or> p = TimedTest \<Longrightarrow>
     bq_trans s (s\<lparr>threads := (threads s)(t \<mapsto> p)\<rparr>)"
| trans_thread: "threads s t = Some p \<Longrightarrow> thread_step p ok sec ms (queue s) = Some (q, r) \<Longrightarrow>
     bq_trans s (settle t p q r s)"
| trans_clear: "bq_trans s (s\<lparr>queue := bq_clear (queue s), taken := taken s @ contents (queue s)\<rparr>)"

inductive bq_reach :: "'a bq_sys \<Rightarrow> bool" where
  reach_new: "bq_new t0 n = Some q \<Longrightarrow>
     bq_reach \<lparr>queue = q, threads = Map.empty, pushed = [], taken = [], popped = []\<rparr>"
| reach_step: "bq_reach s \<Longrightarrow> bq_trans s s' \<Longrightarrow> bq_reach s'"

definition asleep :: "phase \<Rightarrow> bool" where
  "asleep p \<longleftrightarrow> p = PopWait \<or> p = TimedWait"

definition sys_ok :: "'a bq_sys \<Rightarrow> bool" where
  "sys_ok s \<longleftrightarrow> bq_ok (queue s) \<and> pushed s = taken s @ contents (queue s) \<and>
     subseq (map snd (popped s)) (taken s) \<and>
     (\<forall>t p. threads s t = Some p \<and> asleep p \<longrightarrow> contents (queue s) = [])"

lemma contents_Nil: "bq_ok q \<Longrightarrow> contents q = [] \<longleftrightarrow> m_size q \<le> 0"
  by (simp add: contents_def)

lemma not_asleep_woken [simp]: "\<not> asleep (woken p)"
  by (cases p) (simp_all add: asleep_def)

text \<open>What a step of a thread does, in terms of the contents.\<close>

lemma thread_step_cases:
  assumes "bq_ok q"
  shows "\<exists>q' r. thread_step p ok sec ms q = Some (q', r) \<and> bq_ok q' \<and>
     (case r of Returned x \<Rightarrow> contents q = x # contents q' | Failed \<Rightarrow> q' = q | Waits \<Rightarrow> q' = q \<and> contents q = []) \<and>
     (contents q \<noteq> [] \<longrightarrow> ok \<longrightarrow> (\<exists>x. r = Returned x))"
proof (cases "m_size q \<le> 0")
  case True
  with contents_Nil [OF assms] assms show ?thesis
    by (cases p) (auto simp: bq_pop_def bq_pop_resume_def bq_timed_pop_def bq_timed_resume_def)
next
  case False
  with take_queue [OF assms] obtain q' x where
    "bq_take q = Some (q', x)" "bq_ok q'" "contents q = x # contents q'" by auto
  with False assms show ?thesis
    by (cases p; cases ok) (auto simp: bq_pop_def bq_pop_resume_def bq_timed_pop_def bq_timed_resume_def)
qed

lemma sys_ok_trans:
  assumes "bq_trans s s'" and "sys_ok s"
  shows "sys_ok s'"
  using assms(1)
proof cases
  case (trans_push x q ok)
  have ok: "bq_ok (queue s)" using assms(2) by (simp add: sys_ok_def)
  have "(ok \<and> bq_ok q \<and> contents q = contents (queue s) @ [x]) \<or> (\<not> ok \<and> q = queue s)"
    using trans_push(2) push_room [OF ok, of x] push_full [of "queue s" x]
    by (cases "m_size (queue s) < m_max_size (queue s)") auto
  with assms(2) show ?thesis unfolding trans_push(1) by (auto simp: sys_ok_def broadcast_def)
next
  case (trans_call t p)
  with assms(2) show ?thesis by (auto simp: sys_ok_def asleep_def split: if_splits)
next
  case (trans_thread t p ok sec ms q r)
  have ok: "bq_ok (queue s)" using assms(2) by (simp add: sys_ok_def)
  with thread_step_cases [OF ok, of p ok sec ms] trans_thread(3) assms(2) show ?thesis
    unfolding trans_thread(1)
    by (cases r) (auto simp: sys_ok_def split: if_splits intro: list_emb_append_mono)
next
  case trans_clear
  with assms(2) clear_queue [of "queue s"] show ?thesis
    by (auto simp: sys_ok_def intro: subseq_rev_drop_many)
qed

lemma sys_ok_reach: "bq_reach s \<Longrightarrow> sys_ok s"
proof (induction rule: bq_reach.induct)
  case (reach_new t0 n q)
  then have "0 < n" by (auto simp: bq_new_def split: if_splits)
  from new_queue [OF this, of t0] reach_new show ?case by (auto simp: sys_ok_def)
next
  case reach_step
  then show ?case using sys_ok_trans by blast
qed

section \<open>Properties\<close>

text \<open>
  C16. The queue is first-in first-out under any interleaving of threads: what \<open>push\<close> accepted is
  what was taken out, in that order, followed by what is in the queue, so nothing is lost, duplicated
  or reordered; the results of \<open>pop\<close> are among what was taken, in order; and the
  number of elements stays within the capacity.
\<close>

theorem block_queue_fifo:
  assumes "bq_reach s"
  shows "pushed s = taken s @ contents (queue s) \<and> subseq (map snd (popped s)) (taken s) \<and>
     bq_size (queue s) = int (length (contents (queue s))) \<and> bq_size (queue s) \<le> bq_max_size (queue s)"
  using sys_ok_reach [OF assms] length_contents [of "queue s"] bq_okD(4) [of "queue s"]
  by (simp add: sys_ok_def bq_size_def bq_max_size_def)

text \<open>
  C27. No wake-up is lost and no access is out of bounds: while there is an element in the queue, no
  thread inside \<open>pop\<close> is blocked, and the next one to get the mutex returns with the first element;
  and no step of a thread or of \<open>push\<close> faults.
\<close>

theorem block_queue_no_lost_wakeup:
  assumes "bq_reach s"
  shows "(\<forall>t p. threads s t = Some p \<longrightarrow> contents (queue s) \<noteq> [] \<longrightarrow>
            p \<noteq> PopWait \<and> p \<noteq> TimedWait \<and>
            (\<exists>q x. thread_step p True sec ms (queue s) = Some (q, Returned x) \<and> contents (queue s) = x # contents q)) \<and>
     thread_step p ok sec ms (queue s) \<noteq> None \<and> bq_push x (queue s) \<noteq> None"
proof -
  have inv: "bq_ok (queue s)" "\<And>t p. threads s t = Some p \<Longrightarrow> asleep p \<Longrightarrow> contents (queue s) = []"
    using sys_ok_reach [OF assms] by (auto simp: sys_ok_def)
  have "bq_push x (queue s) \<noteq> None"
    using push_room [OF inv(1), of x] push_full [of "queue s" x]
    by (cases "m_size (queue s) < m_max_size (queue s)") auto
  moreover have "\<exists>q x. thread_step p True sec ms (queue s) = Some (q, Returned x) \<and> contents (queue s) = x # contents q"
    if "contents (queue s) \<noteq> []" for p
    using thread_step_cases [OF inv(1), of p True sec ms] that by auto
  ultimately show ?thesis
    using inv(2) thread_step_cases [OF inv(1), of p ok sec ms] unfolding asleep_def by blast
qed

text \<open>
  The operations on the list of elements: \<open>push\<close> appends or refuses when full, taking removes
  the first element, \<open>back\<close> returns the last, \<open>full\<close>, \<open>empty\<close> and \<open>size\<close> say how many there are.
\<close>

theorem block_queue_refines:
  assumes "bq_ok q"
  shows "(int (length (contents q)) < bq_max_size q \<longrightarrow>
        (\<exists>q'. bq_push x q = Some (q', True) \<and> bq_ok q' \<and> contents q' = contents q @ [x])) \<and>
     (int (length (contents q)) = bq_max_size q \<longrightarrow> bq_push x q = Some (q, False)) \<and>
     (\<forall>y ys. contents q = y # ys \<longrightarrow> (\<exists>q'. bq_pop q = Some (q', Returned y) \<and> bq_ok q' \<and> contents q' = ys) \<and>
        bq_back q = Some (Some (last (y # ys)))) \<and>
     (contents q = [] \<longrightarrow> bq_pop q = Some (q, Waits) \<and> bq_back q = Some None) \<and>
     (bq_empty q \<longleftrightarrow> contents q = []) \<and> (bq_full q \<longleftrightarrow> int (length (contents q)) = bq_max_size q)"
proof -
  note Q = bq_okD [OF assms] and len = length_contents [OF assms]
  have pop: "(\<exists>q'. bq_pop q = Some (q', Returned y) \<and> bq_ok q' \<and> contents q' = ys) \<and> bq_back q = Some (Some (last (y # ys)))"
    if c: "contents q = y # ys" for y ys
  proof -
    have "0 < m_size q" using len c by simp
    with take_queue [OF assms this] back_queue [OF assms this] c show ?thesis by (auto simp: bq_pop_def)
  qed
  have none: "bq_pop q = Some (q, Waits) \<and> bq_back q = Some None" if "contents q = []"
    using that len by (simp add: bq_pop_def bq_back_def)
  have "bq_empty q \<longleftrightarrow> contents q = []" using len by (auto simp: bq_empty_def)
  moreover have "bq_full q \<longleftrightarrow> int (length (contents q)) = bq_max_size q"
    using len Q(4) by (auto simp: bq_full_def bq_max_size_def)
  ultimately show ?thesis
    using push_room [OF assms, of x] push_full [of q x] pop none len by (auto simp: bq_max_size_def)
qed

text \<open>
  \<open>front\<close> does not return the first element: after an element was taken it returns that
  element again, and before anything was taken it reads the array at index -1.
\<close>

theorem block_queue_front_stale:
  assumes "bq_ok q" and "contents q = x # y # ys"
  shows "(\<exists>q'. bq_pop q = Some (q', Returned x) \<and> contents q' = y # ys \<and> bq_front q' = Some (Some x)) \<and>
     (m_front q = - 1 \<longrightarrow> bq_front q = None)"
proof -
  have size: "1 < m_size q" using length_contents [OF assms(1)] assms(2) by simp
  with take_queue [OF assms(1)] assms(2) obtain q' where
    q': "bq_take q = Some (q', x)" "bq_ok q'" "contents q' = y # ys" "m_front q' = int (slot q 0)"
      "m_array q' = m_array q" "x = m_array q ! slot q 0" by auto
  have "m_size q' \<noteq> 0" using length_contents [OF q'(2)] q'(3) by simp
  with q' slot_less [OF assms(1), of 0] have "bq_front q' = Some (Some x)" by (simp add: bq_front_def array_get_def)
  with q' size show ?thesis by (auto simp: bq_pop_def bq_front_def array_get_def)
qed

text \<open>
  The deadline of a timed \<open>pop\<close> is a valid time but too early: it is never after the moment
  asked for, and it has passed already whenever the timeout is below a second and smaller, read as
  microseconds, than the fraction of the current second.
\<close>

theorem pop_deadline_early:
  assumes "0 \<le> ms" and "0 \<le> usec" and "usec < 1000000"
  shows "\<exists>s n. pop_deadline sec ms = (s, n) \<and> 0 \<le> n \<and> n < 1000000000 \<and>
     s * 1000000000 + n \<le> (sec * 1000000000 + usec * 1000) + ms * 1000000 \<and>
     (ms < 1000 \<and> ms < usec \<longrightarrow> s * 1000000000 + n < sec * 1000000000 + usec * 1000)"
proof -
  have d: "ms sdiv 1000 = ms div 1000" "ms smod 1000 = ms mod 1000"
    using assms(1) by (cases "ms = 0"; simp add: smod_mod_positive signed_divide_int_def)+
  have split: "ms = ms div 1000 * 1000 + ms mod 1000" "0 \<le> ms mod 1000" "ms mod 1000 < 1000" by auto
  then have "ms div 1000 * 1000000000 + ms mod 1000 * 1000 \<le> usec * 1000 + ms * 1000000"
    using assms(2) by linarith
  moreover have "ms < 1000 \<longrightarrow> ms div 1000 = 0 \<and> ms mod 1000 = ms" using assms(1) by simp
  ultimately show ?thesis using assms split(2,3) by (auto simp: pop_deadline_def d algebra_simps)
qed

section \<open>Witnesses\<close>

definition demo_queue :: "nat bq" where
  "demo_queue = \<lparr>m_array = [5, 6, 0], m_size = 2, m_max_size = 3, m_front = - 1, m_back = 1\<rparr>"

lemma demo_queue_ok: "bq_ok demo_queue" "contents demo_queue = [5, 6]"
  by (simp_all add: bq_ok_def demo_queue_def contents_def slot_def upt_rec)

definition demo_sys :: "nat bq_sys" where
  "demo_sys = \<lparr>queue = \<lparr>m_array = [5], m_size = 1, m_max_size = 1, m_front = - 1, m_back = 0\<rparr>,
     threads = [7 \<mapsto> PopTest], pushed = [5], taken = [], popped = []\<rparr>"

lemma demo_sys_reach: "bq_reach demo_sys"
proof -
  let ?q = "\<lparr>m_array = [0], m_size = 0, m_max_size = 1, m_front = - 1, m_back = - 1\<rparr> :: nat bq"
  let ?s = "\<lparr>queue = ?q, threads = Map.empty, pushed = [], taken = [], popped = []\<rparr>"
  have "bq_reach ?s" by (rule reach_new [of 0 1]) (simp add: bq_new_def)
  then have "bq_reach (?s\<lparr>threads := [7 \<mapsto> PopTest]\<rparr>)" (is "bq_reach ?s'")
    by (rule reach_step) (use trans_call [of ?s 7 PopTest] in simp)
  then show ?thesis
  proof (rule reach_step)
    have "bq_push 5 (queue ?s') = Some (queue demo_sys, True)"
      by (simp add: bq_push_def array_set_def demo_sys_def)
    moreover have "broadcast [7 \<mapsto> PopTest] = [7 \<mapsto> PopTest]" by (rule ext) (simp add: broadcast_def)
    ultimately show "bq_trans ?s' demo_sys" using trans_push [of 5 ?s'] by (simp add: demo_sys_def)
  qed
qed

theorem block_queue_fifo_witness: "pushed demo_sys = taken demo_sys @ contents (queue demo_sys) \<and> bq_size (queue demo_sys) \<le> 1"
  using block_queue_fifo [OF demo_sys_reach] by (simp add: demo_sys_def bq_max_size_def)

theorem block_queue_wakeup_witness:
  "\<exists>q x. thread_step PopTest True 0 0 (queue demo_sys) = Some (q, Returned x) \<and> contents (queue demo_sys) = x # contents q"
proof -
  have "threads demo_sys 7 = Some PopTest" "contents (queue demo_sys) \<noteq> []"
    by (simp_all add: demo_sys_def contents_def)
  with block_queue_no_lost_wakeup [OF demo_sys_reach, of 0 0 PopTest True 0] show ?thesis by blast
qed

theorem block_queue_refines_witness:
  "(\<exists>q. bq_push 7 demo_queue = Some (q, True) \<and> contents q = [5, 6, 7]) \<and> \<not> bq_empty demo_queue"
  using block_queue_refines [OF demo_queue_ok(1), of 7] demo_queue_ok(2)
  by (auto simp: bq_max_size_def demo_queue_def)

theorem block_queue_front_witness: "bq_front demo_queue = None"
  using block_queue_front_stale [OF demo_queue_ok] by (simp add: demo_queue_def)

theorem pop_deadline_witness: "\<exists>s n. pop_deadline 100 500 = (s, n) \<and> s * 1000000000 + n < 100 * 1000000000 + 600000 * 1000"
  using pop_deadline_early [of 500 600000 100] by auto

end
