(* ===== verification/LockedQueue.thy ===== *)
theory LockedQueue
  imports Locker BlockQueue
begin

text \<open>
  The blocking queue statement by statement: threads that run \<open>push\<close>, both \<open>pop\<close>s and \<open>clear\<close> of
  \<open>src/log/block_queue.h\<close> with the mutex and the condition variable of \<open>locker.h\<close>, any of them between any
  two statements of another.  It refines the machine of \<^theory_text>\<open>BlockQueue\<close>, whose steps are whole critical
  sections, so what is proved there holds for the statements.
\<close>

section \<open>Statements\<close>

text \<open>
  The next statement of a thread, named after it; \<open>AtUnlock\<close> is the \<open>unlock\<close> before any return.  \<open>AtPopWait\<close> and
  \<open>AtTimedWait\<close> are inside the wait.
\<close>

datatype 'a pc =
    AtPushLock 'a | AtPushTest 'a | AtPushBack 'a | AtPushStore 'a | AtPushSize 'a | AtBroadcast 'a bool | AtUnlock
  | AtPopLock | AtPopTest | AtPopWait | AtTimedLock | AtTimedTest | AtTimedWait | AtTimedCheck
  | AtTakeFront | AtTakeItem | AtTakeSize 'a
  | AtClearLock | AtClearSize | AtClearFront | AtClearBack

text \<open>\<open>stored\<close> and \<open>results\<close> record what \<open>push\<close> accepted and what \<open>pop\<close> gave to which thread.\<close>

record 'a lsys =
  lq :: "'a bq"
  mtx :: locker
  cv :: cond_var
  pcs :: "nat \<rightharpoonup> 'a pc"
  stored :: "'a list"
  results :: "(nat \<times> 'a) list"

definition goto :: "nat \<Rightarrow> 'a pc \<Rightarrow> 'a lsys \<Rightarrow> 'a lsys" where
  "goto t p l = l\<lparr>pcs := (pcs l)(t \<mapsto> p)\<rparr>"

lemma goto_sels [simp]:
  "lq (goto t p l) = lq l" "mtx (goto t p l) = mtx l" "cv (goto t p l) = cv l" "pcs (goto t p l) = (pcs l)(t \<mapsto> p)"
  "stored (goto t p l) = stored l" "results (goto t p l) = results l"
  by (simp_all add: goto_def)

fun lock_then :: "nat \<Rightarrow> 'a pc \<Rightarrow> 'a lsys \<Rightarrow> 'a lsys call" where
  "lock_then t p l = (case locker_lock t (mtx l) of
     Returns (m, ok) \<Rightarrow> Returns (goto t p (l\<lparr>mtx := m\<rparr>)) | Blocks \<Rightarrow> Blocks | Undefined \<Rightarrow> Undefined)"

fun sleep_then :: "nat \<Rightarrow> 'a pc \<Rightarrow> 'a lsys \<Rightarrow> 'a lsys call" where
  "sleep_then t p l = (case cond_sleep t (cv l) (mtx l) of
     Returns (c, m) \<Rightarrow> Returns (goto t p (l\<lparr>cv := c, mtx := m\<rparr>)) | Blocks \<Rightarrow> Blocks | Undefined \<Rightarrow> Undefined)"

fun lk_step :: "bool \<Rightarrow> bool \<Rightarrow> nat \<Rightarrow> 'a pc \<Rightarrow> 'a lsys \<Rightarrow> 'a lsys call" where
  "lk_step early late t (AtPushLock x) l = lock_then t (AtPushTest x) l"
| "lk_step early late t (AtPushTest x) l =
     Returns (goto t (if m_size (lq l) \<ge> m_max_size (lq l) then AtBroadcast x False else AtPushBack x) l)"
| "lk_step early late t (AtPushBack x) l =
     Returns (goto t (AtPushStore x) (l\<lparr>lq := (lq l)\<lparr>m_back := (m_back (lq l) + 1) smod m_max_size (lq l)\<rparr>\<rparr>))"
| "lk_step early late t (AtPushStore x) l =
     (case array_set (m_array (lq l)) (m_back (lq l)) x of
        None \<Rightarrow> Undefined
      | Some a \<Rightarrow> Returns (goto t (AtPushSize x) (l\<lparr>lq := (lq l)\<lparr>m_array := a\<rparr>\<rparr>)))"
| "lk_step early late t (AtPushSize x) l =
     Returns (goto t (AtBroadcast x True) (l\<lparr>lq := (lq l)\<lparr>m_size := m_size (lq l) + 1\<rparr>\<rparr>))"
| "lk_step early late t (AtBroadcast x ret) l =
     Returns (goto t AtUnlock (l\<lparr>cv := fst (cond_broadcast (cv l)), stored := stored l @ (if ret then [x] else [])\<rparr>))"
| "lk_step early late t AtUnlock l = (case locker_unlock t (mtx l) of
     Returns (m, ok) \<Rightarrow> Returns (l\<lparr>mtx := m, pcs := (pcs l)(t := None)\<rparr>) | Blocks \<Rightarrow> Blocks | Undefined \<Rightarrow> Undefined)"
| "lk_step early late t AtPopLock l = lock_then t AtPopTest l"
| "lk_step early late t AtPopTest l =
     (if m_size (lq l) \<le> 0 then sleep_then t AtPopWait l else Returns (goto t AtTakeFront l))"
| "lk_step early late t AtPopWait l = (case cond_wait early t (cv l) (mtx l) of
     Returns (c, m, ok) \<Rightarrow> Returns (goto t (if \<not> ok then AtUnlock else AtPopTest) (l\<lparr>cv := c, mtx := m\<rparr>))
   | Blocks \<Rightarrow> Blocks | Undefined \<Rightarrow> Undefined)"
| "lk_step early late t AtTimedLock l = lock_then t AtTimedTest l"
| "lk_step early late t AtTimedTest l =
     (if m_size (lq l) \<le> 0 then sleep_then t AtTimedWait l else Returns (goto t AtTakeFront l))"
| "lk_step early late t AtTimedWait l = (case cond_timewait early late t (cv l) (mtx l) of
     Returns (c, m, ok) \<Rightarrow> Returns (goto t (if \<not> ok then AtUnlock else AtTimedCheck) (l\<lparr>cv := c, mtx := m\<rparr>))
   | Blocks \<Rightarrow> Blocks | Undefined \<Rightarrow> Undefined)"
| "lk_step early late t AtTimedCheck l =
     Returns (goto t (if m_size (lq l) \<le> 0 then AtUnlock else AtTakeFront) l)"
| "lk_step early late t AtTakeFront l =
     Returns (goto t AtTakeItem (l\<lparr>lq := (lq l)\<lparr>m_front := (m_front (lq l) + 1) smod m_max_size (lq l)\<rparr>\<rparr>))"
| "lk_step early late t AtTakeItem l =
     (case array_get (m_array (lq l)) (m_front (lq l)) of
        None \<Rightarrow> Undefined
      | Some x \<Rightarrow> Returns (goto t (AtTakeSize x) l))"
| "lk_step early late t (AtTakeSize x) l =
     Returns (goto t AtUnlock (l\<lparr>lq := (lq l)\<lparr>m_size := m_size (lq l) - 1\<rparr>, results := results l @ [(t, x)]\<rparr>))"
| "lk_step early late t AtClearLock l = lock_then t AtClearSize l"
| "lk_step early late t AtClearSize l = Returns (goto t AtClearFront (l\<lparr>lq := (lq l)\<lparr>m_size := 0\<rparr>\<rparr>))"
| "lk_step early late t AtClearFront l = Returns (goto t AtClearBack (l\<lparr>lq := (lq l)\<lparr>m_front := - 1\<rparr>\<rparr>))"
| "lk_step early late t AtClearBack l = Returns (goto t AtUnlock (l\<lparr>lq := (lq l)\<lparr>m_back := - 1\<rparr>\<rparr>))"

fun entry :: "'a pc \<Rightarrow> bool" where
  "entry (AtPushLock x) = True"
| "entry AtPopLock = True"
| "entry AtTimedLock = True"
| "entry AtClearLock = True"
| "entry p = False"

inductive lk_trans :: "'a lsys \<Rightarrow> 'a lsys \<Rightarrow> bool" where
  lk_trans_call: "pcs l t = None \<Longrightarrow> entry p \<Longrightarrow> lk_trans l (goto t p l)"
| lk_trans_step: "pcs l t = Some p \<Longrightarrow> lk_step early late t p l = Returns l' \<Longrightarrow> lk_trans l l'"

inductive lk_reach :: "'a lsys \<Rightarrow> bool" where
  lk_reach_new: "bq_new t0 n = Some q \<Longrightarrow>
     lk_reach \<lparr>lq = q, mtx = locker_new, cv = cond_new, pcs = Map.empty, stored = [], results = []\<rparr>"
| lk_reach_step: "lk_reach l \<Longrightarrow> lk_trans l l' \<Longrightarrow> lk_reach l'"


section \<open>The relation to the machine of critical sections\<close>

text \<open>
  The statements between \<open>lock\<close> and \<open>unlock\<close>; how far the queue is then from \<open>q\<close>, the queue at the last step of the
  other machine; and the phases that the thread can have there.
\<close>

fun holding :: "'a pc \<Rightarrow> bool" where
  "holding (AtPushLock x) = False"
| "holding AtPopLock = False"
| "holding AtPopWait = False"
| "holding AtTimedLock = False"
| "holding AtTimedWait = False"
| "holding AtClearLock = False"
| "holding p = True"

fun partly :: "'a pc \<Rightarrow> 'a bq \<Rightarrow> 'a bq" where
  "partly (AtPushStore x) q = q\<lparr>m_back := (m_back q + 1) smod m_max_size q\<rparr>"
| "partly AtTakeItem q = q\<lparr>m_front := (m_front q + 1) smod m_max_size q\<rparr>"
| "partly (AtTakeSize x) q = q\<lparr>m_front := (m_front q + 1) smod m_max_size q\<rparr>"
| "partly AtClearFront q = q\<lparr>m_size := 0\<rparr>"
| "partly AtClearBack q = q\<lparr>m_size := 0, m_front := - 1\<rparr>"
| "partly p q = q"

fun mid :: "'a pc \<Rightarrow> 'a bq \<Rightarrow> 'a bq \<Rightarrow> bool" where
  "mid (AtPushBack x) q q' = (q' = q \<and> m_size q < m_max_size q)"
| "mid (AtPushStore x) q q' = (q' = partly (AtPushStore x) q \<and> m_size q < m_max_size q)"
| "mid (AtPushSize x) q q' = (m_size q < m_max_size q \<and> bq_push x q = Some (q'\<lparr>m_size := m_size q' + 1\<rparr>, True))"
| "mid (AtBroadcast x ret) q q' = (bq_push x q = Some (q', ret))"
| "mid AtTakeFront q q' = (q' = q \<and> 0 < m_size q)"
| "mid AtTakeItem q q' = (q' = partly AtTakeItem q \<and> 0 < m_size q)"
| "mid (AtTakeSize x) q q' = (q' = partly (AtTakeSize x) q \<and> 0 < m_size q \<and> array_get (m_array q) (m_front q') = Some x)"
| "mid p q q' = (q' = partly p q)"

fun phases :: "'a pc \<Rightarrow> phase option set" where
  "phases AtPopLock = {Some PopTest}"
| "phases AtPopTest = {Some PopTest, Some PopWait, Some PopWoken}"
| "phases AtPopWait = {Some PopWait, Some PopWoken}"
| "phases AtTimedLock = {Some TimedTest}"
| "phases AtTimedTest = {Some TimedTest}"
| "phases AtTimedWait = {Some TimedWait, Some TimedWoken}"
| "phases AtTimedCheck = {Some TimedWait, Some TimedWoken}"
| "phases AtTakeFront = range Some"
| "phases AtTakeItem = range Some"
| "phases (AtTakeSize x) = range Some"
| "phases p = {None}"

definition phases_at :: "'a pc option \<Rightarrow> phase option set" where
  "phases_at p = (case p of None \<Rightarrow> {None} | Some p \<Rightarrow> phases p)"

definition holds_at :: "'a pc option \<Rightarrow> bool" where
  "holds_at p = (case p of None \<Rightarrow> False | Some p \<Rightarrow> holding p)"

lemma at_simps [simp]: "phases_at None = {None}" "phases_at (Some p) = phases p" "\<not> holds_at None" "holds_at (Some p) = holding p"
  by (simp_all add: phases_at_def holds_at_def)

definition sleeps :: "'a pc option \<Rightarrow> phase option \<Rightarrow> bool" where
  "sleeps p ph \<longleftrightarrow> p = Some AtPopWait \<and> ph = Some PopWait \<or> p = Some AtTimedWait \<and> ph = Some TimedWait"

definition lk_rel :: "'a lsys \<Rightarrow> 'a bq_sys \<Rightarrow> bool" where
  "lk_rel l s \<longleftrightarrow>
     (\<forall>t. holds_at (pcs l t) \<longleftrightarrow> owner (mtx l) = Some t) \<and>
     (case owner (mtx l) of None \<Rightarrow> lq l = queue s | Some t \<Rightarrow> mid (the (pcs l t)) (queue s) (lq l)) \<and>
     (\<forall>t. threads s t \<in> phases_at (pcs l t)) \<and>
     (\<forall>t \<in> set (waiters (cv l)). sleeps (pcs l t) (threads s t)) \<and>
     stored l = pushed s \<and> results l = popped s"

lemma rel_holds: "lk_rel l s \<Longrightarrow> pcs l t = Some p \<Longrightarrow> holding p \<Longrightarrow> owner (mtx l) = Some t \<and> mid p (queue s) (lq l)"
  unfolding lk_rel_def by (metis at_simps(4) option.sel option.simps(5))

lemma rel_free: "lk_rel l s \<Longrightarrow> owner (mtx l) = None \<Longrightarrow> lq l = queue s"
  by (simp add: lk_rel_def)

lemma rel_phase: "lk_rel l s \<Longrightarrow> pcs l t = Some p \<Longrightarrow> threads s t \<in> phases p"
  unfolding lk_rel_def by (metis at_simps(2))

lemma rel_awake: "lk_rel l s \<Longrightarrow> pcs l t = Some p \<Longrightarrow> p \<noteq> AtPopWait \<Longrightarrow> p \<noteq> AtTimedWait \<Longrightarrow> t \<notin> set (waiters (cv l))"
  unfolding lk_rel_def sleeps_def by (metis option.inject)

text \<open>A step of thread \<open>t\<close> that leaves the others as they are.\<close>

lemma rel_move:
  assumes "lk_rel l s" and "owner (mtx l) = None \<or> owner (mtx l) = Some t"
    and "pcs l' = (pcs l)(t := p)" and "owner (mtx l') = (if holds_at p then Some t else None)"
    and "if holds_at p then mid (the p) (queue s') (lq l') else lq l' = queue s'"
    and "threads s' t \<in> phases_at p" and "\<forall>u. u \<noteq> t \<longrightarrow> threads s' u = threads s u"
    and "set (waiters (cv l')) - {t} \<subseteq> set (waiters (cv l))" and "t \<in> set (waiters (cv l')) \<longrightarrow> sleeps p (threads s' t)"
    and "stored l' = pushed s'" and "results l' = popped s'"
  shows "lk_rel l' s'"
proof -
  from assms(1) have R: "\<And>u. holds_at (pcs l u) \<longleftrightarrow> owner (mtx l) = Some u" "\<And>u. threads s u \<in> phases_at (pcs l u)"
    "\<And>u. u \<in> set (waiters (cv l)) \<Longrightarrow> sleeps (pcs l u) (threads s u)" by (auto simp: lk_rel_def)
  have "holds_at (pcs l' u) \<longleftrightarrow> owner (mtx l') = Some u" for u
    using R(1) [of u] assms(2) unfolding assms(3,4) by auto
  moreover have "threads s' u \<in> phases_at (pcs l' u)" for u
    using R(2) [of u] assms(6,7) unfolding assms(3) by (cases "u = t") auto
  moreover have "sleeps (pcs l' u) (threads s' u)" if "u \<in> set (waiters (cv l'))" for u
    using R(3) [of u] that assms(7-9) unfolding assms(3) by (cases "u = t") auto
  moreover have "case owner (mtx l') of None \<Rightarrow> lq l' = queue s' | Some t \<Rightarrow> mid (the (pcs l' t)) (queue s') (lq l')"
    using assms(5) unfolding assms(3,4) by simp
  ultimately show ?thesis unfolding lk_rel_def using assms(10,11) by blast
qed


lemma rel_call:
  assumes "lk_rel l s" and "pcs l t = None" and "\<not> holding p" and "threads s' t \<in> phases p"
    and "s' = s \<or> s' = s\<lparr>threads := (threads s)(t := ph)\<rparr>"
  shows "lk_rel (goto t p l) s'"
proof -
  from assms(1) have R: "\<And>u. holds_at (pcs l u) \<longleftrightarrow> owner (mtx l) = Some u" "\<And>u. threads s u \<in> phases_at (pcs l u)"
    "\<And>u. u \<in> set (waiters (cv l)) \<Longrightarrow> sleeps (pcs l u) (threads s u)" by (auto simp: lk_rel_def)
  have o: "owner (mtx l) \<noteq> Some t" using R(1) [of t] assms(2) by simp
  have u: "threads s' u = threads s u" if "u \<noteq> t" for u using assms(5) that by auto
  have "t \<notin> set (waiters (cv l))" using R(3) [of t] assms(2) by (auto simp: sleeps_def)
  then have "\<forall>u \<in> set (waiters (cv l)). sleeps (pcs (goto t p l) u) (threads s' u)"
    using R(3) u by auto
  moreover have "threads s' u \<in> phases_at (pcs (goto t p l) u)" for u
    using R(2) [of u] u [of u] assms(4) by auto
  moreover have "holds_at (pcs (goto t p l) u) \<longleftrightarrow> owner (mtx l) = Some u" for u
    using R(1) [of u] o assms(3) by auto
  moreover have "case owner (mtx l) of None \<Rightarrow> lq l = queue s' | Some u \<Rightarrow> mid (the (pcs (goto t p l) u)) (queue s') (lq l)"
    using assms(1,5) o by (auto simp: lk_rel_def split: option.splits)
  moreover have "stored l = pushed s' \<and> results l = popped s'" using assms(1,5) by (auto simp: lk_rel_def)
  ultimately show ?thesis unfolding lk_rel_def goto_sels by blast
qed

lemma rel_local:
  assumes "lk_rel l s" and "pcs l t = Some p" and "holding p" and "holding p'" and "mid p' (queue s) q'" and "threads s t \<in> phases p'"
  shows "lk_rel (goto t p' (l\<lparr>lq := q'\<rparr>)) s"
proof -
  from assms(3) have "p \<noteq> AtPopWait" "p \<noteq> AtTimedWait" by auto
  from rel_awake [OF assms(1,2) this] rel_holds [OF assms(1-3)] assms show ?thesis
    by (intro rel_move [OF assms(1), of t _ "Some p'"]) (auto simp: lk_rel_def)
qed

lemma rel_test:
  "lk_rel l s \<Longrightarrow> pcs l t = Some p \<Longrightarrow> holding p \<Longrightarrow> holding p' \<Longrightarrow> mid p' (queue s) (lq l) \<Longrightarrow> threads s t \<in> phases p' \<Longrightarrow>
     lk_rel (goto t p' l) s"
  using rel_local [of l s t p p' "lq l"] by simp

lemma rel_lock:
  assumes "lk_rel l s" and "pcs l t = Some p" and "entry p" and "lock_then t p' l = Returns l'"
    and "holding p'" and "mid p' (queue s) (queue s)" and "phases p \<subseteq> phases p'"
  shows "lk_rel l' s"
proof -
  from assms(3) have "p \<noteq> AtPopWait" "p \<noteq> AtTimedWait" by auto
  from rel_awake [OF assms(1,2) this] have "t \<notin> set (waiters (cv l))" .
  moreover have o: "owner (mtx l) = None" "l' = goto t p' (l\<lparr>mtx := (mtx l)\<lparr>owner := Some t\<rparr>\<rparr>)"
    using assms(4) by (auto simp: locker_lock_def split: if_splits)
  moreover from rel_free [OF assms(1) o(1)] have "lq l = queue s" .
  ultimately show ?thesis using assms rel_phase [OF assms(1,2)]
    by (intro rel_move [OF assms(1), of t _ "Some p'"]) (auto simp: lk_rel_def)
qed

text \<open>The statement that ends a critical section in the other machine: what \<open>settle\<close> does has happened.\<close>

lemma rel_commit:
  assumes "lk_rel l s" and "pcs l t = Some p" and "holding p"
    and "pcs l' = (pcs l)(t \<mapsto> AtUnlock)" and "mtx l' = mtx l" and "cv l' = cv l" and "lq l' = queue s'"
    and "threads s' = (threads s)(t := None)" and "stored l' = pushed s'" and "results l' = popped s'"
  shows "lk_rel l' s'"
proof -
  from assms(3) have "p \<noteq> AtPopWait" "p \<noteq> AtTimedWait" by auto
  from rel_awake [OF assms(1,2) this] rel_holds [OF assms(1-3)] assms show ?thesis
    by (intro rel_move [OF assms(1), of t _ "Some AtUnlock"]) auto
qed

lemma commit_take:
  assumes "threads s t \<in> range Some" and "0 < m_size (queue s)" and "bq_take (queue s) = Some (q, x)"
  shows "\<exists>ph. bq_trans s (settle t ph q (Returned x) s)"
proof -
  from assms(1) obtain ph where ph: "threads s t = Some ph" by auto
  have "thread_step ph True 0 0 (queue s) = Some (q, Returned x)"
    using assms(2,3) by (cases ph) (auto simp: bq_pop_def bq_pop_resume_def bq_timed_pop_def bq_timed_resume_def)
  from trans_thread [OF ph this] show ?thesis by blast
qed

lemma commit_sleep:
  assumes "threads s t = Some ph" and "ph \<in> {PopTest, PopWait, PopWoken, TimedTest}" and "m_size (queue s) \<le> 0"
  shows "bq_trans s (settle t ph (queue s) Waits s)"
proof -
  have "thread_step ph True 0 0 (queue s) = Some (queue s, Waits)"
    using assms(2,3) by (auto simp: bq_pop_def bq_pop_resume_def bq_timed_pop_def)
  from trans_thread [OF assms(1) this] show ?thesis .
qed

lemma commit_fail:
  assumes "threads s t \<in> {Some TimedWait, Some TimedWoken}" and "ok \<longrightarrow> m_size (queue s) \<le> 0"
  shows "\<exists>ph. bq_trans s (settle t ph (queue s) Failed s)"
proof -
  from assms(1) obtain ph where ph: "threads s t = Some ph" "ph = TimedWait \<or> ph = TimedWoken" by auto
  have "thread_step ph ok 0 0 (queue s) = Some (queue s, Failed)" using assms(2) ph(2) by (auto simp: bq_timed_resume_def)
  from trans_thread [OF ph(1) this] show ?thesis by blast
qed


text \<open>Going to sleep, and coming back from the wait.\<close>

lemma sim_sleep:
  assumes "lk_rel l s" and "pcs l t = Some p" and "p = AtPopTest \<and> p' = AtPopWait \<or> p = AtTimedTest \<and> p' = AtTimedWait"
    and "m_size (lq l) \<le> 0" and "sleep_then t p' l = Returns l'"
  shows "\<exists>s'. bq_trans s s' \<and> lk_rel l' s'"
proof -
  from assms(3) have h: "holding p" "p \<noteq> AtPopWait" "p \<noteq> AtTimedWait" by auto
  from rel_holds [OF assms(1,2) h(1)] assms(3) have q: "owner (mtx l) = Some t" "lq l = queue s" by auto
  from rel_phase [OF assms(1,2)] assms(3) obtain ph where ph: "threads s t = Some ph" "ph \<in> {PopTest, PopWait, PopWoken, TimedTest}"
    "sleeps (Some p') (Some (blocked ph))" "Some (blocked ph) \<in> phases p'" by (auto simp: sleeps_def)
  from commit_sleep [OF ph(1,2)] q assms(4) have "bq_trans s (settle t ph (queue s) Waits s)" by simp
  moreover have l': "l' = goto t p' (l\<lparr>cv := (cv l)\<lparr>waiters := waiters (cv l) @ [t]\<rparr>, mtx := (mtx l)\<lparr>owner := None\<rparr>\<rparr>)"
    using assms(5) q(1) by (simp add: cond_sleep_def)
  have "lk_rel l' (settle t ph (queue s) Waits s)"
    unfolding l' using q ph(3,4) assms(1,3)
    by (intro rel_move [OF assms(1), of t _ "Some p'"]) (auto simp: lk_rel_def)
  ultimately show ?thesis by blast
qed

lemma sim_wake:
  assumes "lk_rel l s" and "pcs l t = Some p" and "lk_step early late t p l = Returns l'" and "p = AtPopWait \<or> p = AtTimedWait"
  shows "\<exists>s'. (s' = s \<or> bq_trans s s') \<and> lk_rel l' s'"
proof -
  define p' :: "'a pc" where "p' = (if p = AtPopWait then AtPopTest else if late then AtUnlock else AtTimedCheck)"
  have o: "owner (mtx l) = None"
    and l': "l' = goto t p' (l\<lparr>cv := (cv l)\<lparr>waiters := removeAll t (waiters (cv l))\<rparr>, mtx := (mtx l)\<lparr>owner := Some t\<rparr>\<rparr>)"
    using assms(3,4) by (auto simp: cond_wait_def cond_timewait_def p'_def split: if_splits)
  from rel_free [OF assms(1) o] have q: "lq l = queue s" .
  note ph = rel_phase [OF assms(1,2)]
  show ?thesis
  proof (cases "p = AtTimedWait \<and> late")
    case True
    with ph have "threads s t \<in> {Some TimedWait, Some TimedWoken}" by simp
    from commit_fail [OF this, of False] obtain x where x: "bq_trans s (settle t x (queue s) Failed s)" by blast
    have "lk_rel l' (settle t x (queue s) Failed s)"
      unfolding l' using o q True assms(1)
      by (intro rel_move [OF assms(1), of t _ "Some AtUnlock"]) (auto simp: p'_def lk_rel_def)
    with x show ?thesis by blast
  next
    case False
    have "lk_rel l' s"
      unfolding l' using o q False assms(1,4) ph
      by (intro rel_move [OF assms(1), of t _ "Some p'"]) (auto simp: p'_def lk_rel_def)
    then show ?thesis by blast
  qed
qed


text \<open>The broadcast: the push, or its refusal, has happened.\<close>

lemma woken_phases: "ph \<in> phases_at p \<Longrightarrow> map_option woken ph \<in> phases_at p"
  by (cases p; simp; rename_tac x; case_tac x) auto

lemma sim_broadcast:
  assumes "lk_rel l s" and "pcs l t = Some (AtBroadcast x ret)" and "lk_step early late t (AtBroadcast x ret) l = Returns l'"
  shows "\<exists>s'. bq_trans s s' \<and> lk_rel l' s'"
proof -
  from rel_holds [OF assms(1,2)] have q: "owner (mtx l) = Some t" "bq_push x (queue s) = Some (lq l, ret)" by auto
  let ?s = "s\<lparr>queue := lq l, threads := broadcast (threads s), pushed := pushed s @ (if ret then [x] else [])\<rparr>"
  from assms(1) have R: "\<And>u. holds_at (pcs l u) \<longleftrightarrow> owner (mtx l) = Some u" "\<And>u. threads s u \<in> phases_at (pcs l u)"
    "stored l = pushed s" "results l = popped s" by (auto simp: lk_rel_def)
  have l': "l' = goto t AtUnlock (l\<lparr>cv := (cv l)\<lparr>waiters := []\<rparr>, stored := stored l @ (if ret then [x] else [])\<rparr>)"
    using assms(3) by (simp add: cond_broadcast_def)
  have "threads ?s u \<in> phases_at (pcs l' u)" for u
    using woken_phases [OF R(2) [of u]] assms(2) unfolding l' by (cases "u = t") (auto simp: broadcast_def)
  moreover have "holds_at (pcs l' u) \<longleftrightarrow> owner (mtx l') = Some u" for u
    using R(1) [of u] q(1) unfolding l' by (cases "u = t") auto
  ultimately have "lk_rel l' ?s" using q(1) R(3,4) unfolding lk_rel_def l' by simp
  with trans_push [OF q(2)] show ?thesis by blast
qed

lemma sim_unlock:
  assumes "lk_rel l s" and "pcs l t = Some AtUnlock" and "lk_step early late t AtUnlock l = Returns l'"
  shows "lk_rel l' s"
proof -
  from rel_holds [OF assms(1,2)] have q: "owner (mtx l) = Some t" "lq l = queue s" by auto
  have l': "l' = l\<lparr>mtx := (mtx l)\<lparr>owner := None\<rparr>, pcs := (pcs l)(t := None)\<rparr>"
    using assms(3) q(1) by (simp add: locker_unlock_def)
  from rel_awake [OF assms(1,2)] rel_phase [OF assms(1,2)] q assms(1) show ?thesis
    unfolding l' by (intro rel_move [OF assms(1), of t _ None]) (auto simp: lk_rel_def)
qed

text \<open>The last statements of a removal and of \<open>clear\<close>, and the second test of the timed \<open>pop\<close>.\<close>

lemma sim_take:
  assumes "lk_rel l s" and "pcs l t = Some (AtTakeSize x)" and "lk_step early late t (AtTakeSize x) l = Returns l'"
  shows "\<exists>s'. bq_trans s s' \<and> lk_rel l' s'"
proof -
  from rel_holds [OF assms(1,2)] have q: "owner (mtx l) = Some t" "mid (AtTakeSize x) (queue s) (lq l)" by auto
  then have t: "bq_take (queue s) = Some ((lq l)\<lparr>m_size := m_size (lq l) - 1\<rparr>, x)" "0 < m_size (queue s)"
    by (auto simp: bq_take_def Let_def)
  from rel_phase [OF assms(1,2)] have "threads s t \<in> range Some" by simp
  from commit_take [OF this t(2,1)] obtain ph where
    ph: "bq_trans s (settle t ph ((lq l)\<lparr>m_size := m_size (lq l) - 1\<rparr>) (Returned x) s)" by blast
  have "lk_rel l' (settle t ph ((lq l)\<lparr>m_size := m_size (lq l) - 1\<rparr>) (Returned x) s)"
    by (rule rel_commit [OF assms(1,2)]) (use assms(1,3) in \<open>auto simp: lk_rel_def\<close>)
  with ph show ?thesis by blast
qed

lemma sim_clear:
  assumes "lk_rel l s" and "pcs l t = Some AtClearBack" and "lk_step early late t AtClearBack l = Returns l'"
  shows "\<exists>s'. bq_trans s s' \<and> lk_rel l' s'"
proof -
  let ?s = "s\<lparr>queue := bq_clear (queue s), taken := taken s @ contents (queue s)\<rparr>"
  from rel_holds [OF assms(1,2)] have "lq l = partly AtClearBack (queue s)" by simp
  moreover from rel_phase [OF assms(1,2)] have "threads s t = None" by simp
  ultimately have "lk_rel l' ?s"
    by (intro rel_commit [OF assms(1,2)]) (use assms(1,3) in \<open>auto simp: lk_rel_def bq_clear_def\<close>)
  with trans_clear show ?thesis by blast
qed

lemma sim_check:
  assumes "lk_rel l s" and "pcs l t = Some AtTimedCheck" and "lk_step early late t AtTimedCheck l = Returns l'"
  shows "\<exists>s'. (s' = s \<or> bq_trans s s') \<and> lk_rel l' s'"
proof -
  from rel_holds [OF assms(1,2)] have q: "lq l = queue s" by auto
  from rel_phase [OF assms(1,2)] have ph: "threads s t \<in> {Some TimedWait, Some TimedWoken}" by simp
  show ?thesis
  proof (cases "m_size (queue s) \<le> 0")
    case True
    with commit_fail [OF ph, of True] obtain x where x: "bq_trans s (settle t x (queue s) Failed s)" by blast
    have "lk_rel l' (settle t x (queue s) Failed s)"
      by (rule rel_commit [OF assms(1,2)]) (use assms(1,3) True q in \<open>auto simp: lk_rel_def\<close>)
    with x show ?thesis by blast
  next
    case False
    with rel_test [OF assms(1,2), of AtTakeFront] assms(3) q ph show ?thesis by auto
  qed
qed


lemma sim_entry:
  assumes "lk_rel l s" and "pcs l t = Some p" and "entry p" and "lk_step early late t p l = Returns l'"
  shows "lk_rel l' s"
  using assms(3,4)
  by (cases p; simp del: lock_then.simps) (rule rel_lock [OF assms(1-3)], assumption, simp, simp, simp)+

text \<open>The statements that only change the queue, or test it.\<close>

lemma sim_push:
  assumes "lk_rel l s" and "pcs l t = Some p" and "lk_step early late t p l = Returns l'"
    and "p \<in> {AtPushTest x, AtPushBack x, AtPushStore x, AtPushSize x}"
  shows "lk_rel l' s"
proof -
  from assms(4) have h: "holding p" by auto
  from rel_holds [OF assms(1,2) h] have q: "mid p (queue s) (lq l)" by blast
  from rel_phase [OF assms(1,2)] assms(4) have ph: "threads s t = None" by auto
  consider "p = AtPushTest x" | "p = AtPushBack x" | "p = AtPushStore x" | "p = AtPushSize x" using assms(4) by blast
  then show ?thesis
  proof cases
    case 1
    with rel_test [OF assms(1,2) h, of "AtBroadcast x False"] rel_test [OF assms(1,2) h, of "AtPushBack x"] assms(3) q ph
    show ?thesis by (auto simp: bq_push_def split: if_splits)
  next
    case 2
    with rel_local [OF assms(1,2) h, of "AtPushStore x"] assms(3) q ph show ?thesis by auto
  next
    case 3
    with rel_local [OF assms(1,2) h, of "AtPushSize x"] assms(3) q ph show ?thesis
      by (auto simp: bq_push_def Let_def split: option.splits)
  next
    case 4
    with rel_local [OF assms(1,2) h, of "AtBroadcast x True"] assms(3) q ph show ?thesis by auto
  qed
qed

lemma sim_pop:
  assumes "lk_rel l s" and "pcs l t = Some p" and "lk_step early late t p l = Returns l'"
    and "p \<in> {AtTakeFront, AtTakeItem, AtClearSize, AtClearFront}"
  shows "lk_rel l' s"
proof -
  from assms(4) have h: "holding p" by auto
  from rel_holds [OF assms(1,2) h] have q: "mid p (queue s) (lq l)" by blast
  note ph = rel_phase [OF assms(1,2)]
  consider "p = AtTakeFront" | "p = AtTakeItem" | "p = AtClearSize" | "p = AtClearFront" using assms(4) by blast
  then show ?thesis
  proof cases
    case 1
    with rel_local [OF assms(1,2) h, of AtTakeItem] assms(3) q ph show ?thesis by auto
  next
    case 2
    with rel_test [OF assms(1,2) h, of "AtTakeSize x" for x] assms(3) q ph show ?thesis by (auto split: option.splits)
  next
    case 3
    with rel_local [OF assms(1,2) h, of AtClearFront] assms(3) q ph show ?thesis by auto
  next
    case 4
    with rel_local [OF assms(1,2) h, of AtClearBack] assms(3) q ph show ?thesis by auto
  qed
qed

lemma sim_test:
  assumes "lk_rel l s" and "pcs l t = Some p" and "lk_step early late t p l = Returns l'" and "p = AtPopTest \<or> p = AtTimedTest"
  shows "\<exists>s'. (s' = s \<or> bq_trans s s') \<and> lk_rel l' s'"
proof (cases "m_size (lq l) \<le> 0")
  case True
  with sim_sleep [OF assms(1,2), of "if p = AtPopTest then AtPopWait else AtTimedWait" l'] assms(3,4) show ?thesis
    by (auto simp del: sleep_then.simps)
next
  case False
  from assms(4) have h: "holding p" by auto
  from rel_holds [OF assms(1,2) h] rel_phase [OF assms(1,2)] rel_test [OF assms(1,2) h, of AtTakeFront] assms(3,4) False
  have "lk_rel l' s" by auto
  then show ?thesis by blast
qed

lemma sim_step:
  assumes "lk_rel l s" and "pcs l t = Some p" and "lk_step early late t p l = Returns l'"
  shows "\<exists>s'. (s' = s \<or> bq_trans s s') \<and> lk_rel l' s'"
proof -
  note R = assms(1,2)
  consider "entry p" | x where "p \<in> {AtPushTest x, AtPushBack x, AtPushStore x, AtPushSize x}"
    | "p \<in> {AtTakeFront, AtTakeItem, AtClearSize, AtClearFront}" | "p = AtPopTest \<or> p = AtTimedTest" | "p = AtPopWait \<or> p = AtTimedWait"
    | x ret where "p = AtBroadcast x ret" | "p = AtUnlock" | x where "p = AtTakeSize x" | "p = AtClearBack" | "p = AtTimedCheck"
    by (cases p) auto
  then show ?thesis
  proof cases
    case 1 then show ?thesis using sim_entry [OF R _ assms(3)] by blast
  next
    case 2 then show ?thesis using sim_push [OF R assms(3)] by blast
  next
    case 3 then show ?thesis using sim_pop [OF R assms(3)] by blast
  next
    case 4 then show ?thesis by (rule sim_test [OF R assms(3)])
  next
    case 5 then show ?thesis by (rule sim_wake [OF R assms(3)])
  next
    case 6 from sim_broadcast [OF assms [unfolded 6]] show ?thesis by blast
  next
    case 7 from sim_unlock [OF assms [unfolded 7]] show ?thesis by blast
  next
    case 8 from sim_take [OF assms [unfolded 8]] show ?thesis by blast
  next
    case 9 from sim_clear [OF assms [unfolded 9]] show ?thesis by blast
  next
    case 10 from sim_check [OF assms [unfolded 10]] show ?thesis by blast
  qed
qed

lemma sim_call:
  assumes "lk_rel l s" and "pcs l t = None" and "entry p"
  shows "\<exists>s'. (s' = s \<or> bq_trans s s') \<and> lk_rel (goto t p l) s'"
proof -
  have none: "threads s t = None" using assms(1,2) unfolding lk_rel_def by (metis at_simps(1) singletonD)
  have "\<not> holding p" using assms(3) by (cases p) auto
  note call = rel_call [OF assms(1,2) this]
  consider "phases p = {None}" | ph where "phases p = {Some ph}" "ph = PopTest \<or> ph = TimedTest" using assms(3) by (cases p) auto
  then show ?thesis
  proof cases
    case 1
    with call [of s] none have "lk_rel (goto t p l) s" by simp
    then show ?thesis by blast
  next
    case 2
    from call [of "s\<lparr>threads := (threads s)(t \<mapsto> ph)\<rparr>" "Some ph"] 2(1) have "lk_rel (goto t p l) (s\<lparr>threads := (threads s)(t \<mapsto> ph)\<rparr>)"
      by simp
    with trans_call [OF none 2(2)] show ?thesis by blast
  qed
qed

lemma lk_simulates:
  "lk_reach l \<Longrightarrow> \<exists>s. bq_reach s \<and> lk_rel l s"
proof (induction rule: lk_reach.induct)
  case (lk_reach_new t0 n q)
  from reach_new [OF this] show ?case by (intro exI conjI) (assumption, simp add: lk_rel_def locker_new_def cond_new_def)
next
  case (lk_reach_step l l')
  then obtain s where s: "bq_reach s" "lk_rel l s" by blast
  from lk_reach_step.hyps(2) have "\<exists>s'. (s' = s \<or> bq_trans s s') \<and> lk_rel l' s'"
  proof cases
    case (lk_trans_call t p)
    from sim_call [OF s(2) lk_trans_call(2,3)] lk_trans_call(1) show ?thesis by simp
  next
    case (lk_trans_step t p early late)
    from sim_step [OF s(2) lk_trans_step] show ?thesis .
  qed
  then obtain s' where s': "s' = s \<or> bq_trans s s'" "lk_rel l' s'" by blast
  from s'(1) have "bq_reach s'" using s(1) reach_step by blast
  with s'(2) show ?case by blast
qed


section \<open>Safety\<close>

lemma store_defined:
  assumes "bq_ok q" and "m_size q < m_max_size q"
  shows "array_set (m_array q) ((m_back q + 1) smod m_max_size q) x \<noteq> None"
  using push_room [OF assms, of x] assms(2) by (auto simp: bq_push_def Let_def bind_eq_Some_conv)

lemma item_defined:
  assumes "bq_ok q" and "0 < m_size q"
  shows "array_get (m_array q) ((m_front q + 1) smod m_max_size q) \<noteq> None"
  using take_queue [OF assms] by (auto simp: bq_take_def Let_def bind_eq_Some_conv)

lemma statement_defined:
  assumes "lk_rel l s" and "bq_ok (queue s)" and "pcs l t = Some p"
  shows "lk_step early late t p l \<noteq> Undefined \<and> (holding p \<longrightarrow> (\<exists>l'. lk_step early late t p l = Returns l'))"
proof (cases "holding p")
  case True
  from rel_holds [OF assms(1,3) True] have q: "owner (mtx l) = Some t" "mid p (queue s) (lq l)" by blast+
  show ?thesis
    using True q store_defined [OF assms(2)] item_defined [OF assms(2)]
    by (cases p) (auto simp: locker_unlock_def cond_sleep_def split: option.splits)
next
  case False
  then show ?thesis
    by (cases p) (auto simp: locker_lock_def cond_wait_def cond_timewait_def)
qed

text \<open>With the mutex free, a thread outside the critical sections can go on unless it sleeps.\<close>

lemma free_moves:
  assumes "lk_rel l s" and "owner (mtx l) = None" and "pcs l t = Some p" and "t \<notin> set (waiters (cv l))"
  shows "\<exists>l'. lk_step False False t p l = Returns l'"
proof -
  have "\<not> holding p" using assms(1-3) rel_holds by fastforce
  with assms(2,4) show ?thesis by (cases p) (auto simp: locker_lock_def cond_wait_def cond_timewait_def)
qed

lemma asleep_empty:
  assumes "lk_rel l s" and "sys_ok s" and "t \<in> set (waiters (cv l))"
  shows "contents (queue s) = []"
proof -
  have "sleeps (pcs l t) (threads s t)" using assms(1,3) by (simp add: lk_rel_def)
  then obtain p where "threads s t = Some p" "asleep p" by (auto simp: sleeps_def asleep_def)
  with assms(2) show ?thesis by (auto simp: sys_ok_def)
qed

section \<open>A schedule\<close>

text \<open>The statements that a schedule of threads executes, when none blocks.\<close>

fun run_schedule :: "nat list \<Rightarrow> 'a lsys \<Rightarrow> 'a lsys option" where
  "run_schedule [] l = Some l"
| "run_schedule (t # ts) l =
     (case pcs l t of None \<Rightarrow> None
      | Some p \<Rightarrow> (case lk_step False False t p l of Returns l' \<Rightarrow> run_schedule ts l' | _ \<Rightarrow> None))"

lemma schedule_reach: "lk_reach l \<Longrightarrow> run_schedule ts l = Some l' \<Longrightarrow> lk_reach l'"
proof (induction ts l rule: run_schedule.induct)
  case (2 t ts l)
  from 2(3) obtain p l1 where p: "pcs l t = Some p" "lk_step False False t p l = Returns l1" "run_schedule ts l1 = Some l'"
    by (auto split: option.splits call.splits)
  from lk_reach_step [OF 2(2) lk_trans_step [OF p(1,2)]] have "lk_reach l1" .
  from 2(1) [OF p(1,2) this p(3)] show ?case .
qed simp

section \<open>Properties\<close>

text \<open>
  C17. The queue is correct statement by statement: however the statements of the threads interleave, there is a
  reachable state of the machine of critical sections with the same accepted elements and the
  same results, and with the same queue whenever nobody holds the mutex; so what
  \<open>pop\<close> returned is among what \<open>push\<close> accepted, in that order, and with the mutex free the rest is in the queue.
\<close>

theorem locked_queue_refines:
  assumes "lk_reach l"
  shows "\<exists>s. bq_reach s \<and> stored l = pushed s \<and> results l = popped s \<and> (owner (mtx l) = None \<longrightarrow> lq l = queue s) \<and>
     subseq (map snd (results l)) (stored l) \<and>
     (owner (mtx l) = None \<longrightarrow> bq_ok (lq l) \<and> stored l = taken s @ contents (lq l))"
proof -
  from lk_simulates [OF assms] obtain s where s: "bq_reach s" "lk_rel l s" by blast
  from sys_ok_reach [OF s(1)] have S: "bq_ok (queue s)" "pushed s = taken s @ contents (queue s)" "subseq (map snd (popped s)) (taken s)"
    by (simp_all add: sys_ok_def)
  from s(2) have L: "stored l = pushed s" "results l = popped s" by (simp_all add: lk_rel_def)
  have "subseq (map snd (results l)) (stored l)" unfolding L S(2) using list_emb_append_mono [OF S(3), of "[]" "contents (queue s)"] by simp
  with s S L rel_free [OF s(2)] show ?thesis by auto
qed

text \<open>
  C18. The locks are used rightly: at most one thread is between \<open>lock\<close> and \<open>unlock\<close>, no statement is undefined (no
  access outside the array, no unlock and no wait without the mutex), the thread that holds the mutex can
  always go on, and while any thread is not asleep some thread can go on, so there is no deadlock; a thread sleeps only
  while, with the mutex free, the queue is empty.
\<close>

theorem locked_queue_safe:
  assumes "lk_reach l" and "pcs l t = Some p"
  shows "lk_step early late t p l \<noteq> Undefined \<and> (holding p \<longrightarrow> owner (mtx l) = Some t \<and> (\<exists>l'. lk_step early late t p l = Returns l')) \<and>
     (t \<in> set (waiters (cv l)) \<longrightarrow> owner (mtx l) = None \<longrightarrow> contents (lq l) = []) \<and>
     (t \<notin> set (waiters (cv l)) \<longrightarrow> (\<exists>u p l'. pcs l u = Some p \<and> lk_step False False u p l = Returns l'))"
proof -
  from lk_simulates [OF assms(1)] obtain s where s: "bq_reach s" "lk_rel l s" by blast
  from sys_ok_reach [OF s(1)] have S: "sys_ok s" "bq_ok (queue s)" by (simp_all add: sys_ok_def)
  note defined = statement_defined [OF s(2) S(2)]
  have "\<exists>u p l'. pcs l u = Some p \<and> lk_step False False u p l = Returns l'" if "t \<notin> set (waiters (cv l))"
  proof (cases "owner (mtx l)")
    case None
    from free_moves [OF s(2) None assms(2) that] assms(2) show ?thesis by blast
  next
    case (Some u)
    then have "holds_at (pcs l u)" using s(2) by (simp add: lk_rel_def)
    then obtain p' where "pcs l u = Some p'" "holding p'" by (cases "pcs l u") auto
    with defined [of u p' False False] show ?thesis by blast
  qed
  with defined [OF assms(2), of early late] rel_holds [OF s(2) assms(2)] asleep_empty [OF s(2) S(1), of t] rel_free [OF s(2)]
  show ?thesis by simp
qed

section \<open>Witnesses\<close>

text \<open>Thread 1 pops from an empty queue and sleeps, thread 2 pushes 5 and wakes it.\<close>

definition demo_lsys :: "nat lsys" where
  "demo_lsys = \<lparr>lq = the (bq_new 0 3), mtx = locker_new, cv = cond_new, pcs = [1 \<mapsto> AtPopLock, 2 \<mapsto> AtPushLock 5],
     stored = [], results = []\<rparr>"

lemma demo_lsys_reach: "lk_reach demo_lsys"
proof -
  obtain q where q: "bq_new (0 :: nat) 3 = Some q" by (simp add: bq_new_def)
  let ?l = "\<lparr>lq = q, mtx = locker_new, cv = cond_new, pcs = Map.empty, stored = [], results = []\<rparr>"
  have "lk_reach (goto 1 AtPopLock ?l)" by (rule lk_reach_step [OF lk_reach_new [OF q]], rule lk_trans_call) simp_all
  then have "lk_reach (goto 2 (AtPushLock 5) (goto 1 AtPopLock ?l))"
    by (rule lk_reach_step, intro lk_trans_call) simp_all
  then show ?thesis by (simp add: demo_lsys_def goto_def q fun_upd_twist)
qed

lemma demo_schedule:
  "\<exists>l. run_schedule [1, 1, 2, 2, 2, 2, 2, 2, 2, 1, 1, 1, 1, 1, 1] demo_lsys = Some l \<and> results l = [(1, 5)] \<and> owner (mtx l) = None"
  by (simp add: demo_lsys_def bq_new_def locker_new_def cond_new_def locker_lock_def locker_unlock_def cond_sleep_def
      cond_wait_def cond_broadcast_def goto_def array_set_def array_get_def)

theorem locked_queue_witness:
  "\<exists>l. run_schedule [1, 1, 2, 2, 2, 2, 2, 2, 2, 1, 1, 1, 1, 1, 1] demo_lsys = Some l \<and> subseq [5] (stored l)"
proof -
  obtain l where l: "run_schedule [1, 1, 2, 2, 2, 2, 2, 2, 2, 1, 1, 1, 1, 1, 1] demo_lsys = Some l" "results l = [(1, 5)]"
    using demo_schedule by blast
  from locked_queue_refines [OF schedule_reach [OF demo_lsys_reach l(1)]] l show ?thesis by auto
qed

theorem locked_queue_safe_witness: "lk_step False False 1 AtPopLock demo_lsys \<noteq> Undefined"
proof -
  have "pcs demo_lsys 1 = Some AtPopLock" by (simp add: demo_lsys_def)
  from locked_queue_safe [OF demo_lsys_reach this] show ?thesis by blast
qed

end
