(* ===== verification/EndPoint.thy ===== *)
theory EndPoint
  imports Decimal "HOL-Library.Signed_Division"
begin

unbundle bit_operations_syntax

text \<open>
  The text form of addresses (\<open>src/endPoint.h\<close>): ports, socket addresses and end points as strings
  \<open>ip:port\<close>.  A \<open>std::string\<close> is the list of its bytes.  The functions of the system library that
  the code calls are modelled as POSIX describes them: \<open>inet_ntoa\<close>, \<open>inet_pton\<close>, \<open>htons\<close> and
  \<open>ntohs\<close>; \<open>le\<close> is the byte order of the machine.
\<close>

section \<open>The system library\<close>

definition AF_INET :: u16 where "AF_INET = 2"

definition htons :: "bool \<Rightarrow> u16 \<Rightarrow> u16" where
  "htons le x = (if le then push_bit 8 x OR drop_bit 8 x else x)"

definition ntohs :: "bool \<Rightarrow> u16 \<Rightarrow> u16" where
  "ntohs = htons"

text \<open>
  \<open>struct sockaddr_in\<close>; the address is its four bytes in memory.  The padding \<open>sin_zero\<close> is left out: no code reads
  it, and \<open>str2sock_addr\<close> leaves it as it was.
\<close>

record sockaddr_in =
  sin_family :: u16
  sin_port :: u16
  sin_addr :: "u8 list"

definition inet_ntoa :: "u8 list \<Rightarrow> cstr" where
  "inet_ntoa a = decimal (unat (a ! 0)) @ 46 # decimal (unat (a ! 1)) @ 46 # decimal (unat (a ! 2)) @ 46 # decimal (unat (a ! 3))"

definition octet :: "cstr \<Rightarrow> u8 option" where
  "octet s = (if s \<noteq> [] \<and> length s \<le> 3 \<and> list_all (\<lambda>c. 48 \<le> c \<and> c \<le> 57) s \<and>
                 (hd s = 48 \<longrightarrow> length s = 1) \<and> undec s \<le> 255
              then Some (word_of_nat (undec s)) else None)"

fun split_at :: "u8 \<Rightarrow> cstr \<Rightarrow> cstr \<Rightarrow> cstr list" where
  "split_at d [] acc = [acc]"
| "split_at d (c # cs) acc = (if c = d then acc # split_at d cs [] else split_at d cs (acc @ [c]))"

definition inet_pton :: "cstr \<Rightarrow> u8 list \<Rightarrow> u8 list" where
  "inet_pton s dst =
     (case map octet (split_at 46 s []) of
        [Some a, Some b, Some c, Some d] \<Rightarrow> [a, b, c, d]
      | _ \<Rightarrow> dst)"

section \<open>The functions of endPoint.h\<close>

record endpoint =
  ep_ip :: cstr
  ep_port :: int

text \<open>An \<open>int\<close> that overflows has no result.\<close>

definition int_ok :: "int \<Rightarrow> int option" where
  "int_ok x = (if - (2 ^ 31) \<le> x \<and> x < 2 ^ 31 then Some x else None)"

fun str2port_loop :: "cstr \<Rightarrow> int \<Rightarrow> int option" where
  "str2port_loop [] port = Some port"
| "str2port_loop (ch # cs) port =
     (if 48 \<le> ch \<and> ch \<le> 57 then do {
        p \<leftarrow> int_ok (port * 10);
        p \<leftarrow> int_ok (p + (uint ch - 48));
        str2port_loop cs p }
      else Some (- 1))"

definition str2port :: "cstr \<Rightarrow> int option" where
  "str2port port_str = str2port_loop port_str 0"

function port2str_loop :: "int \<Rightarrow> cstr \<Rightarrow> cstr" where
  "port2str_loop p port_str =
     (if p \<noteq> 0 then port2str_loop (p sdiv 10) (word_of_int (p smod 10 + 48) # port_str) else port_str)"
  by auto

lemma sdiv_ten_less: "(p :: int) \<noteq> 0 \<Longrightarrow> \<bar>p sdiv 10\<bar> < \<bar>p\<bar>"
  by (simp add: signed_divide_int_def abs_mult)

termination port2str_loop
  by (relation "measure (\<lambda>(p, _). nat \<bar>p\<bar>)") (auto simp: sdiv_ten_less)

declare port2str_loop.simps [simp del]

definition port2str :: "int \<Rightarrow> cstr" where
  "port2str port = port2str_loop port []"

definition sock_addr2str :: "bool \<Rightarrow> sockaddr_in \<Rightarrow> cstr" where
  "sock_addr2str le addr =
     (let addr_str = inet_ntoa (sin_addr addr);
          addr_str = addr_str @ [58]
      in addr_str @ port2str (uint (ntohs le (sin_port addr))))"

text \<open>The loop that reads up to the colon; it returns what it read and what is left.\<close>

fun read_ip :: "cstr \<Rightarrow> cstr \<Rightarrow> cstr \<times> cstr" where
  "read_ip [] ip = (ip, [])"
| "read_ip (c # cs) ip = (if c \<noteq> 58 then read_ip cs (ip @ [c]) else (ip, c # cs))"

text \<open>\<open>junk\<close> is the local variable \<open>res\<close>, which is not initialised.\<close>

definition str2sock_addr :: "bool \<Rightarrow> sockaddr_in \<Rightarrow> cstr \<Rightarrow> sockaddr_in option" where
  "str2sock_addr le junk ip_port =
     (if ip_port \<noteq> [] then do {
        let (ip, rest) = read_ip ip_port [];
        port \<leftarrow> str2port (drop 1 rest);
        Some (if port \<noteq> 0
              then junk\<lparr>sin_family := AF_INET, sin_port := htons le (word_of_int port),
                        sin_addr := inet_pton ip (sin_addr junk)\<rparr>
              else junk) }
      else Some junk)"

definition endpoint2str :: "bool \<Rightarrow> endpoint \<Rightarrow> cstr" where
  "endpoint2str le point =
     (let res = ep_ip point @ [58]
      in res @ port2str (uint (ntohs le (word_of_int (ep_port point)))))"

definition str2endpoint :: "cstr \<Rightarrow> endpoint option" where
  "str2endpoint ip_port =
     (let res = \<lparr>ep_ip = [], ep_port = - 1\<rparr> in
      if ip_port \<noteq> [] then do {
        let (ip, rest) = read_ip ip_port [];
        port \<leftarrow> str2port (drop 1 rest);
        Some (if port \<noteq> 0 then res\<lparr>ep_ip := ip, ep_port := port\<rparr> else res) }
      else Some res)"

section \<open>Ports\<close>

lemma port2str_decimal: "port2str_loop (int n) s = (if n = 0 then [] else decimal n) @ s"
proof (induction n arbitrary: s rule: decimal.induct)
  case (1 n)
  have d: "int n sdiv 10 = int (n div 10)" "int n smod 10 = int (n mod 10)"
    by (cases "n = 0"; simp add: smod_mod_positive signed_divide_int_def zdiv_int zmod_int)+
  have c: "word_of_int (int (n mod 10) + 48) = (48 + word_of_nat (n mod 10) :: u8)" by simp
  consider "n = 0" | "0 < n" "n < 10" | "10 \<le> n" by linarith
  then show ?case
  proof cases
    case 1
    then show ?thesis by (simp add: port2str_loop.simps)
  next
    case 2
    then show ?thesis
      by (subst port2str_loop.simps) (simp add: d c port2str_loop.simps [of 0] decimal.simps [of n])
  next
    case 3
    then have "n div 10 \<noteq> 0" by auto
    with 3 1(1) show ?thesis by (subst port2str_loop.simps) (simp add: d c decimal.simps [of n])
  qed
qed

lemma port2str_pos: "0 < n \<Longrightarrow> port2str (int n) = decimal n"
  by (simp add: port2str_def port2str_decimal)

lemma str2port_append:
  assumes "str2port_loop s p = Some q" and "list_all (\<lambda>c. 48 \<le> c \<and> c \<le> 57) s"
  shows "str2port_loop (s @ t) p = str2port_loop t q"
  using assms by (induction s p rule: str2port_loop.induct) (auto split: Option.bind_splits)

lemma decimal_all: "list_all (\<lambda>c. 48 \<le> c \<and> c \<le> 57) (decimal n)"
proof -
  have "48 \<le> c \<and> c \<le> 57" if "c \<in> set (decimal n)" for c
    using decimal_digits [OF that] by (simp add: word_le_nat_alt)
  then show ?thesis by (simp add: list_all_iff)
qed

lemma digit_bounds: "n < 10 \<Longrightarrow> (48 :: u8) \<le> 48 + word_of_nat n \<and> 48 + word_of_nat n \<le> (57 :: u8) \<and> uint (48 + word_of_nat n :: u8) = 48 + int n"
  using digit [of n] by (simp add: word_le_nat_alt uint_nat)

lemma str2port_decimal: "int n < 2 ^ 31 \<Longrightarrow> str2port_loop (decimal n) 0 = Some (int n)"
proof (induction n rule: decimal.induct)
  case (1 n)
  show ?case
  proof (cases "n < 10")
    case True
    then show ?thesis using digit_bounds [OF True] by (simp add: decimal.simps [of n] int_ok_def)
  next
    case False
    have "str2port_loop (decimal (n div 10)) 0 = Some (int (n div 10))" using 1 False by simp
    moreover have "int (n div 10) * 10 + int (n mod 10) = int n"
      using arg_cong [of _ _ int, OF div_mult_mod_eq [of n 10]] by (simp only: of_nat_add of_nat_mult of_nat_numeral)
    ultimately show ?thesis using str2port_append [OF _ decimal_all] digit_bounds [of "n mod 10"] False 1(2)
      by (simp add: decimal.simps [of n] int_ok_def)
  qed
qed

lemma decimal_no: "c < 48 \<or> 57 < c \<Longrightarrow> c \<notin> set (decimal n)"
  using decimal_digits [of c n] by (auto simp: word_less_nat_alt)

section \<open>Addresses\<close>

lemma read_ip_no_colon:
  "58 \<notin> set ip \<Longrightarrow> read_ip (ip @ 58 # rest) acc = (acc @ ip, 58 # rest)"
  by (induction ip arbitrary: acc) auto

lemma htons_involutive [simp]: "htons le (htons le x) = x"
  by (rule bit_word_eqI) (auto simp: htons_def bit_simps)

lemma htons_same: "htons True w = w \<longleftrightarrow> drop_bit 8 w = take_bit 8 w"
proof
  assume h: "htons True w = w"
  show "drop_bit 8 w = take_bit 8 w"
  proof (rule bit_word_eqI)
    fix i
    have "bit (htons True w) i = bit w i" by (simp only: h)
    then show "bit (drop_bit 8 w) i = bit (take_bit 8 w) i"
      using bit_imp_le_length [of w "i + 8"]
      by (cases "i < 8") (auto simp: htons_def bit_simps add.commute)
  qed
next
  assume d: "drop_bit 8 w = take_bit 8 w"
  have e: "bit w (i + 8) \<longleftrightarrow> i < 8 \<and> bit w i" for i
    using arg_cong [OF d, of "\<lambda>w. bit w i"] by (auto simp: bit_simps add.commute)
  show "htons True w = w"
  proof (rule bit_word_eqI)
    fix i :: nat
    show "bit (htons True w) i = bit w i"
    proof (cases "i < 8")
      case True
      with e [of i] show ?thesis by (simp add: htons_def bit_simps add.commute)
    next
      case False
      then have "i - 8 + 8 = i" by simp
      with False e [of i] e [of "i - 8"] show ?thesis
        using bit_imp_le_length [of w i] by (auto simp: htons_def bit_simps add.commute)
    qed
  qed
qed

lemma u16_nat:
  obtains n where "uint (w :: u16) = int n" and "int n < 2 ^ 16"
proof
  show "uint w = int (unat w)" by (rule uint_nat)
  then show "int (unat w) < 2 ^ 16" using unsigned_less [of w, where 'a = int] by simp
qed

lemma split_at_no: "d \<notin> set s \<Longrightarrow> split_at d (s @ d # t) acc = (acc @ s) # split_at d t []"
  by (induction s arbitrary: acc) auto

lemma split_at_last: "d \<notin> set s \<Longrightarrow> split_at d s acc = [acc @ s]"
  by (induction s arbitrary: acc) auto

lemma hd_decimal: "hd (decimal n) = 48 \<longleftrightarrow> n = 0"
proof (induction n rule: decimal.induct)
  case (1 n)
  have ne: "decimal m \<noteq> []" for m by (subst decimal.simps) simp
  show ?case
  proof (cases "n < 10")
    case True
    then show ?thesis using digit_bounds [OF True] by (auto simp: decimal.simps [of n])
  next
    case False
    with 1 ne [of "n div 10"] show ?thesis by (simp add: decimal.simps [of n] hd_append)
  qed
qed

lemma octet_decimal: "octet (decimal (unat (b :: u8))) = Some b"
proof -
  have "unat b < 256" using unsigned_less [of b, where 'a = nat] by simp
  then have "length (decimal (unat b)) \<le> 3" using length_decimal [of "unat b" 3] by simp
  moreover have "length (decimal 0) = 1" by (subst decimal.simps) simp
  moreover have "decimal (unat b) \<noteq> []" by (subst decimal.simps) simp
  ultimately show ?thesis
    using \<open>unat b < 256\<close> decimal_all [of "unat b"] hd_decimal [of "unat b"] undec_decimal [of "unat b"]
    by (auto simp: octet_def)
qed

lemma pton_ntoa:
  assumes "length a = 4"
  shows "inet_pton (inet_ntoa a) dst = a"
proof -
  from assms obtain b0 b1 b2 b3 where a: "a = [b0, b1, b2, b3]"
    by (auto simp: numeral_eq_Suc length_Suc_conv)
  have no: "46 \<notin> set (decimal n)" for n by (rule decimal_no) simp
  show ?thesis
    by (simp add: a inet_pton_def inet_ntoa_def split_at_no [OF no] split_at_last [OF no] octet_decimal)
qed

lemma ntoa_no_colon: "58 \<notin> set (inet_ntoa a)"
  using decimal_no [of 58] by (simp add: inet_ntoa_def)

lemma ntoa_ne: "inet_ntoa a \<noteq> []"
  by (simp add: inet_ntoa_def)

lemma sock_addr_readable: "str2sock_addr le' junk (sock_addr2str le a) \<noteq> None"
proof -
  obtain n where n: "uint (ntohs le (sin_port a)) = int n" "int n < 2 ^ 16" by (rule u16_nat)
  then have "str2port (port2str (int n)) = Some (int n)"
    using str2port_decimal [of n] by (simp add: port2str_def port2str_decimal str2port_def)
  then show ?thesis
    using read_ip_no_colon [OF ntoa_no_colon, of "sin_addr a" _ "[]"] ntoa_ne [of "sin_addr a"]
    by (simp add: str2sock_addr_def sock_addr2str_def n(1))
qed

section \<open>Properties\<close>

text \<open>
  Ports survive the way through text: every port that is not negative is read back from its
  decimal digits (0 from the empty string), without overflow.
\<close>

theorem port_roundtrip:
  assumes "0 \<le> p" and "p < 2 ^ 31"
  shows "str2port (port2str p) = Some p"
proof -
  from assms(1) obtain n where "p = int n" by (rule zero_le_imp_eq_int [THEN exE]) blast
  with assms(2) str2port_decimal [of n] show ?thesis
    by (simp add: port2str_def port2str_decimal str2port_def)
qed

text \<open>
  C28. Socket addresses survive the way through text: an IPv4 address with a port other than 0 is
  read back, whatever the byte order and the garbage in the result variable.  With port 0 the
  result is that garbage, unchanged.
\<close>

theorem sock_addr_roundtrip:
  assumes "length (sin_addr a) = 4" and "sin_family a = AF_INET"
  shows "str2sock_addr le junk (sock_addr2str le a) = Some (if sin_port a = 0 then junk else a)"
proof -
  obtain n where n: "uint (ntohs le (sin_port a)) = int n" "int n < 2 ^ 16"
    by (rule u16_nat)
  have zero: "n = 0 \<longleftrightarrow> sin_port a = 0"
  proof -
    have "n = 0 \<longleftrightarrow> ntohs le (sin_port a) = 0" using n(1) by (simp flip: uint_0_iff)
    also have "\<dots> \<longleftrightarrow> sin_port a = 0" unfolding ntohs_def using htons_involutive [of le "sin_port a"] by (auto simp: htons_def)
    finally show ?thesis .
  qed
  have "str2port (port2str (int n)) = Some (int n)"
    using str2port_decimal [of n] n(2) by (simp add: port2str_def port2str_decimal str2port_def)
  moreover have "htons le (word_of_int (int n)) = sin_port a"
    by (simp flip: n(1) add: ntohs_def)
  ultimately show ?thesis
    using read_ip_no_colon [OF ntoa_no_colon, of "sin_addr a" _ "[]"] ntoa_ne [of "sin_addr a"] assms zero
    by (simp add: str2sock_addr_def sock_addr2str_def n(1) pton_ntoa)
qed

text \<open>
  \<open>endpoint2str\<close> swaps the bytes of a port that is in host order already: on a little-endian
  machine an end point is not read back from its text, unless the two bytes of the port are equal.
\<close>

theorem endpoint_port_swapped:
  assumes "58 \<notin> set ip" and "0 < p" and "p < 2 ^ 16"
  shows "str2endpoint (endpoint2str le \<lparr>ep_ip = ip, ep_port = p\<rparr>) =
       Some \<lparr>ep_ip = ip, ep_port = uint (htons le (word_of_int p))\<rparr> \<and>
     (le \<longrightarrow> uint (htons le (word_of_int p)) = p \<longleftrightarrow> p div 256 = p mod 256)"
proof -
  let ?w = "word_of_int p :: u16"
  have w: "uint ?w = p" using assms(2,3) by (simp add: unsigned_of_int take_bit_int_eq_self)
  obtain n where n: "uint (ntohs le ?w) = int n" "int n < 2 ^ 16"
    by (rule u16_nat)
  have "?w \<noteq> 0" using w assms(2) by (metis less_irrefl unsigned_0)
  then have "htons le ?w \<noteq> 0" using htons_involutive [of le ?w] by (auto simp: htons_def)
  moreover have "htons le ?w = 0" if "n = 0"
    using n(1) that by (intro unsigned_eq_0_iff [THEN iffD1]) (simp add: ntohs_def)
  ultimately have "n \<noteq> 0" by blast
  have "str2port (port2str (int n)) = Some (int n)"
    using str2port_decimal [of n] n(2) by (simp add: port2str_def port2str_decimal str2port_def)
  with \<open>n \<noteq> 0\<close> have "str2endpoint (endpoint2str le \<lparr>ep_ip = ip, ep_port = p\<rparr>) = Some \<lparr>ep_ip = ip, ep_port = int n\<rparr>"
    using read_ip_no_colon [OF assms(1), of _ "[]"] by (simp add: str2endpoint_def endpoint2str_def n(1))
  moreover have "int n = uint (htons le ?w)" using n(1) by (simp add: ntohs_def)
  moreover have "uint (htons True ?w) = p \<longleftrightarrow> p div 256 = p mod 256"
  proof -
    have "uint (htons True ?w) = p \<longleftrightarrow> htons True ?w = ?w" using w by (metis word_uint_eq_iff)
    also have "\<dots> \<longleftrightarrow> uint (drop_bit 8 ?w) = uint (take_bit 8 ?w)" by (simp only: htons_same word_uint_eq_iff [of "drop_bit 8 ?w"])
    also have "\<dots> \<longleftrightarrow> p div 256 = p mod 256"
      using assms(2,3) by (simp only: unsigned_drop_bit_eq unsigned_take_bit_eq w) (simp add: drop_bit_eq_div take_bit_eq_mod)
    finally show ?thesis .
  qed
  ultimately show ?thesis by auto
qed

text \<open>
  What is not a port: a character that is not a digit gives -1, which \<open>str2sock_addr\<close> stores
  as port 65535 without complaint; a string of digits above the largest \<open>int\<close> overflows.
\<close>

theorem bad_ports:
  assumes "\<exists>c \<in> set s. c < 48 \<or> 57 < c" and "length s < 10"
  shows "str2port s = Some (- 1) \<and>
     (58 \<notin> set ip \<longrightarrow> ip \<noteq> [] \<longrightarrow> map_option sin_port (str2sock_addr le junk (ip @ 58 # s)) = Some 65535)"
proof -
  have bad: "str2port_loop s p = Some (- 1)"
    if "\<exists>c \<in> set s. c < 48 \<or> 57 < c" "0 \<le> p" "p < 10 ^ j" "length s + j < 10" for p j
    using that
  proof (induction s arbitrary: p j)
    case (Cons c s)
    have "(10 :: int) ^ j \<le> 10 ^ 8" using Cons.prems(4) by (intro power_increasing) auto
    then have p: "p < 10 ^ 8" using Cons.prems(3) by simp
    show ?case
    proof (cases "48 \<le> c \<and> c \<le> 57")
      case True
      then have d: "48 \<le> uint c" "uint c \<le> 57" by (simp_all add: word_le_def)
      have "str2port_loop s (p * 10 + (uint c - 48)) = Some (- 1)"
        using Cons.IH [of "p * 10 + (uint c - 48)" "Suc j"] Cons.prems True d by auto
      with True d p Cons.prems(2) show ?thesis by (simp add: int_ok_def)
    next
      case False
      then show ?thesis by auto
    qed
  qed simp
  from bad [OF assms(1), of 0 0] assms(2) have "str2port s = Some (- 1)" by (simp add: str2port_def)
  moreover have "htons le (- 1) = - 1" by (rule bit_word_eqI) (auto simp: htons_def bit_simps)
  ultimately show ?thesis
    using read_ip_no_colon [of ip s "[]"] by (simp add: str2sock_addr_def)
qed

section \<open>Witnesses\<close>

definition demo_addr :: sockaddr_in where
  "demo_addr = \<lparr>sin_family = AF_INET, sin_port = htons True 8080, sin_addr = [127, 0, 0, 1]\<rparr>"

theorem port_roundtrip_witness: "str2port (port2str 8080) = Some 8080"
  using port_roundtrip [of 8080] by simp

theorem sock_addr_witness: "str2sock_addr True \<lparr>sin_family = 0, sin_port = 7, sin_addr = [1, 2, 3, 4]\<rparr> (sock_addr2str True demo_addr) = Some demo_addr"
proof -
  have "sin_port demo_addr \<noteq> 0" by (simp add: demo_addr_def htons_def)
  with sock_addr_roundtrip [of demo_addr True "\<lparr>sin_family = 0, sin_port = 7, sin_addr = [1, 2, 3, 4]\<rparr>"]
  show ?thesis by (simp add: demo_addr_def)
qed

theorem endpoint_port_witness: "str2endpoint (endpoint2str True \<lparr>ep_ip = [49], ep_port = 8080\<rparr>) = Some \<lparr>ep_ip = [49], ep_port = 36895\<rparr>"
proof -
  have "uint (htons True (8080 :: u16)) = 36895" by code_simp
  with endpoint_port_swapped [of "[49]" 8080 True] show ?thesis by simp
qed

theorem bad_ports_witness: "map_option sin_port (str2sock_addr True demo_addr [49, 58, 56, 120]) = Some 65535"
  using bad_ports [of "[56, 120]" "[49]" True demo_addr] by simp

end
