(* ===== verification/WorkPool.thy ===== *)
theory WorkPool
  imports Locker
begin

text \<open>
  The request queue of the thread pools: \<open>append\<close>, \<open>run\<close> and \<open>threadInit\<close>, which are the same code in
  \<open>src/cache_server/cache_service.cpp\<close> and \<open>src/master_server/master_service.cpp\<close>.

  The queue is a list under a mutex, with a semaphore that counts the requests.  A caller of \<open>append\<close>
  pushes under the mutex and posts the semaphore after it; a worker waits for the semaphore, takes
  the first request under the mutex, and handles it.  Each of these is a step of the machine below,
  so that the steps of different threads interleave freely.
\<close>

section \<open>Operations\<close>

record 'r pool =
  workqueue :: "'r list"
  queuestat :: nat

text \<open>\<open>m_workqueue.size() >= m_max_requests\<close>, the push, and the post.\<close>

definition pool_push :: "nat \<Rightarrow> 'r \<Rightarrow> 'r pool \<Rightarrow> 'r pool \<times> bool" where
  "pool_push m_max_requests request p =
     (if length (workqueue p) \<ge> m_max_requests then (p, False)
      else (p\<lparr>workqueue := workqueue p @ [request]\<rparr>, True))"

definition pool_post :: "'r pool \<Rightarrow> 'r pool" where
  "pool_post p = p\<lparr>queuestat := queuestat p + 1\<rparr>"

definition pool_append :: "nat \<Rightarrow> 'r \<Rightarrow> 'r pool \<Rightarrow> 'r pool \<times> bool" where
  "pool_append m_max_requests request p =
     (let (p, ok) = pool_push m_max_requests request p
      in if \<not> ok then (p, False) else (pool_post p, True))"

text \<open>The wait of a worker: \<open>None\<close> when it blocks.\<close>

definition pool_wait :: "'r pool \<Rightarrow> 'r pool option" where
  "pool_wait p = (if queuestat p = 0 then None else Some (p\<lparr>queuestat := queuestat p - 1\<rparr>))"

text \<open>What it does under the mutex: \<open>None\<close> is the branch \<open>continue\<close> for an empty queue.\<close>

definition pool_take :: "'r pool \<Rightarrow> 'r pool \<times> 'r option" where
  "pool_take p = (case workqueue p of [] \<Rightarrow> (p, None) | request # rs \<Rightarrow> (p\<lparr>workqueue := rs\<rparr>, Some request))"

text \<open>One round of the loop up to the request that is handled.\<close>

definition pool_next :: "'r pool \<Rightarrow> ('r pool \<times> 'r option) option" where
  "pool_next p = do { p \<leftarrow> pool_wait p; Some (pool_take p) }"

text \<open>
  \<open>threadInit\<close>: \<open>creates i\<close> and \<open>detaches i\<close> say whether \<open>pthread_create\<close> and \<open>pthread_detach\<close> succeed
  for thread \<open>i\<close>.  \<open>Thrown n\<close> is the exception after \<open>n\<close> threads were created; a store outside the array of
  \<open>m_thread_number\<close> elements has no result.
\<close>

datatype started = Started nat | Thrown nat

fun thread_loop :: "nat \<Rightarrow> (nat \<Rightarrow> bool) \<Rightarrow> (nat \<Rightarrow> bool) \<Rightarrow> nat list \<Rightarrow> nat \<Rightarrow> started option" where
  "thread_loop m creates detaches [] n = Some (Started n)"
| "thread_loop m creates detaches (i # is) n =
     (if i \<ge> m then None
      else if \<not> creates i then Some (Thrown n)
      else if \<not> detaches i then Some (Thrown (n + 1))
      else thread_loop m creates detaches is (n + 1))"

definition threadInit :: "nat \<Rightarrow> (nat \<Rightarrow> bool) \<Rightarrow> (nat \<Rightarrow> bool) \<Rightarrow> int \<Rightarrow> int \<Rightarrow> started option" where
  "threadInit m_thread_number creates detaches thread_number max_requests =
     (if thread_number \<le> 0 \<or> max_requests \<le> 0 then Some (Thrown 0)
      else thread_loop m_thread_number creates detaches [0..<nat thread_number] 0)"

section \<open>Threads\<close>

text \<open>
  \<open>posting\<close> callers have pushed and not posted yet, \<open>awake\<close> workers have passed the semaphore and
  not locked the mutex yet; \<open>accepted\<close> and \<open>taken_reqs\<close> record the requests.
\<close>

record 'r pool_sys =
  pool_of :: "'r pool"
  posting :: nat
  awake :: nat
  accepted :: "'r list"
  taken_reqs :: "'r list"

inductive pool_trans :: "nat \<Rightarrow> 'r pool_sys \<Rightarrow> 'r pool_sys \<Rightarrow> bool" for mx :: nat where
  pool_trans_push: "pool_push mx r (pool_of s) = (p, ok) \<Longrightarrow>
     pool_trans mx s (s\<lparr>pool_of := p, posting := posting s + (if ok then 1 else 0),
        accepted := accepted s @ (if ok then [r] else [])\<rparr>)"
| pool_trans_post: "posting s \<noteq> 0 \<Longrightarrow>
     pool_trans mx s (s\<lparr>pool_of := pool_post (pool_of s), posting := posting s - 1\<rparr>)"
| pool_trans_wait: "pool_wait (pool_of s) = Some p \<Longrightarrow>
     pool_trans mx s (s\<lparr>pool_of := p, awake := awake s + 1\<rparr>)"
| pool_trans_take: "awake s \<noteq> 0 \<Longrightarrow> pool_take (pool_of s) = (p, r) \<Longrightarrow>
     pool_trans mx s (s\<lparr>pool_of := p, awake := awake s - 1,
        taken_reqs := taken_reqs s @ (case r of None \<Rightarrow> [] | Some x \<Rightarrow> [x])\<rparr>)"

inductive pool_reach :: "nat \<Rightarrow> 'r pool_sys \<Rightarrow> bool" for mx :: nat where
  pool_reach_init: "pool_reach mx \<lparr>pool_of = \<lparr>workqueue = [], queuestat = 0\<rparr>, posting = 0, awake = 0, accepted = [], taken_reqs = []\<rparr>"
| pool_reach_step: "pool_reach mx s \<Longrightarrow> pool_trans mx s s' \<Longrightarrow> pool_reach mx s'"

definition pool_ok :: "nat \<Rightarrow> 'r pool_sys \<Rightarrow> bool" where
  "pool_ok mx s \<longleftrightarrow> accepted s = taken_reqs s @ workqueue (pool_of s) \<and> length (workqueue (pool_of s)) \<le> mx \<and>
     length (workqueue (pool_of s)) = posting s + queuestat (pool_of s) + awake s"

lemma pool_ok_trans: "pool_trans mx s s' \<Longrightarrow> pool_ok mx s \<Longrightarrow> pool_ok mx s'"
  by (induction rule: pool_trans.induct)
    (auto simp: pool_ok_def pool_push_def pool_post_def pool_wait_def pool_take_def split: if_splits list.splits)

lemma pool_ok_reach: "pool_reach mx s \<Longrightarrow> pool_ok mx s"
  by (induction rule: pool_reach.induct) (use pool_ok_trans in \<open>auto simp: pool_ok_def\<close>)

text \<open>The counter of the pool is the semaphore of \<^theory_text>\<open>Locker\<close>.\<close>

definition pool_sem :: "'r pool \<Rightarrow> semaphore" where
  "pool_sem p = \<lparr>sem_value = int (queuestat p)\<rparr>"

lemma pool_wait_sem:
  "sem_wait (pool_sem p) = (case pool_wait p of None \<Rightarrow> Blocks | Some p' \<Rightarrow> Returns (pool_sem p', True))"
  by (auto simp: sem_wait_def pool_sem_def pool_wait_def)

lemma pool_post_sem: "int (queuestat p) < SEM_VALUE_MAX \<Longrightarrow> sem_post (pool_sem p) = Returns (pool_sem (pool_post p), True)"
  by (simp add: sem_post_def pool_sem_def pool_post_def)

section \<open>Properties\<close>

text \<open>
  C30. Requests are handled in the order in which they were accepted, each at most once, and at most
  \<open>m_max_requests\<close> wait; a worker that passed the semaphore always finds a request, and
  while a request waits some thread can go on; and with a limit that the semaphore can count no post fails.
\<close>

theorem request_pool_correct:
  assumes "pool_reach mx s"
  shows "accepted s = taken_reqs s @ workqueue (pool_of s) \<and> length (workqueue (pool_of s)) \<le> mx \<and>
     (awake s \<noteq> 0 \<longrightarrow> (\<exists>p r. pool_take (pool_of s) = (p, Some r))) \<and>
     (workqueue (pool_of s) \<noteq> [] \<longrightarrow> posting s \<noteq> 0 \<or> pool_wait (pool_of s) \<noteq> None \<or> awake s \<noteq> 0) \<and>
     (posting s \<noteq> 0 \<longrightarrow> int mx \<le> SEM_VALUE_MAX \<longrightarrow>
        sem_post (pool_sem (pool_of s)) = Returns (pool_sem (pool_post (pool_of s)), True))"
proof -
  have inv: "accepted s = taken_reqs s @ workqueue (pool_of s)" "length (workqueue (pool_of s)) \<le> mx"
    "length (workqueue (pool_of s)) = posting s + queuestat (pool_of s) + awake s"
    using pool_ok_reach [OF assms] by (simp_all add: pool_ok_def)
  have "int (queuestat (pool_of s)) < SEM_VALUE_MAX" if "posting s \<noteq> 0" "int mx \<le> SEM_VALUE_MAX"
    using inv(2,3) that by linarith
  note post = pool_post_sem [OF this]
  show ?thesis
  proof (cases "workqueue (pool_of s)")
    case Nil
    with inv post show ?thesis by simp
  next
    case (Cons r rs)
    with inv post show ?thesis by (auto simp: pool_take_def pool_wait_def)
  qed
qed

section \<open>Witnesses\<close>

definition demo_pool :: "nat pool_sys" where
  "demo_pool = \<lparr>pool_of = \<lparr>workqueue = [4], queuestat = 0\<rparr>, posting = 1, awake = 0, accepted = [4], taken_reqs = []\<rparr>"

lemma demo_pool_reach: "pool_reach 20 demo_pool"
proof (rule pool_reach_step [OF pool_reach_init])
  let ?s = "\<lparr>pool_of = \<lparr>workqueue = [], queuestat = 0\<rparr>, posting = 0, awake = 0, accepted = [], taken_reqs = []\<rparr>"
  have "pool_push 20 4 (pool_of ?s) = (pool_of demo_pool, True)" by (simp add: pool_push_def demo_pool_def)
  from pool_trans_push [OF this] show "pool_trans 20 ?s demo_pool" by (simp add: demo_pool_def)
qed

theorem request_pool_witness: "accepted demo_pool = taken_reqs demo_pool @ workqueue (pool_of demo_pool) \<and> posting demo_pool \<noteq> 0"
  using request_pool_correct [OF demo_pool_reach] by (simp add: demo_pool_def)

end
