(* ===== verification/Wire.thy ===== *)
theory Wire
  imports ConsistentHash EndPoint "HOL-Library.List_Lexorder"
begin

text \<open>
  What the two servers share: the codes of the protocol (\<open>src/config.h\<close>), the scanning of messages in
  a buffer of 1024 bytes, \<open>std::map\<close>, and the sockets of the operating system.
\<close>

section \<open>Codes of the protocol\<close>

definition BACKUP_INVALID :: cstr where "BACKUP_INVALID = bytes ''backup_invalid''"
definition UPDATE_HASH :: cstr where "UPDATE_HASH = bytes ''update_hash''"
definition UPDATE_BACKUP :: cstr where "UPDATE_BACKUP = bytes ''update_backup''"
definition RECOVER_BACKUP :: cstr where "RECOVER_BACKUP = bytes ''recover_backup''"
definition MOVE_DATA :: cstr where "MOVE_DATA = bytes ''move_data''"
definition SET_VALUE :: cstr where "SET_VALUE = bytes ''set_value''"
definition SET_BACKUP_VALUE :: cstr where "SET_BACKUP_VALUE = bytes ''set_backup_value''"
definition GET_VALUE :: cstr where "GET_VALUE = bytes ''get_value''"
definition GET_BACKUP_VALUE :: cstr where "GET_BACKUP_VALUE = bytes ''get_backup_value''"
definition DIRTY_DATA :: cstr where "DIRTY_DATA = bytes ''dirty_data''"
definition DATA_NOT_EXIST :: cstr where "DATA_NOT_EXIST = bytes ''data_not_exist''"
definition GET_SUCCESS :: cstr where "GET_SUCCESS = bytes ''get_success''"

lemmas code_defs = BACKUP_INVALID_def UPDATE_HASH_def UPDATE_BACKUP_def RECOVER_BACKUP_def MOVE_DATA_def
  SET_VALUE_def SET_BACKUP_VALUE_def GET_VALUE_def GET_BACKUP_VALUE_def DIRTY_DATA_def DATA_NOT_EXIST_def
  GET_SUCCESS_def

section \<open>Buffers\<close>

text \<open>
  A string that is printed or copied into a \<open>char[1024]\<close>, with its terminating zero; a longer one
  overruns the buffer.
\<close>

definition buf_size :: nat where "buf_size = 1024"

definition to_buf :: "cstr \<Rightarrow> cstr option" where
  "to_buf s = (if length s < buf_size then Some s else None)"

text \<open>What a call of \<open>recv\<close> gives: nothing more, an error, or bytes, at most as many as the buffer has.\<close>

datatype recv = Closed | RecvError | Received cstr

definition recv_ok :: "recv \<Rightarrow> bool" where
  "recv_ok r = (case r of Received d \<Rightarrow> d \<noteq> [] \<and> length d \<le> buf_size | _ \<Rightarrow> True)"

text \<open>The buffer after \<open>recv\<close>, over its old contents.\<close>

definition fill_buf :: "u8 list \<Rightarrow> cstr \<Rightarrow> u8 list" where
  "fill_buf old d = d @ drop (length d) old"

text \<open>
  The loop \<open>while (buf[i] != '\n') temp += buf[i++]\<close>: it returns the line and the index of the line
  feed, and runs out of the buffer when there is none.
\<close>

fun read_line :: "u8 list \<Rightarrow> nat \<Rightarrow> cstr \<Rightarrow> (cstr \<times> nat) option" where
  "read_line [] i temp = None"
| "read_line (c # cs) i temp = (if c \<noteq> 10 then read_line cs (i + 1) (temp @ [c]) else Some (temp, i))"

text \<open>The same with the test \<open>i < len\<close>, on the part of the buffer from \<open>i\<close> to \<open>len\<close>.\<close>

fun read_field :: "u8 list \<Rightarrow> nat \<Rightarrow> cstr \<Rightarrow> cstr \<times> nat" where
  "read_field [] i s = (s, i)"
| "read_field (c # cs) i s = (if c \<noteq> 10 then read_field cs (i + 1) (s @ [c]) else (s, i))"

text \<open>The loop that collects the lines of the list of servers.\<close>

fun read_lines :: "u8 list \<Rightarrow> cstr \<Rightarrow> cstr list \<Rightarrow> cstr list" where
  "read_lines [] temp ip_ports = ip_ports"
| "read_lines (c # cs) temp ip_ports =
     (if c = 10 then read_lines cs [] (ip_ports @ [temp]) else read_lines cs (temp @ [c]) ip_ports)"

lemma read_line_found: "10 \<notin> set s \<Longrightarrow> read_line (s @ 10 # t) i acc = Some (acc @ s, i + length s)"
  by (induction s arbitrary: i acc) auto

lemma read_field_found: "10 \<notin> set s \<Longrightarrow> read_field (s @ 10 # t) i acc = (acc @ s, i + length s)"
  by (induction s arbitrary: i acc) auto

lemma read_field_all: "10 \<notin> set s \<Longrightarrow> read_field s i acc = (acc @ s, i + length s)"
  by (induction s arbitrary: i acc) auto

lemma read_lines_line: "10 \<notin> set s \<Longrightarrow> read_lines (s @ 10 # t) acc ls = read_lines t [] (ls @ [acc @ s])"
  by (induction s arbitrary: acc) auto

lemma read_lines_rest: "10 \<notin> set s \<Longrightarrow> read_lines s acc ls = ls"
  by (induction s arbitrary: acc) auto

lemma read_lines_all:
  assumes "\<forall>s \<in> set ss. 10 \<notin> set s" and "10 \<notin> set t"
  shows "read_lines (concat (map (\<lambda>s. s @ [10]) ss) @ t) [] ls = ls @ ss"
  using assms(1)
proof (induction ss arbitrary: ls)
  case Nil
  then show ?case using read_lines_rest [OF assms(2)] by simp
next
  case (Cons s ss)
  then show ?case using read_lines_line [of s "concat (map (\<lambda>s. s @ [10]) ss) @ t" "[]" ls] by simp
qed

section \<open>std::map\<close>

text \<open>A \<open>std::map\<close> is the list of its entries in the order of the keys, in which it is traversed.\<close>

fun map_insert :: "'k :: linorder \<Rightarrow> 'v \<Rightarrow> ('k \<times> 'v) list \<Rightarrow> ('k \<times> 'v) list" where
  "map_insert k v [] = [(k, v)]"
| "map_insert k v ((k', v') # m) =
     (if k < k' then (k, v) # (k', v') # m
      else if k = k' then (k', v') # m
      else (k', v') # map_insert k v m)"

definition map_erase :: "'k \<Rightarrow> ('k \<times> 'v) list \<Rightarrow> ('k \<times> 'v) list" where
  "map_erase k m = filter (\<lambda>(k', v). k' \<noteq> k) m"

text \<open>The operator \<open>[]\<close>, which inserts the default \<open>d\<close> for a key that is not there.\<close>

definition map_at :: "'v \<Rightarrow> 'k :: linorder \<Rightarrow> ('k \<times> 'v) list \<Rightarrow> ('k \<times> 'v) list \<times> 'v" where
  "map_at d k m = (case map_of m k of Some v \<Rightarrow> (m, v) | None \<Rightarrow> (map_insert k d m, d))"

definition map_ok :: "('k :: linorder \<times> 'v) list \<Rightarrow> bool" where
  "map_ok m \<longleftrightarrow> sorted_wrt (<) (map fst m)"

lemma set_keys_insert: "set (map fst (map_insert k v m)) = insert k (set (map fst m))"
  by (induction k v m rule: map_insert.induct) auto

lemma map_insert_ok: "map_ok m \<Longrightarrow> map_ok (map_insert k v m)"
proof (induction k v m rule: map_insert.induct)
  case (2 k v k' v' m)
  then have m: "map_ok m" "\<forall>x \<in> set (map fst m). k' < x" by (auto simp: map_ok_def)
  show ?case
  proof (cases "k < k' \<or> k = k'")
    case True
    with 2(2) m show ?thesis by (auto simp: map_ok_def)
  next
    case False
    then have "k' < k" by auto
    with 2(1) m False set_keys_insert [of k v m] show ?thesis by (auto simp: map_ok_def)
  qed
qed (simp add: map_ok_def)

lemma map_erase_ok: "map_ok m \<Longrightarrow> map_ok (map_erase k m)"
  unfolding map_ok_def map_erase_def
  by (induction m) auto

lemma map_of_insert: "map_ok m \<Longrightarrow> map_of (map_insert k v m) = (case map_of m k of None \<Rightarrow> (map_of m)(k \<mapsto> v) | Some w \<Rightarrow> map_of m)"
proof (induction k v m rule: map_insert.induct)
  case (2 k v k' v' m)
  then have m: "map_ok m" "\<forall>x \<in> set (map fst m). k' < x" by (auto simp: map_ok_def)
  show ?case
  proof (cases "k < k'")
    case True
    with m(2) have "map_of m k = None" by (auto simp: map_of_eq_None_iff)
    with True show ?thesis by auto
  next
    case False
    with 2(1) m(1) show ?thesis by (auto split: option.splits)
  qed
qed auto

lemma map_of_erase: "map_of (map_erase k m) = (map_of m)(k := None)"
  unfolding map_erase_def by (induction m) (auto simp: fun_eq_iff)

lemma map_at_present: "map_of m k = Some v \<Longrightarrow> map_at d k m = (m, v)"
  by (simp add: map_at_def)

lemma map_ok_distinct: "map_ok m \<Longrightarrow> distinct (map fst m)"
  by (simp add: map_ok_def strict_sorted_iff)

section \<open>Sockets\<close>

text \<open>
  The descriptors that are open and what was sent on which.  As POSIX has it, \<open>socket\<close> returns the
  lowest number that is not in use, and calls on a number that is not in use fail.  \<open>reach\<close> says
  which addresses can be connected to.
\<close>

record os =
  open_fds :: "int list"
  epoll_fds :: "int list"
  sent :: "(int \<times> cstr) list"

definition os_socket :: "os \<Rightarrow> os \<times> int" where
  "os_socket o1 =
     (let fd = hd (filter (\<lambda>x. x \<notin> set (open_fds o1)) (map int [0..<Suc (length (open_fds o1))]))
      in (o1\<lparr>open_fds := fd # open_fds o1\<rparr>, fd))"

definition os_close :: "int \<Rightarrow> os \<Rightarrow> os" where
  "os_close fd o1 = o1\<lparr>open_fds := removeAll fd (open_fds o1), epoll_fds := removeAll fd (epoll_fds o1)\<rparr>"

definition os_connect :: "(sockaddr_in \<Rightarrow> bool) \<Rightarrow> int \<Rightarrow> sockaddr_in \<Rightarrow> os \<Rightarrow> int" where
  "os_connect reach fd addr o1 = (if fd \<in> set (open_fds o1) \<and> reach addr then 0 else - 1)"

text \<open>On an open descriptor \<open>send\<close> succeeds and takes all bytes; short writes and broken connections are not modelled.\<close>

definition os_send :: "int \<Rightarrow> cstr \<Rightarrow> os \<Rightarrow> os \<times> int" where
  "os_send fd d o1 =
     (if fd \<in> set (open_fds o1) then (o1\<lparr>sent := sent o1 @ [(fd, d)]\<rparr>, int (length d)) else (o1, - 1))"

definition os_epoll_add :: "int \<Rightarrow> os \<Rightarrow> os \<times> int" where
  "os_epoll_add fd o1 =
     (if fd \<in> set (open_fds o1) \<and> fd \<notin> set (epoll_fds o1) then (o1\<lparr>epoll_fds := fd # epoll_fds o1\<rparr>, 0) else (o1, - 1))"

definition os_epoll_del :: "int \<Rightarrow> os \<Rightarrow> os \<times> int" where
  "os_epoll_del fd o1 =
     (if fd \<in> set (epoll_fds o1) then (o1\<lparr>epoll_fds := removeAll fd (epoll_fds o1)\<rparr>, 0) else (o1, - 1))"

text \<open>What \<open>epoll_wait\<close> gives: an error, or events.\<close>

datatype 'ev waited = WaitFailed | Ready "'ev list"

section \<open>The machine under a server\<close>

text \<open>The machine and the library under a server, which stay the same while it runs.\<close>

record env =
  little_endian :: bool
  reachable :: "sockaddr_in \<Rightarrow> bool"
  junk_addr :: sockaddr_in
  junk_node :: rbnode
  new_obj :: new_fun
  malloc_of :: allocator
  default_hash :: "cstr \<Rightarrow> int"
  memory_ok :: bool

definition env_ok :: "env \<Rightarrow> bool" where
  "env_ok e \<longleftrightarrow> new_ok (new_obj e) \<and> malloc_fresh (malloc_of e) \<and> malloc_serves (malloc_of e) \<and> memory_ok e"

end
