(* ===== verification/CacheServer.thy ===== *)
theory CacheServer
  imports Wire WorkPool ConsistentHash Lru
begin

text \<open>
  The cache server (\<open>src/cache_server/cache_service.h\<close> and \<open>cache_service.cpp\<close>): its tables, the hash
  ring, the messages of the master and of clients, the worker threads, the migration of data and the
  event loop.

  A function of the class is a step on the state of the server; the detached threads that it starts
  are recorded in \<open>tasks\<close> and are steps of their own.  Locks are not part of the state, since a
  step is not interrupted.  Several functions end without a \<open>return\<close>; their result is then the
  parameter \<open>ret\<close>, for whatever the caller finds.  Log messages are left out.
\<close>

section \<open>State\<close>

record request =
  request_type :: cstr
  client_addr :: cstr
  req_key :: cstr
  req_value :: cstr
  req_cfd :: int

datatype task = MoveTask | UpdateTask cstr

record cache_server =
  lru :: "(cstr, cstr) lru_cache"
  lru_backup :: "(cstr, cstr) lru_cache"
  move_state :: int
  backup_invalid :: int
  cacheServerHash :: "con_hash option"
  epfd :: int
  master_sockfd :: int
  lfd :: int
  cache_server_port :: int
  local_addr :: cstr
  connectedMap :: "(int \<times> cstr) list"
  m_pool :: "request pool"
  tasks :: "task list"
  cs_os :: os

definition m_thread_number :: nat where "m_thread_number = 8"
definition m_max_requests :: nat where "m_max_requests = 20"
definition master_port :: int where "master_port = 7010"

section \<open>Start\<close>

definition cache_epollAddfd :: "int \<Rightarrow> cache_server \<Rightarrow> (cache_server \<times> int) option" where
  "cache_epollAddfd fd s =
     (if epfd s = - 1 then None
      else let (o1, ret) = os_epoll_add fd (cs_os s)
        in if ret = - 1 then Some (s\<lparr>cs_os := o1\<rparr>, - 1) else Some (s\<lparr>cs_os := o1\<rparr>, 0))"

definition cache_epollDelfd :: "int \<Rightarrow> cache_server \<Rightarrow> (cache_server \<times> int) option" where
  "cache_epollDelfd fd s =
     (if epfd s = - 1 then None
      else let (o1, ret) = os_epoll_del fd (cs_os s)
        in if ret = - 1 then Some (s\<lparr>cs_os := o1\<rparr>, - 1) else Some (s\<lparr>cs_os := o1\<rparr>, 0))"

text \<open>\<open>ep\<close> is the result of \<open>epoll_create\<close>; an exception of \<open>threadInit\<close> is not caught.\<close>

datatype init_result = Returns int | Throws

definition cache_init :: "(nat \<Rightarrow> bool) \<Rightarrow> (nat \<Rightarrow> bool) \<Rightarrow> int \<Rightarrow> int \<Rightarrow> cache_server \<Rightarrow> (cache_server \<times> init_result) option" where
  "cache_init creates detaches ep ret s = do {
     t \<leftarrow> threadInit m_thread_number creates detaches (int m_thread_number) (int m_max_requests);
     (case t of
        Thrown n \<Rightarrow> Some (s, Throws)
      | Started n \<Rightarrow> let s = s\<lparr>epfd := ep\<rparr> in if epfd s = - 1 then Some (s, Returns (- 1)) else Some (s, Returns ret)) }"

definition cache_connToMaster :: "env \<Rightarrow> cache_server \<Rightarrow> (cache_server \<times> int) option" where
  "cache_connToMaster e s = do {
     let (o1, fd) = os_socket (cs_os s);
     let s = s\<lparr>cs_os := o1, master_sockfd := fd\<rparr>;
     let addr = \<lparr>sin_family = AF_INET, sin_port = htons (little_endian e) (word_of_int master_port),
                 sin_addr = inet_pton (bytes ''127.0.0.1'') (sin_addr (junk_addr e))\<rparr>;
     (if os_connect (reachable e) fd addr (cs_os s) = - 1 then Some (s, - 1)
      else do {
        (s, ret) \<leftarrow> cache_epollAddfd fd s;
        (if ret = - 1 then Some (s, - 1)
         else do {
           let (o1, n) = os_send fd (format_d (cache_server_port s)) (cs_os s);
           Some (s\<lparr>cs_os := o1\<rparr>, 0) }) }) }"

text \<open>
  The results of \<open>socket\<close>, \<open>bind\<close> and \<open>listen\<close> are parameters.  The result of \<open>epollAddfd\<close> is not
  stored: the test after it looks at the result of \<open>listen\<close> once more.
\<close>

definition cache_startListen :: "env \<Rightarrow> bool \<Rightarrow> bool \<Rightarrow> bool \<Rightarrow> cache_server \<Rightarrow> (cache_server \<times> int) option" where
  "cache_startListen e socket_ok bind_ok listen_ok s =
     (if \<not> socket_ok then Some (s\<lparr>lfd := - 1\<rparr>, - 1)
      else do {
        let (o1, fd) = os_socket (cs_os s);
        let s = s\<lparr>cs_os := o1, lfd := fd\<rparr>;
        let addr = \<lparr>sin_family = AF_INET, sin_port = htons (little_endian e) (word_of_int (cache_server_port s)),
                    sin_addr = [0, 0, 0, 0]\<rparr>;
        (if \<not> bind_ok then Some (s, - 1)
         else if \<not> listen_ok then Some (s, - 1)
         else do {
           (s, r) \<leftarrow> cache_epollAddfd fd s;
           Some (s\<lparr>local_addr := sock_addr2str (little_endian e) addr\<rparr>, 0) }) })"

section \<open>Reading and writing the tables\<close>

text \<open>The reply to a read, which both tables give in the same way.\<close>

definition read_table :: "cstr \<Rightarrow> (cstr, cstr) lru_cache \<Rightarrow> ((cstr, cstr) lru_cache \<times> cstr) option" where
  "read_table k t = do {
     dirty \<leftarrow> (if hasKey k t then is_dirty k t else Some False);
     (if dirty then Some (t, DIRTY_DATA)
      else if hasKey k t then do {
        (t, v) \<leftarrow> lru_get k t;
        Some (t, GET_SUCCESS @ [10] @ v) }
      else Some (t, DATA_NOT_EXIST)) }"

definition cache_getValue :: "cstr \<Rightarrow> int \<Rightarrow> cache_server \<Rightarrow> (cache_server \<times> int) option" where
  "cache_getValue k cfd s = do {
     (t, msg) \<leftarrow> read_table k (lru s);
     buf \<leftarrow> to_buf (c_str msg);
     let (o1, n) = os_send cfd buf (cs_os s);
     let s = s\<lparr>lru := t, cs_os := o1\<rparr>;
     (if n = - 1 then Some (s, - 1) else Some (s, 0)) }"

definition cache_getBackupValue :: "cstr \<Rightarrow> int \<Rightarrow> cache_server \<Rightarrow> (cache_server \<times> int) option" where
  "cache_getBackupValue k cfd s = do {
     (t, msg) \<leftarrow> read_table k (lru_backup s);
     buf \<leftarrow> to_buf (c_str msg);
     let (o1, n) = os_send cfd buf (cs_os s);
     let s = s\<lparr>lru_backup := t, cs_os := o1\<rparr>;
     (if n = - 1 then Some (s, - 1) else Some (s, 0)) }"

definition write_table :: "new_fun \<Rightarrow> cstr \<Rightarrow> cstr \<Rightarrow> (cstr, cstr) lru_cache \<Rightarrow> (cstr, cstr) lru_cache option" where
  "write_table al k v t = do {
     dirty \<leftarrow> (if hasKey k t then is_dirty k t else Some False);
     (if dirty then Some t else lru_set al k v t) }"

definition cache_setValue :: "env \<Rightarrow> cstr \<Rightarrow> cstr \<Rightarrow> cache_server \<Rightarrow> (cache_server \<times> int) option" where
  "cache_setValue e k v s = do {
     t \<leftarrow> write_table (new_obj e) k v (lru s);
     Some (s\<lparr>lru := t\<rparr>, 0) }"

definition cache_setBackupValue :: "env \<Rightarrow> cstr \<Rightarrow> cstr \<Rightarrow> cache_server \<Rightarrow> (cache_server \<times> int) option" where
  "cache_setBackupValue e k v s = do {
     t \<leftarrow> write_table (new_obj e) k v (lru_backup s);
     Some (s\<lparr>lru_backup := t\<rparr>, 0) }"

section \<open>The hash ring\<close>

fun add_servers :: "env \<Rightarrow> cstr list \<Rightarrow> con_hash \<Rightarrow> con_hash option" where
  "add_servers e [] c = Some c"
| "add_servers e (ip_port # ip_ports) c = do {
     c \<leftarrow> conhash_add_CacheServer (new_obj e) (malloc_of e) (junk_node e) ip_port c;
     add_servers e ip_ports c }"

definition cache_updateHash :: "env \<Rightarrow> cstr list \<Rightarrow> cache_server \<Rightarrow> (cache_server \<times> int) option" where
  "cache_updateHash e ip_ports s = do {
     _ \<leftarrow> (case cacheServerHash s of None \<Rightarrow> Some () | Some old \<Rightarrow> map_option (\<lambda>_. ()) (con_hash_delete old));
     c \<leftarrow> con_hash_new (default_hash e) (memory_ok e);
     c \<leftarrow> add_servers e ip_ports c;
     Some (s\<lparr>cacheServerHash := Some c\<rparr>, 0) }"

section \<open>Migration\<close>

text \<open>The thread that sends the table to a backup server.\<close>

fun send_backup :: "int \<Rightarrow> cstr list \<Rightarrow> cache_server \<Rightarrow> cache_server option" where
  "send_backup cfd [] s = Some s"
| "send_backup cfd (k # ks) s = do {
     (t, v) \<leftarrow> lru_get k (lru s);
     buf \<leftarrow> to_buf (SET_BACKUP_VALUE @ [10] @ c_str k @ [10] @ c_str v);
     let (o1, n) = os_send cfd buf (cs_os s);
     send_backup cfd ks (s\<lparr>lru := t, cs_os := o1\<rparr>) }"

definition cache_update :: "env \<Rightarrow> cstr \<Rightarrow> cache_server \<Rightarrow> cache_server option" where
  "cache_update e ip_port s = do {
     dst_addr \<leftarrow> str2sock_addr (little_endian e) (junk_addr e) ip_port;
     let (o1, cfd) = os_socket (cs_os s);
     let s = s\<lparr>cs_os := o1\<rparr>;
     (if os_connect (reachable e) cfd dst_addr (cs_os s) = - 1 then Some s
      else do {
        buf \<leftarrow> to_buf BACKUP_INVALID;
        let (o1, n) = os_send cfd buf (cs_os s);
        ks \<leftarrow> lru_keys_oneshot (lru s);
        send_backup cfd ks (s\<lparr>cs_os := o1\<rparr>) }) }"

text \<open>
  One round of the loop of \<open>move\<close>; the flag says whether the loop goes on.  No other thread opens a descriptor
  between its \<open>close\<close> and its \<open>connect\<close>.
\<close>

definition move_key :: "env \<Rightarrow> cstr \<Rightarrow> cache_server \<Rightarrow> (cache_server \<times> bool) option" where
  "move_key e k s = do {
     let (o1, cfd) = os_socket (cs_os s);
     let s = s\<lparr>cs_os := o1\<rparr>;
     let cur_addr = [];
     (if \<not> hasKey k (lru s) then Some (s, True)
      else do {
        (t, v) \<leftarrow> lru_get k (lru s);
        let s = s\<lparr>lru := t\<rparr>;
        c \<leftarrow> cacheServerHash s;
        newAddr \<leftarrow> conhash_get_CacheServer c k;
        (if newAddr = local_addr s then Some (s, True)
         else do {
           (s, connected) \<leftarrow>
             (if newAddr \<noteq> cur_addr then do {
                let s = s\<lparr>cs_os := os_close cfd (cs_os s)\<rparr>;
                addr \<leftarrow> str2sock_addr (little_endian e) (junk_addr e) newAddr;
                Some (s, os_connect (reachable e) cfd addr (cs_os s) \<noteq> - 1) }
              else Some (s, True));
           (if \<not> connected then Some (s, False)
            else do {
              buf \<leftarrow> to_buf (c_str (SET_VALUE @ [10] @ k));
              let (o1, n) = os_send cfd buf (cs_os s);
              let s = s\<lparr>cs_os := o1\<rparr>;
              (if n = - 1 then Some (s, False)
               else do {
                 t \<leftarrow> set_dirty k (lru s);
                 Some (s\<lparr>lru := t\<rparr>, True) }) }) }) }) }"

fun move_keys :: "env \<Rightarrow> cstr list \<Rightarrow> cache_server \<Rightarrow> cache_server option" where
  "move_keys e [] s = Some s"
| "move_keys e (k # ks) s = do {
     (s, go_on) \<leftarrow> move_key e k s;
     (if go_on then move_keys e ks s else Some s) }"

definition cache_move :: "env \<Rightarrow> cache_server \<Rightarrow> cache_server option" where
  "cache_move e s = do {
     ks \<leftarrow> (if move_state s = 0 then lru_keys_oneshot (lru s) else lru_keys_oneshot (lru_backup s));
     s \<leftarrow> move_keys e ks s;
     Some (if move_state s = 0 then s else s\<lparr>move_state := 0, backup_invalid := 1\<rparr>) }"

definition cache_recoverBackup :: "cache_server \<Rightarrow> cache_server" where
  "cache_recoverBackup s = s\<lparr>move_state := 1, tasks := tasks s @ [MoveTask]\<rparr>"

text \<open>A detached thread runs \<open>move_worker\<close> or \<open>updateBackup\<close>.\<close>

fun run_task :: "env \<Rightarrow> task \<Rightarrow> cache_server \<Rightarrow> cache_server option" where
  "run_task e MoveTask s = cache_move e s"
| "run_task e (UpdateTask ip_port) s = cache_update e ip_port s"

section \<open>Messages\<close>

definition cache_dealwithMasterMsg :: "env \<Rightarrow> int \<Rightarrow> recv \<Rightarrow> cache_server \<Rightarrow> (cache_server \<times> int) option" where
  "cache_dealwithMasterMsg e ret r s =
     (case r of
        Closed \<Rightarrow> do { (s, x) \<leftarrow> cache_epollDelfd (master_sockfd s) s; Some (s, - 1) }
      | RecvError \<Rightarrow> Some (s, - 1)
      | Received msg \<Rightarrow> do {
          let buf = fill_buf (replicate buf_size 0) msg;
          let len = length msg;
          (temp, i) \<leftarrow> read_line buf 0 [];
          (if temp = MOVE_DATA then Some (s\<lparr>tasks := tasks s @ [MoveTask]\<rparr>, ret)
           else if temp = UPDATE_HASH then do {
             let i = i + 1;
             let ip_ports = read_lines (take (len - i) (drop i buf)) [] [];
             (s, x) \<leftarrow> cache_updateHash e ip_ports s;
             Some (s, ret) }
           else if temp = UPDATE_BACKUP then do {
             let i = i + 1;
             (temp, j) \<leftarrow> read_line (drop i buf) i [];
             Some (s\<lparr>tasks := tasks s @ [UpdateTask temp]\<rparr>, ret) }
           else if temp = RECOVER_BACKUP then Some (cache_recoverBackup s, ret)
           else Some (s, ret)) })"

definition cache_append :: "request \<Rightarrow> cache_server \<Rightarrow> cache_server \<times> bool" where
  "cache_append r s = (let (p, ok) = pool_append m_max_requests r (m_pool s) in (s\<lparr>m_pool := p\<rparr>, ok))"

text \<open>\<open>stack\<close> is what the buffer, which is not cleared, contains before.\<close>

definition cache_dealwithClientMsg :: "u8 list \<Rightarrow> int \<Rightarrow> int \<Rightarrow> recv \<Rightarrow> cache_server \<Rightarrow> (cache_server \<times> int) option" where
  "cache_dealwithClientMsg stack ret cfd r s =
     (case r of
        Closed \<Rightarrow> do {
          let s = s\<lparr>connectedMap := map_erase cfd (connectedMap s)\<rparr>;
          (s, x) \<leftarrow> cache_epollDelfd cfd s;
          Some (s, - 1) }
      | RecvError \<Rightarrow> Some (s, - 1)
      | Received msg \<Rightarrow> do {
          let buf = fill_buf stack msg;
          let len = length msg;
          (opt, i) \<leftarrow> read_line buf 0 [];
          (if opt = BACKUP_INVALID then do {
             ks \<leftarrow> lru_keys_oneshot (lru_backup s);
             Some (s, ret) }
           else do {
             let i = i + 1;
             let (k, i) = read_field (take (len - i) (drop i buf)) i [];
             let (v, i) = (if opt = SET_VALUE \<or> opt = SET_BACKUP_VALUE
                           then read_field (take (len - i) (drop i buf)) i [] else ([], i));
             let (cm, addr) = map_at [] cfd (connectedMap s);
             let (s, ok) = cache_append \<lparr>request_type = opt, client_addr = addr, req_key = k, req_value = v, req_cfd = cfd\<rparr>
                             (s\<lparr>connectedMap := cm\<rparr>);
             (if \<not> ok then Some (s, - 1) else Some (s, ret)) }) })"

text \<open>\<open>accept\<close> gives a descriptor and the address of the client; a negative number is an error.\<close>

definition cache_dealwithListenMsg :: "env \<Rightarrow> int \<Rightarrow> sockaddr_in \<Rightarrow> cache_server \<Rightarrow> cache_server \<times> int" where
  "cache_dealwithListenMsg e cfd addr s =
     (if cfd < 0 then (s, - 1)
      else let ip_port = sock_addr2str (little_endian e) addr
        in (s\<lparr>connectedMap := map_insert cfd ip_port (connectedMap s),
              cs_os := (cs_os s)\<lparr>open_fds := cfd # open_fds (cs_os s)\<rparr>\<rparr>, 0))"

section \<open>Worker threads and the event loop\<close>

definition cache_handle :: "env \<Rightarrow> request \<Rightarrow> cache_server \<Rightarrow> cache_server option" where
  "cache_handle e r s =
     (let opt = request_type r; k = req_key r; v = req_value r; cfd = req_cfd r in
      if opt = SET_VALUE then map_option fst (cache_setValue e k v s)
      else if opt = GET_VALUE then map_option fst (cache_getValue k cfd s)
      else if opt = SET_BACKUP_VALUE then map_option fst (cache_setBackupValue e k v s)
      else if opt = GET_BACKUP_VALUE then map_option fst (cache_getBackupValue k cfd s)
      else Some (s\<lparr>connectedMap := fst (map_at [] cfd (connectedMap s))\<rparr>))"

text \<open>One round of \<open>run\<close>: \<open>None\<close> is a fault, and the worker stays where it is when it has to wait.\<close>

definition cache_run :: "env \<Rightarrow> cache_server \<Rightarrow> cache_server option" where
  "cache_run e s =
     (case pool_next (m_pool s) of
        None \<Rightarrow> Some s
      | Some (p, None) \<Rightarrow> Some (s\<lparr>m_pool := p\<rparr>)
      | Some (p, Some r) \<Rightarrow> cache_handle e r (s\<lparr>m_pool := p\<rparr>))"

text \<open>
  What the event loop does with the descriptors that \<open>epoll_wait\<close> returned.  An event carries what
  the call of \<open>recv\<close> or \<open>accept\<close> in its handler will give.
\<close>

record event =
  ev_fd :: int
  ev_recv :: recv
  ev_stack :: "u8 list"
  ev_ret :: int
  ev_cfd :: int
  ev_addr :: sockaddr_in

definition cache_dispatch :: "env \<Rightarrow> event \<Rightarrow> cache_server \<Rightarrow> (cache_server \<times> int) option" where
  "cache_dispatch e ev s =
     (if ev_fd ev = master_sockfd s then cache_dealwithMasterMsg e (ev_ret ev) (ev_recv ev) s
      else if ev_fd ev = lfd s then Some (cache_dealwithListenMsg e (ev_cfd ev) (ev_addr ev) s)
      else cache_dealwithClientMsg (ev_stack ev) (ev_ret ev) (ev_fd ev) (ev_recv ev) s)"

fun cache_events :: "env \<Rightarrow> event list \<Rightarrow> cache_server \<Rightarrow> cache_server option" where
  "cache_events e [] s = Some s"
| "cache_events e (ev # evs) s = do {
     (s, ret) \<leftarrow> cache_dispatch e ev s;
     (if ret = - 1 then Some s else cache_events e evs s) }"

text \<open>
  The loop, as far as the results of \<open>epoll_wait\<close> go; nothing sets \<open>shutdown\<close>, so it returns only after an
  error.  \<open>None\<close> as the result is that it still runs.
\<close>

fun cache_eventLoop :: "env \<Rightarrow> event waited list \<Rightarrow> cache_server \<Rightarrow> (cache_server \<times> int option) option" where
  "cache_eventLoop e [] s = Some (s, None)"
| "cache_eventLoop e (WaitFailed # ws) s = Some (s, Some (- 1))"
| "cache_eventLoop e (Ready evs # ws) s = do { s \<leftarrow> cache_events e evs s; cache_eventLoop e ws s }"

end
