(* ===== verification/CacheTheorems.thy ===== *)
theory CacheTheorems
  imports CacheServer LruTheorems
begin

text \<open>
  What the cache server does: the replies to reads, the fate of a value that a client stores, the
  transfer to a backup server, the migration of data, the rebuilding of the ring, and the event loop.
\<close>

section \<open>What the steps leave alone\<close>

text \<open>
  \<open>keeps_net s s'\<close>: the step queues no request and watches no further descriptor.
\<close>

definition keeps_net :: "cache_server \<Rightarrow> cache_server \<Rightarrow> bool" where
  "keeps_net s s' \<longleftrightarrow> m_pool s' = m_pool s \<and> master_sockfd s' = master_sockfd s \<and> lfd s' = lfd s \<and>
     set (epoll_fds (cs_os s')) \<subseteq> set (epoll_fds (cs_os s))"

lemma keeps_net_refl [simp]: "keeps_net s s"
  by (simp add: keeps_net_def)

lemma keeps_net_trans: "keeps_net s s' \<Longrightarrow> keeps_net s' s'' \<Longrightarrow> keeps_net s s''"
  by (auto simp: keeps_net_def)

lemmas os_defs = os_socket_def os_close_def os_send_def os_epoll_add_def os_epoll_del_def Let_def

lemma os_keeps [simp]:
  "epoll_fds (fst (os_socket o1)) = epoll_fds o1"
  "epoll_fds (fst (os_send fd d o1)) = epoll_fds o1"
  "set (epoll_fds (os_close fd o1)) = set (epoll_fds o1) - {fd}"
  by (auto simp: os_defs)

lemma os_shrinks:
  "x \<in> set (epoll_fds (fst (os_epoll_del fd o1))) \<Longrightarrow> x \<in> set (epoll_fds o1)"
  by (auto simp: os_defs split: if_splits)

lemmas keeps_simps = keeps_net_def bind_eq_Some_conv split_beta Let_def

lemma keeps_epollDelfd: "cache_epollDelfd fd s = Some (s', r) \<Longrightarrow> keeps_net s s'"
  by (auto simp: cache_epollDelfd_def keeps_simps split: if_splits dest: os_shrinks)

lemma keeps_updateHash: "cache_updateHash e ips s = Some (s', r) \<Longrightarrow> keeps_net s s'"
  unfolding cache_updateHash_def by (auto elim!: bind_eq_SomeE simp: keeps_net_def)

lemma keeps_send_backup: "send_backup cfd ks s = Some s' \<Longrightarrow> keeps_net s s'"
proof (induction ks arbitrary: s)
  case (Cons k ks)
  from Cons.prems obtain t buf where
    "send_backup cfd ks (s\<lparr>lru := t, cs_os := fst (os_send cfd buf (cs_os s))\<rparr>) = Some s'"
    by (auto elim!: bind_eq_SomeE simp: split_beta Let_def)
  from Cons.IH [OF this] show ?case by (simp add: keeps_net_def)
qed simp

lemma keeps_update: "cache_update e ip s = Some s' \<Longrightarrow> keeps_net s s'"
  unfolding cache_update_def
  by (auto simp: split_beta Let_def keeps_net_def elim!: bind_eq_SomeE split: if_splits dest!: keeps_send_backup)
    (blast dest: subsetD)

lemma keeps_move_key: "move_key e k s = Some (s', b) \<Longrightarrow> keeps_net s s'"
  unfolding move_key_def
  by (auto simp: split_beta Let_def keeps_net_def elim!: bind_eq_SomeE split: if_split_asm dest: os_shrinks)

lemma keeps_move_keys: "move_keys e ks s = Some s' \<Longrightarrow> keeps_net s s'"
proof (induction e ks s rule: move_keys.induct)
  case (2 e k ks s)
  from 2(2) obtain s1 b where s1: "move_key e k s = Some (s1, b)"
    "(if b then move_keys e ks s1 else Some s1) = Some s'" by (auto simp: bind_eq_Some_conv)
  have "keeps_net s1 s'" using 2(1) s1 by (cases b) auto
  with keeps_move_key [OF s1(1)] show ?case by (rule keeps_net_trans)
qed simp

lemma keeps_move: "cache_move e s = Some s' \<Longrightarrow> keeps_net s s'"
  by (auto simp: cache_move_def bind_eq_Some_conv dest!: keeps_move_keys split: if_splits)
    (auto simp: keeps_net_def)

lemma keeps_task: "run_task e t s = Some s' \<Longrightarrow> keeps_net s s'"
  by (cases t) (auto dest: keeps_move keeps_update)

lemma keeps_master_msg: "cache_dealwithMasterMsg e ret r s = Some (s', x) \<Longrightarrow> keeps_net s s'"
  by (auto simp: cache_dealwithMasterMsg_def cache_recoverBackup_def bind_eq_Some_conv split_beta Let_def
      split: recv.splits if_splits dest!: keeps_epollDelfd keeps_updateHash)
    (auto simp: keeps_net_def)

section \<open>The event loop\<close>

text \<open>
  One step of the server: the event loop handles what \<open>epoll_wait\<close> reported on descriptors that are
  watched, a worker goes through its loop once, or a detached thread runs.
\<close>

inductive cache_trans :: "env \<Rightarrow> cache_server \<Rightarrow> cache_server \<Rightarrow> bool" for e :: env where
  cache_trans_events: "\<forall>ev \<in> set evs. ev_fd ev \<in> set (epoll_fds (cs_os s)) \<Longrightarrow> cache_events e evs s = Some s' \<Longrightarrow>
     cache_trans e s s'"
| cache_trans_worker: "cache_run e s = Some s' \<Longrightarrow> cache_trans e s s'"
| cache_trans_task: "tasks s = ts @ t # us \<Longrightarrow> run_task e t (s\<lparr>tasks := ts @ us\<rparr>) = Some s' \<Longrightarrow> cache_trans e s s'"

inductive cache_reach :: "env \<Rightarrow> cache_server \<Rightarrow> cache_server \<Rightarrow> bool" for e :: env and s0 :: cache_server where
  cache_reach_start: "cache_reach e s0 s0"
| cache_reach_step: "cache_reach e s0 s \<Longrightarrow> cache_trans e s s' \<Longrightarrow> cache_reach e s0 s'"

text \<open>The invariant: nothing but the two listening ends is watched and no request waits.\<close>

definition no_clients :: "cache_server \<Rightarrow> bool" where
  "no_clients s \<longleftrightarrow> set (epoll_fds (cs_os s)) \<subseteq> {master_sockfd s, lfd s} \<and> m_pool s = \<lparr>workqueue = [], queuestat = 0\<rparr>"

lemma no_clients_keeps: "keeps_net s s' \<Longrightarrow> no_clients s \<Longrightarrow> no_clients s'"
  by (auto simp: keeps_net_def no_clients_def)

lemma dispatch_keeps:
  assumes "cache_dispatch e ev s = Some (s', r)" and "ev_fd ev \<in> {master_sockfd s, lfd s}"
  shows "keeps_net s s'"
  using assms keeps_master_msg [of e "ev_ret ev" "ev_recv ev" s s' r]
  by (auto simp: cache_dispatch_def cache_dealwithListenMsg_def keeps_net_def Let_def split: if_splits)

lemma events_keep:
  assumes "cache_events e evs s = Some s'" and "\<forall>ev \<in> set evs. ev_fd ev \<in> {master_sockfd s, lfd s}"
  shows "keeps_net s s'"
  using assms
proof (induction e evs s rule: cache_events.induct)
  case (2 e ev evs s)
  from 2(2) obtain s1 r where s1: "cache_dispatch e ev s = Some (s1, r)"
    "(if r = - 1 then Some s1 else cache_events e evs s1) = Some s'" by (auto simp: bind_eq_Some_conv)
  have k: "keeps_net s s1" using dispatch_keeps [OF s1(1)] 2(3) by simp
  then have "\<forall>ev \<in> set evs. ev_fd ev \<in> {master_sockfd s1, lfd s1}" using 2(3) by (auto simp: keeps_net_def)
  with 2(1) s1 have "keeps_net s1 s'" by (cases "r = - 1") auto
  with k show ?case by (rule keeps_net_trans)
qed simp

lemma no_clients_trans:
  assumes "cache_trans e s s'" and "no_clients s"
  shows "no_clients s'"
  using assms(1)
proof cases
  case (cache_trans_events evs)
  have "\<forall>ev \<in> set evs. ev_fd ev \<in> {master_sockfd s, lfd s}"
    using cache_trans_events(1) assms(2) by (auto simp: no_clients_def)
  from no_clients_keeps [OF events_keep [OF cache_trans_events(2) this] assms(2)] show ?thesis .
next
  case cache_trans_worker
  with assms(2) show ?thesis by (simp add: cache_run_def pool_next_def pool_wait_def no_clients_def)
next
  case (cache_trans_task ts t us)
  have "no_clients (s\<lparr>tasks := ts @ us\<rparr>)" using assms(2) by (simp add: no_clients_def)
  with keeps_task [OF cache_trans_task(2)] show ?thesis by (rule no_clients_keeps)
qed

text \<open>Rounds of the event loop are steps, when the events are on watched descriptors.\<close>

fun waits_ok :: "env \<Rightarrow> event waited list \<Rightarrow> cache_server \<Rightarrow> bool" where
  "waits_ok e (Ready evs # ws) s \<longleftrightarrow>
     (\<forall>ev \<in> set evs. ev_fd ev \<in> set (epoll_fds (cs_os s))) \<and>
     (case cache_events e evs s of None \<Rightarrow> True | Some s \<Rightarrow> waits_ok e ws s)"
| "waits_ok e ws s = True"

lemma cache_loop_reach:
  "cache_reach e s0 s \<Longrightarrow> waits_ok e ws s \<Longrightarrow> cache_eventLoop e ws s = Some (s', x) \<Longrightarrow> cache_reach e s0 s'"
proof (induction e ws s rule: cache_eventLoop.induct)
  case (3 e evs ws s)
  from 3(4) obtain s1 where s1: "cache_events e evs s = Some s1" "cache_eventLoop e ws s1 = Some (s', x)"
    by (auto simp: bind_eq_Some_conv)
  from 3(3) s1(1) have ok: "\<forall>ev \<in> set evs. ev_fd ev \<in> set (epoll_fds (cs_os s))" "waits_ok e ws s1" by simp_all
  from 3(1) [OF s1(1) cache_reach_step [OF 3(2) cache_trans_events [OF ok(1) s1(1)]] ok(2) s1(2)] show ?case .
qed simp_all

lemma no_clients_reach: "cache_reach e s0 s \<Longrightarrow> no_clients s0 \<Longrightarrow> no_clients s"
  by (induction rule: cache_reach.induct) (auto dest: no_clients_trans)

section \<open>The tables\<close>

definition table_reply :: "cstr \<Rightarrow> (cstr, cstr) lru_list \<Rightarrow> cstr" where
  "table_reply k xs =
     (case entry_of k xs of
        None \<Rightarrow> DATA_NOT_EXIST
      | Some d \<Rightarrow> if ldirty d then DIRTY_DATA else GET_SUCCESS @ 10 # lval d)"

definition is_dirty_in :: "cstr \<Rightarrow> (cstr, cstr) lru_list \<Rightarrow> bool" where
  "is_dirty_in k xs \<longleftrightarrow> (\<exists>d. entry_of k xs = Some d \<and> ldirty d)"

lemma distinct_keys: "lru_rel t xs \<Longrightarrow> distinct (map lkey xs)"
  unfolding lru_rel_def lru_pairs_def by (auto simp: comp_def)

lemma dirty_test:
  assumes "lru_rel t xs"
  shows "(if hasKey k t then is_dirty k t else Some False) = Some (is_dirty_in k xs)"
  using hasKey_entry [OF assms, of k] dirty_runs [OF assms, of k]
  by (auto simp: is_dirty_in_def split: option.splits)

lemma read_table_runs:
  assumes "lru_rel t xs"
  shows "\<exists>t'. read_table k t = Some (t', table_reply k xs) \<and>
     lru_rel t' (if is_dirty_in k xs then xs else spec_touch k xs) \<and> lcap t' = lcap t"
proof (cases "entry_of k xs")
  case None
  with assms hasKey_entry [OF assms, of k] show ?thesis
    by (simp add: read_table_def table_reply_def is_dirty_in_def spec_touch_def)
next
  case (Some d)
  with get_runs [OF assms Some] obtain t' where
    "lru_get k t = Some (t', lval d)" "lru_rel t' (spec_touch k xs)" "lcap t' = lcap t" by blast
  with assms hasKey_entry [OF assms, of k] dirty_test [OF assms, of k] Some show ?thesis
    by (auto simp: read_table_def table_reply_def is_dirty_in_def)
qed

lemma write_table_runs:
  assumes "lru_rel t xs" and "new_ok al" and "lcap t \<noteq> 0"
  shows "\<exists>t'. write_table al k v t = Some t' \<and>
     lru_rel t' (if is_dirty_in k xs then xs else spec_set (lcap t) k v xs) \<and> lcap t' = lcap t"
  using set_runs [OF assms, of k v] dirty_test [OF assms(1), of k] assms(1)
  by (auto simp: write_table_def)

lemma entry_of_set: "entry_of k (spec_set c k v xs) = Some \<lparr>lkey = k, lval = v, ldirty = False\<rparr>"
proof -
  have "find (\<lambda>d. lkey d = k) (zs @ [\<lparr>lkey = k, lval = v, ldirty = False\<rparr>]) = Some \<lparr>lkey = k, lval = v, ldirty = False\<rparr>"
    if "k \<notin> lkey ` set zs" for zs
    using that by (induction zs) auto
  moreover have "k \<notin> lkey ` set (without k xs)" by (auto simp: without_def)
  moreover have "k \<notin> lkey ` set (tl xs)" if "k \<notin> lkey ` set xs" using that by (cases xs) auto
  ultimately show ?thesis by (auto simp: spec_set_def entry_of_def [symmetric] entry_of_iff)
qed

text \<open>Replies as the client sees them.\<close>

lemma code_no_zero: "0 \<notin> set GET_SUCCESS" "0 \<notin> set DIRTY_DATA" "0 \<notin> set DATA_NOT_EXIST" "0 \<notin> set SET_BACKUP_VALUE"
    "0 \<notin> set SET_VALUE"
  by code_simp+

lemma code_length: "length GET_SUCCESS = 11" "length DIRTY_DATA = 10" "length DATA_NOT_EXIST = 14"
    "length SET_BACKUP_VALUE = 16" "length SET_VALUE = 9" "length BACKUP_INVALID = 14"
  by code_simp+

lemma code_no_newline: "10 \<notin> set SET_VALUE" "10 \<notin> set UPDATE_HASH" "10 \<notin> set UPDATE_BACKUP" "10 \<notin> set RECOVER_BACKUP" "10 \<notin> set MOVE_DATA"
  by code_simp+

lemma code_neq: "SET_VALUE \<noteq> BACKUP_INVALID" "UPDATE_HASH \<noteq> MOVE_DATA" "UPDATE_BACKUP \<noteq> MOVE_DATA" "UPDATE_BACKUP \<noteq> UPDATE_HASH"
    "RECOVER_BACKUP \<noteq> MOVE_DATA" "RECOVER_BACKUP \<noteq> UPDATE_HASH" "RECOVER_BACKUP \<noteq> UPDATE_BACKUP"
  by code_simp+

lemma send_open: "fd \<in> set (open_fds o1) \<Longrightarrow> os_send fd d o1 = (o1\<lparr>sent := sent o1 @ [(fd, d)]\<rparr>, int (length d))"
  by (simp add: os_send_def)

lemma getValue_runs:
  assumes "lru_rel (lru s) xs" and "cfd \<in> set (open_fds (cs_os s))" and "length (c_str (table_reply k xs)) < 1024"
  shows "\<exists>s'. cache_getValue k cfd s = Some (s', 0) \<and>
     sent (cs_os s') = sent (cs_os s) @ [(cfd, c_str (table_reply k xs))] \<and>
     lru_rel (lru s') (if is_dirty_in k xs then xs else spec_touch k xs)"
proof -
  obtain t' where "read_table k (lru s) = Some (t', table_reply k xs)"
    "lru_rel t' (if is_dirty_in k xs then xs else spec_touch k xs)"
    using read_table_runs [OF assms(1)] by blast
  with assms(2,3) show ?thesis by (simp add: cache_getValue_def to_buf_def buf_size_def send_open)
qed

lemma setValue_runs:
  assumes "lru_rel (lru s) xs" and "new_ok (new_obj e)" and "lcap (lru s) \<noteq> 0"
  shows "\<exists>t'. cache_setValue e k v s = Some (s\<lparr>lru := t'\<rparr>, 0) \<and> lcap t' = lcap (lru s) \<and>
     lru_rel t' (if is_dirty_in k xs then xs else spec_set (lcap (lru s)) k v xs)"
  using write_table_runs [OF assms, of k v] by (auto simp: cache_setValue_def)

lemma reply_after_set: "\<not> is_dirty_in k xs \<Longrightarrow> 0 \<notin> set v \<Longrightarrow> c_str (table_reply k (spec_set c k v xs)) = GET_SUCCESS @ 10 # v"
  using code_no_zero(1) by (simp add: table_reply_def entry_of_set c_str_id)

lemma reply_dirty: "is_dirty_in k xs \<Longrightarrow> c_str (table_reply k xs) = DIRTY_DATA"
  using code_no_zero(2) by (auto simp: table_reply_def is_dirty_in_def c_str_id)

section \<open>Properties of the tables\<close>

text \<open>
  C31. A value that is stored is what a read of its key replies, unless the key is marked dirty: then
  the value is dropped and the reply says so.
\<close>

theorem cache_set_then_get:
  assumes "lru_rel (lru s) xs" and "new_ok (new_obj e)" and "lcap (lru s) \<noteq> 0"
    and "cfd \<in> set (open_fds (cs_os s))" and "0 \<notin> set v" and "length v \<le> 1011"
  shows "\<exists>s1 s2. cache_setValue e k v s = Some (s1, 0) \<and> cache_getValue k cfd s1 = Some (s2, 0) \<and>
     sent (cs_os s2) = sent (cs_os s) @
       [(cfd, if \<exists>d. entry_of k xs = Some d \<and> ldirty d then DIRTY_DATA else GET_SUCCESS @ 10 # v)]"
proof -
  obtain t where t: "cache_setValue e k v s = Some (s\<lparr>lru := t\<rparr>, 0)"
    "lru_rel t (if is_dirty_in k xs then xs else spec_set (lcap (lru s)) k v xs)"
    using setValue_runs [OF assms(1-3)] by blast
  let ?ys = "if is_dirty_in k xs then xs else spec_set (lcap (lru s)) k v xs"
  have r: "c_str (table_reply k ?ys) = (if is_dirty_in k xs then DIRTY_DATA else GET_SUCCESS @ 10 # v)"
    using reply_dirty reply_after_set assms(5) by simp
  then have "length (c_str (table_reply k ?ys)) < 1024" using assms(6) by (simp add: code_length)
  with getValue_runs [of "s\<lparr>lru := t\<rparr>" ?ys cfd k] t(2) assms(4) r obtain s2 where
    "cache_getValue k cfd (s\<lparr>lru := t\<rparr>) = Some (s2, 0)"
    "sent (cs_os s2) = sent (cs_os s) @ [(cfd, if is_dirty_in k xs then DIRTY_DATA else GET_SUCCESS @ 10 # v)]" by auto
  with t(1) show ?thesis unfolding is_dirty_in_def by blast
qed

section \<open>Requests of clients\<close>

lemma take_to_len: "take (length msg - i) (drop i (fill_buf stack msg)) = drop i msg"
  by (simp add: fill_buf_def take_drop [symmetric])

text \<open>A message of three lines: the request has the first two and an empty value.\<close>

lemma client_msg_runs:
  assumes "opt = SET_VALUE \<or> opt = SET_BACKUP_VALUE" and "10 \<notin> set opt" and "opt \<noteq> BACKUP_INVALID" and "10 \<notin> set k"
    and "msg = opt @ 10 # k @ 10 # v" and "length (workqueue (m_pool s)) < m_max_requests"
  shows "\<exists>cm addr. cache_dealwithClientMsg stack ret cfd (Received msg) s =
     Some (s\<lparr>connectedMap := cm,
             m_pool := (m_pool s)\<lparr>workqueue := workqueue (m_pool s) @
                 [\<lparr>request_type = opt, client_addr = addr, req_key = k, req_value = [], req_cfd = cfd\<rparr>],
               queuestat := queuestat (m_pool s) + 1\<rparr>\<rparr>, ret)"
proof -
  obtain cm addr where cm: "map_at [] cfd (connectedMap s) = (cm, addr)" by (cases "map_at [] cfd (connectedMap s)")
  have line: "read_line (fill_buf stack msg) 0 [] = Some (opt, length opt)"
    using read_line_found [OF assms(2), of "(k @ 10 # v) @ drop (length msg) stack" 0 "[]"] by (simp add: fill_buf_def assms(5))
  have d: "drop (length opt + 1) msg = k @ 10 # v" "drop (length opt + 1 + length k) msg = 10 # v"
    unfolding assms(5) by simp_all
  then have "read_field (take (length msg - (length opt + 1)) (drop (length opt + 1) (fill_buf stack msg))) (length opt + 1) [] =
        (k, length opt + 1 + length k)"
    "read_field (take (length msg - (length opt + 1 + length k)) (drop (length opt + 1 + length k) (fill_buf stack msg)))
        (length opt + 1 + length k) [] = ([], length opt + 1 + length k)"
    using read_field_found [OF assms(4)] by (simp_all only: take_to_len) auto
  with assms(3,6) line cm show ?thesis
    by (intro exI [of _ cm] exI [of _ addr])
      (simp add: cache_dealwithClientMsg_def assms(1) cache_append_def pool_append_def pool_push_def pool_post_def Let_def)
qed

text \<open>
  C32. No value arrives: the line feed after the key is never skipped, so that the request of a
  client that stores a value carries the empty value.  After a worker has handled it a read of the
  key replies success with nothing behind it.
\<close>

theorem cache_set_loses_value:
  assumes "lru_rel (lru s) xs" and "new_ok (new_obj e)" and "lcap (lru s) \<noteq> 0" and "\<not> (\<exists>d. entry_of k xs = Some d \<and> ldirty d)"
    and "10 \<notin> set k" and "m_pool s = \<lparr>workqueue = [], queuestat = 0\<rparr>" and "cfd \<in> set (open_fds (cs_os s))"
  shows "\<exists>s1 s2 s3. cache_dealwithClientMsg stack ret cfd (Received (SET_VALUE @ 10 # k @ 10 # v)) s = Some (s1, ret) \<and>
     cache_run e s1 = Some s2 \<and> cache_getValue k cfd s2 = Some (s3, 0) \<and>
     sent (cs_os s3) = sent (cs_os s) @ [(cfd, GET_SUCCESS @ [10])]"
proof -
  obtain cm addr where msg: "cache_dealwithClientMsg stack ret cfd (Received (SET_VALUE @ 10 # k @ 10 # v)) s =
     Some (s\<lparr>connectedMap := cm, m_pool := \<lparr>workqueue =
        [\<lparr>request_type = SET_VALUE, client_addr = addr, req_key = k, req_value = [], req_cfd = cfd\<rparr>], queuestat = 1\<rparr>\<rparr>, ret)"
    using client_msg_runs [of SET_VALUE k _ v s stack ret cfd] code_no_newline(1) code_neq(1) assms(5,6)
    by (auto simp: m_max_requests_def)
  have nd: "\<not> is_dirty_in k xs" using assms(4) by (simp add: is_dirty_in_def)
  let ?s = "s\<lparr>connectedMap := cm, m_pool := \<lparr>workqueue = [], queuestat = 0\<rparr>\<rparr>"
  from setValue_runs [of ?s xs e k "[]"] assms(1-3) nd obtain t where
    t: "cache_setValue e k [] ?s = Some (?s\<lparr>lru := t\<rparr>, 0)" "lru_rel t (spec_set (lcap (lru s)) k [] xs)" by auto
  have run: "cache_run e (s\<lparr>connectedMap := cm, m_pool := \<lparr>workqueue =
        [\<lparr>request_type = SET_VALUE, client_addr = addr, req_key = k, req_value = [], req_cfd = cfd\<rparr>], queuestat = 1\<rparr>\<rparr>) = Some (?s\<lparr>lru := t\<rparr>)"
    using t(1) by (simp add: cache_run_def pool_next_def pool_wait_def pool_take_def cache_handle_def)
  have r: "c_str (table_reply k (spec_set (lcap (lru s)) k [] xs)) = GET_SUCCESS @ [10]"
    using reply_after_set [OF nd, of "[]"] by simp
  with getValue_runs [of "?s\<lparr>lru := t\<rparr>" "spec_set (lcap (lru s)) k [] xs" cfd k] t(2) assms(7) obtain s3 where
    "cache_getValue k cfd (?s\<lparr>lru := t\<rparr>) = Some (s3, 0)" "sent (cs_os s3) = sent (cs_os s) @ [(cfd, GET_SUCCESS @ [10])]"
    by (auto simp: code_length)
  with msg run show ?thesis by blast
qed

section \<open>Backups\<close>

lemma touch_first: "distinct (map lkey (d # ws)) \<Longrightarrow> spec_touch (lkey d) (d # ws) = ws @ [d]"
proof -
  assume "distinct (map lkey (d # ws))"
  then have "lkey d \<notin> lkey ` set ws" by simp
  then have "filter (\<lambda>x. lkey x \<noteq> lkey d) ws = ws" by (intro filter_True) (metis imageI)
  then show ?thesis by (simp add: spec_touch_def entry_of_def without_def)
qed

text \<open>The message for an entry.\<close>

definition backup_msg :: "(cstr, cstr) lru_data \<Rightarrow> cstr" where
  "backup_msg d = SET_BACKUP_VALUE @ [10] @ c_str (lkey d) @ [10] @ c_str (lval d)"

lemma send_backup_runs:
  assumes "lru_rel (lru s) (vs @ us)" and "cfd \<in> set (open_fds (cs_os s))" and "\<forall>d \<in> set vs. length (backup_msg d) < 1024"
  shows "\<exists>t. lru_rel t (us @ vs) \<and> send_backup cfd (map lkey vs) s =
     Some (s\<lparr>lru := t, cs_os := (cs_os s)\<lparr>sent := sent (cs_os s) @ map (\<lambda>d. (cfd, backup_msg d)) vs\<rparr>\<rparr>)"
  using assms
proof (induction vs arbitrary: us s)
  case Nil
  then show ?case by (intro exI [of _ "lru s"]) simp
next
  case (Cons d vs)
  have e: "entry_of (lkey d) ((d # vs) @ us) = Some d" by (simp add: entry_of_def)
  have "spec_touch (lkey d) ((d # vs) @ us) = vs @ us @ [d]"
    using touch_first [of d "vs @ us"] distinct_keys [OF Cons.prems(1)] by simp
  with get_runs [OF Cons.prems(1) e] obtain t where
    t: "lru_get (lkey d) (lru s) = Some (t, lval d)" "lru_rel t (vs @ us @ [d])" by auto
  let ?s = "s\<lparr>lru := t, cs_os := (cs_os s)\<lparr>sent := sent (cs_os s) @ [(cfd, backup_msg d)]\<rparr>\<rparr>"
  from Cons.IH [of ?s "us @ [d]"] t(2) Cons.prems(2,3) obtain t' where
    "lru_rel t' (us @ d # vs)" "send_backup cfd (map lkey vs) ?s =
      Some (?s\<lparr>lru := t', cs_os := (cs_os ?s)\<lparr>sent := sent (cs_os ?s) @ map (\<lambda>d. (cfd, backup_msg d)) vs\<rparr>\<rparr>)" by auto
  moreover have "to_buf (SET_BACKUP_VALUE @ [10] @ c_str (lkey d) @ [10] @ c_str (lval d)) = Some (backup_msg d)"
    using Cons.prems(3) by (simp add: to_buf_def buf_size_def backup_msg_def)
  ultimately show ?case
    using t(1) Cons.prems(2) by (intro exI [of _ t']) (simp add: send_open)
qed

text \<open>
  C33. The thread that renews a backup tells the backup server first that its copy is invalid and
  then sends every entry, from the least recently used on, and leaves the order of use as it was.  If
  the server cannot be reached it sends nothing.
\<close>

theorem cache_update_sends_all:
  assumes "lru_rel (lru s) xs" and "str2sock_addr (little_endian e) (junk_addr e) ip_port = Some a"
    and "os_socket (cs_os s) = (o1, cfd)" and "\<forall>d \<in> set xs. length (backup_msg d) < 1024"
  shows "\<exists>s'. cache_update e ip_port s = Some s' \<and> lru_rel (lru s') xs \<and>
     sent (cs_os s') = sent (cs_os s) @
       (if reachable e a then (cfd, BACKUP_INVALID) # map (\<lambda>d. (cfd, backup_msg d)) xs else [])"
proof -
  have o1: "cfd \<in> set (open_fds o1)" "sent o1 = sent (cs_os s)"
    using assms(3) by (auto simp: os_socket_def Let_def)
  show ?thesis
  proof (cases "reachable e a")
    case False
    with assms(1-3) o1 show ?thesis by (simp add: cache_update_def os_connect_def)
  next
    case True
    let ?s = "s\<lparr>cs_os := o1\<lparr>sent := sent o1 @ [(cfd, BACKUP_INVALID)]\<rparr>\<rparr>"
    from send_backup_runs [of ?s xs "[]" cfd] assms(1,4) o1(1) obtain t where
      "lru_rel t xs" "send_backup cfd (map lkey xs) ?s =
        Some (?s\<lparr>lru := t, cs_os := (cs_os ?s)\<lparr>sent := sent (cs_os ?s) @ map (\<lambda>d. (cfd, backup_msg d)) xs\<rparr>\<rparr>)" by auto
    with True assms(2,3) o1 keys_runs [OF assms(1)] show ?thesis
      by (simp add: cache_update_def os_connect_def to_buf_def buf_size_def code_length send_open)
  qed
qed

section \<open>Migration\<close>

text \<open>
  A descriptor that was closed cannot be connected, so that the first key that belongs elsewhere
  ends the loop.
\<close>

lemma connect_closed: "os_connect reach fd a (os_close fd o1) = - 1"
  by (simp add: os_connect_def os_close_def)

lemma move_key_runs:
  assumes "lru_rel (lru s) xs" and "cacheServerHash s = Some c" and "servers_ok b c f M" and "card (dom M) < 2 ^ 32"
    and "dom M \<noteq> {}" and "\<forall>n \<in> ran M. n \<noteq> local_addr s \<and> n \<noteq> [] \<and> str2sock_addr (little_endian e) (junk_addr e) n \<noteq> None"
  shows "\<exists>s'. move_key e k s = Some (s', entry_of k xs = None) \<and> sent (cs_os s') = sent (cs_os s) \<and>
     lru_rel (lru s') (spec_touch k xs) \<and> lru_backup s' = lru_backup s \<and> move_state s' = move_state s \<and>
     cacheServerHash s' = cacheServerHash s \<and> local_addr s' = local_addr s"
proof (cases "entry_of k xs")
  case None
  with assms(1) hasKey_entry [OF assms(1), of k] show ?thesis
    by (simp add: move_key_def spec_touch_def os_defs)
next
  case (Some d)
  from get_runs [OF assms(1) Some] obtain t where t: "lru_get k (lru s) = Some (t, lval d)" "lru_rel t (spec_touch k xs)" by blast
  have h: "hasKey k (lru s)" using hasKey_entry [OF assms(1), of k] Some by simp
  let ?n = "server_at M (f (c_str k))"
  have n: "conhash_get_CacheServer c k = Some ?n" by (rule con_hash_get_runs [OF assms(3,4)])
  have "?n \<in> ran M" by (rule server_at_owner(2) [OF assms(3,5)])
  with assms(6) have "?n \<noteq> local_addr s" "?n \<noteq> []" "str2sock_addr (little_endian e) (junk_addr e) ?n \<noteq> None" by auto
  with t h n assms(2) Some show ?thesis
    by (auto simp: move_key_def split_beta Let_def connect_closed) (simp_all add: os_defs)
qed

definition touched :: "(cstr, cstr) lru_list \<Rightarrow> (cstr, cstr) lru_list \<Rightarrow> bool" where
  "touched xs ys \<longleftrightarrow> ys = xs \<or> (\<exists>k. ys = spec_touch k xs)"

lemma move_keys_runs:
  assumes "lru_rel (lru s) xs" and "cacheServerHash s = Some c" and "servers_ok b c f M" and "card (dom M) < 2 ^ 32"
    and "dom M \<noteq> {}" and "\<forall>n \<in> ran M. n \<noteq> local_addr s \<and> n \<noteq> [] \<and> str2sock_addr (little_endian e) (junk_addr e) n \<noteq> None"
  shows "\<exists>s' ys. move_keys e ks s = Some s' \<and> sent (cs_os s') = sent (cs_os s) \<and> lru_rel (lru s') ys \<and> touched xs ys \<and>
     lru_backup s' = lru_backup s \<and> move_state s' = move_state s"
  using assms(1,2,6)
proof (induction ks arbitrary: s)
  case Nil
  then show ?case by (auto simp: touched_def)
next
  case (Cons k ks)
  obtain s1 where s1: "move_key e k s = Some (s1, entry_of k xs = None)" "sent (cs_os s1) = sent (cs_os s)"
    "lru_rel (lru s1) (spec_touch k xs)" "lru_backup s1 = lru_backup s" "move_state s1 = move_state s"
    "cacheServerHash s1 = cacheServerHash s" "local_addr s1 = local_addr s"
    using move_key_runs [OF Cons.prems(1,2) assms(3-5) Cons.prems(3), of k] by blast
  show ?case
  proof (cases "entry_of k xs")
    case None
    then have "lru_rel (lru s1) xs" using s1(3) by (simp add: spec_touch_def)
    from Cons.IH [OF this] s1 Cons.prems(2,3) None show ?thesis by auto
  next
    case (Some d)
    with s1 show ?thesis by (auto simp: touched_def)
  qed
qed

text \<open>
  C34. Migration moves nothing: the descriptor is closed before it is connected, so that the loop ends
  at the first key that belongs to another server.  Nothing is sent, no key is marked, and
  at most one key changes its place in the order of use; for the recovery of a backup too, which
  in addition looks for the keys in the wrong table and then declares the backup invalid.
\<close>

theorem cache_move_moves_nothing:
  assumes "lru_rel (lru s) xs" and "lru_rel (lru_backup s) zs" and "cacheServerHash s = Some c" and "servers_ok b c f M"
    and "card (dom M) < 2 ^ 32" and "dom M \<noteq> {}"
    and "\<forall>n \<in> ran M. n \<noteq> local_addr s \<and> n \<noteq> [] \<and> str2sock_addr (little_endian e) (junk_addr e) n \<noteq> None"
  shows "\<exists>s' ys. cache_move e s = Some s' \<and> sent (cs_os s') = sent (cs_os s) \<and>
     lru_rel (lru s') ys \<and> (ys = xs \<or> (\<exists>k. ys = spec_touch k xs)) \<and> lru_backup s' = lru_backup s \<and>
     (move_state s \<noteq> 0 \<longrightarrow> move_state s' = 0 \<and> backup_invalid s' = 1)"
proof -
  let ?ks = "map lkey (if move_state s = 0 then xs else zs)"
  from move_keys_runs [OF assms(1,3-7), of ?ks] obtain s1 ys where s1: "move_keys e ?ks s = Some s1"
    "sent (cs_os s1) = sent (cs_os s)" "lru_rel (lru s1) ys" "touched xs ys" "lru_backup s1 = lru_backup s" "move_state s1 = move_state s"
    by blast
  have "(if move_state s = 0 then lru_keys_oneshot (lru s) else lru_keys_oneshot (lru_backup s)) = Some ?ks"
    using keys_runs [OF assms(1)] keys_runs [OF assms(2)] by simp
  then have "cache_move e s = Some (if move_state s = 0 then s1 else s1\<lparr>move_state := 0, backup_invalid := 1\<rparr>)"
    using s1(1,6) by (simp add: cache_move_def)
  then show ?thesis
    using s1(2-5) unfolding touched_def by (intro exI [of _ ys] exI conjI) (assumption | simp)+
qed

section \<open>The ring\<close>

lemma add_servers_runs:
  assumes "servers_ok True c f M" and "env_ok e" and "\<forall>n \<in> set ns. name_ok n \<and> nodes_map c n = None" and "distinct ns"
  shows "\<exists>c'. add_servers e ns c = Some c' \<and> servers_ok True c' f (fold (\<lambda>n M. add_keys n (server_pos f n) M) ns M) \<and>
     dom (nodes_map c') = set ns \<union> dom (nodes_map c)"
  using assms(1,3,4)
proof (induction ns arbitrary: c M)
  case Nil
  then show ?case by simp
next
  case (Cons n ns)
  from con_hash_add_runs [OF Cons.prems(1), of n "new_obj e" "malloc_of e" "junk_node e"] Cons.prems(2) assms(2)
  obtain c1 where c1: "conhash_add_CacheServer (new_obj e) (malloc_of e) (junk_node e) n c = Some c1"
    "servers_ok True c1 f (add_keys n (server_pos f n) M)" "dom (nodes_map c1) = insert n (dom (nodes_map c))"
    by (auto simp: env_ok_def name_ok_def)
  have "\<forall>m \<in> set ns. name_ok m \<and> nodes_map c1 m = None"
  proof
    fix m
    assume m: "m \<in> set ns"
    then have "m \<noteq> n" "nodes_map c m = None" "name_ok m" using Cons.prems(2,3) by auto
    then have "m \<notin> dom (nodes_map c1)" unfolding c1(3) by auto
    with \<open>name_ok m\<close> show "name_ok m \<and> nodes_map c1 m = None" by auto
  qed
  with Cons.IH [OF c1(2)] Cons.prems(3) c1(1,3) show ?case by auto
qed

lemma con_hash_delete_runs: "servers_ok b c f M \<Longrightarrow> \<exists>c'. con_hash_delete c = Some c'"
proof -
  assume "servers_ok b c f M"
  then obtain xs where "ring_rel b (conhash c) xs (nodes_map c \<circ>\<^sub>m M)"
    using servers_okD(1) by (fastforce simp: ring_state_def)
  then obtain ch where ch: "chash (conhash c) = Some ch" "tree_ok b (vnode_tree ch) xs" "entries_ok xs (vnodes (conhash c)) (nodes_map c \<circ>\<^sub>m M)"
    by (rule ring_relE)
  from fini_loop_runs [OF this] ch(1) show ?thesis by (auto simp: con_hash_delete_def conhash_fini_def)
qed

lemma updateHash_runs:
  assumes "env_ok e" and "\<And>c. cacheServerHash s = Some c \<Longrightarrow> \<exists>b f M. servers_ok b c f M"
    and "distinct ns" and "\<forall>n \<in> set ns. name_ok n"
  shows "\<exists>c. cache_updateHash e ns s = Some (s\<lparr>cacheServerHash := Some c\<rparr>, 0) \<and>
     servers_ok True c (default_hash e) (ring_of (default_hash e) ns) \<and> dom (nodes_map c) = set ns"
proof -
  have del: "\<exists>u. (case cacheServerHash s of None \<Rightarrow> Some () | Some old \<Rightarrow> map_option (\<lambda>_. ()) (con_hash_delete old)) = Some u"
    using assms(2) con_hash_delete_runs by (cases "cacheServerHash s") fastforce+
  obtain c0 where c0: "con_hash_new (default_hash e) (memory_ok e) = Some c0" "servers_ok True c0 (default_hash e) Map.empty" "nodes_map c0 = Map.empty"
    using con_hash_new_ok [of "default_hash e"] assms(1) by (auto simp: env_ok_def)
  from add_servers_runs [OF c0(2) assms(1), of ns] assms(3,4) c0(3) obtain c where
    "add_servers e ns c0 = Some c" "servers_ok True c (default_hash e) (ring_of (default_hash e) ns)" "dom (nodes_map c) = set ns"
    by (auto simp: ring_of_def)
  with c0(1) del show ?thesis by (auto simp: cache_updateHash_def)
qed

text \<open>
  Registering the list of servers that the master sends: the ring is rebuilt from nothing, and
  the server of every key is the one at its position in the ring of those names in that order;
  the old ring is freed without a fault.
\<close>

theorem cache_updateHash_correct:
  assumes "env_ok e" and "\<forall>c. cacheServerHash s = Some c \<longrightarrow> (\<exists>b f M. servers_ok b c f M)"
    and "distinct ns" and "\<forall>n \<in> set ns. name_ok n" and "card (dom (ring_of (default_hash e) ns)) < 2 ^ 32"
  shows "\<exists>c. cache_updateHash e ns s = Some (s\<lparr>cacheServerHash := Some c\<rparr>, 0) \<and>
     (\<forall>k. conhash_get_CacheServer c k = Some (server_at (ring_of (default_hash e) ns) (default_hash e (c_str k))))"
  using updateHash_runs [OF assms(1) _ assms(3,4), of s] assms(2) con_hash_get_runs assms(5) by blast

lemma start_no_clients:
  assumes "cache_connToMaster e s0 = Some (s1, 0)" and "cache_startListen e sok bok lok s1 = Some (s2, 0)"
    and "epoll_fds (cs_os s0) = []" and "m_pool s0 = \<lparr>workqueue = [], queuestat = 0\<rparr>"
  shows "no_clients s2"
proof -
  have "set (epoll_fds (cs_os s1)) \<subseteq> {master_sockfd s1} \<and> m_pool s1 = m_pool s0"
    using assms(1,3) unfolding cache_connToMaster_def
    by (auto simp: split_beta Let_def cache_epollAddfd_def os_epoll_add_def elim!: bind_eq_SomeE split: if_split_asm)
  with assms(2,4) show ?thesis unfolding cache_startListen_def no_clients_def
    by (auto simp: split_beta Let_def cache_epollAddfd_def os_epoll_add_def elim!: bind_eq_SomeE split: if_split_asm)
qed

lemma no_clients_idle: "no_clients s \<Longrightarrow>
    set (epoll_fds (cs_os s)) \<subseteq> {master_sockfd s, lfd s} \<and> workqueue (m_pool s) = [] \<and> cache_run e s = Some s"
  by (simp add: no_clients_def cache_run_def pool_next_def pool_wait_def)

section \<open>Witnesses\<close>

definition demo_env :: env where
  "demo_env = \<lparr>little_endian = True, reachable = (\<lambda>_. True),
     junk_addr = \<lparr>sin_family = 0, sin_port = 0, sin_addr = [0, 0, 0, 0]\<rparr>, junk_node = no_rbnode,
     new_obj = new_first, malloc_of = first_fit, default_hash = byte_sum, memory_ok = True\<rparr>"

definition demo_table :: "(cstr, cstr) lru_cache" where
  "demo_table = the (lru_set new_first [107] [118] (lru_new new_first [] [] 0 0 5))"

definition demo_cache :: cache_server where
  "demo_cache = \<lparr>lru = demo_table, lru_backup = demo_table, move_state = 1, backup_invalid = 0, cacheServerHash = ring_a,
     epfd = 9, master_sockfd = 0, lfd = 1, cache_server_port = 6000, local_addr = [48], connectedMap = [],
     m_pool = \<lparr>workqueue = [], queuestat = 0\<rparr>, tasks = [], cs_os = \<lparr>open_fds = [7], epoll_fds = [], sent = []\<rparr>\<rparr>"

abbreviation demo_entry :: "(cstr, cstr) lru_data" where
  "demo_entry \<equiv> \<lparr>lkey = [107], lval = [118], ldirty = False\<rparr>"

lemma demo_env_ok: "env_ok demo_env" "new_ok (new_obj demo_env)"
  using new_first_ok first_fit_ok by (simp_all add: env_ok_def demo_env_def)

lemma demo_table_rel: "lru_rel demo_table [demo_entry]" "lcap demo_table = 5"
proof -
  obtain c where c: "c = (lru_new new_first [] [] 0 0 5 :: (cstr, cstr) lru_cache)" by simp
  have "lru_rel c []" "lcap c = 5" unfolding c using new_runs [OF new_first_ok] by (auto simp: lru_new_def)
  from set_runs [OF this(1) new_first_ok, of "[107]" "[118]"] this(2)
  show "lru_rel demo_table [demo_entry]" "lcap demo_table = 5"
    by (auto simp: demo_table_def spec_set_def entry_of_def simp flip: c)
qed

lemma demo_cache_facts: "lru_rel (lru demo_cache) [demo_entry]" "lru_rel (lru_backup demo_cache) [demo_entry]"
    "lcap (lru demo_cache) \<noteq> 0" "7 \<in> set (open_fds (cs_os demo_cache))"
    "m_pool demo_cache = \<lparr>workqueue = [], queuestat = 0\<rparr>" "sent (cs_os demo_cache) = []" "cacheServerHash demo_cache = ring_a"
    "move_state demo_cache \<noteq> 0"
  using demo_table_rel by (simp_all add: demo_cache_def)

theorem cache_set_then_get_witness:
  "\<exists>s1 s2. cache_setValue demo_env [107] [50] demo_cache = Some (s1, 0) \<and> cache_getValue [107] 7 s1 = Some (s2, 0) \<and>
     sent (cs_os s2) = [(7, GET_SUCCESS @ [10, 50])]"
  using cache_set_then_get [OF demo_cache_facts(1) demo_env_ok(2) demo_cache_facts(3,4), of "[50]" "[107]"] demo_cache_facts(6)
  by (auto simp: entry_of_def)

theorem cache_set_loses_value_witness:
  "\<exists>s1 s2 s3. cache_dealwithClientMsg [] 0 7 (Received (SET_VALUE @ [10, 107, 10, 50])) demo_cache = Some (s1, 0) \<and>
     cache_run demo_env s1 = Some s2 \<and> cache_getValue [107] 7 s2 = Some (s3, 0) \<and> sent (cs_os s3) = [(7, GET_SUCCESS @ [10])]"
  using cache_set_loses_value [OF demo_cache_facts(1) demo_env_ok(2) demo_cache_facts(3) _ _ demo_cache_facts(5,4), of "[107]" "[]" 0 "[50]"]
    demo_cache_facts(6)
  by (auto simp: entry_of_def)

theorem cache_update_witness:
  "\<exists>s'. cache_update demo_env [49] demo_cache = Some s' \<and>
     sent (cs_os s') = [(0, BACKUP_INVALID), (0, backup_msg demo_entry)]"
proof -
  have a: "str2sock_addr (little_endian demo_env) (junk_addr demo_env) [49] = Some (junk_addr demo_env)"
    by (simp add: demo_env_def str2sock_addr_def str2port_def)
  have o1: "os_socket (cs_os demo_cache) = ((cs_os demo_cache)\<lparr>open_fds := [0, 7]\<rparr>, 0)"
    by (simp add: demo_cache_def os_socket_def upt_rec)
  have "length (backup_msg demo_entry) < 1024" by (simp add: backup_msg_def code_length c_str_def)
  with cache_update_sends_all [OF demo_cache_facts(1) a o1] demo_cache_facts(6) show ?thesis by (auto simp: demo_env_def)
qed

theorem cache_move_witness:
  "\<exists>s'. cache_move demo_env demo_cache = Some s' \<and> sent (cs_os s') = [] \<and> move_state s' = 0"
proof -
  obtain c where c: "ring_a = Some c" "servers_ok True c byte_sum map_a" using ring_a_ok by blast
  have "card (dom map_a) < 2 ^ 32" using map_a_facts(3) by simp
  moreover have "\<forall>n \<in> ran map_a. n \<noteq> local_addr demo_cache \<and> n \<noteq> [] \<and> str2sock_addr (little_endian demo_env) (junk_addr demo_env) n \<noteq> None"
    unfolding map_a_facts(4) by (simp add: demo_cache_def demo_env_def str2sock_addr_def str2port_def)
  ultimately show ?thesis
    using cache_move_moves_nothing [where e = demo_env, OF demo_cache_facts(1,2) _ c(2) _ map_a_facts(2)] demo_cache_facts(6-8) c(1)
    by auto
qed

theorem cache_updateHash_witness:
  "\<exists>c. cache_updateHash demo_env [[0x61]] demo_cache = Some (demo_cache\<lparr>cacheServerHash := Some c\<rparr>, 0) \<and>
     conhash_get_CacheServer c [120] = Some [0x61]"
proof -
  have ring: "ring_of (default_hash demo_env) [[0x61]] = map_a"
    by (simp add: ring_of_def map_a_def demo_env_def)
  obtain c where c: "ring_a = Some c" "servers_ok True c byte_sum map_a" using ring_a_ok by blast
  have "server_at map_a h = [0x61]" for h
    using server_at_owner(2) [OF c(2) map_a_facts(2), of h] map_a_facts(4) by simp
  moreover have "\<forall>c. cacheServerHash demo_cache = Some c \<longrightarrow> (\<exists>b f M. servers_ok b c f M)"
    using c demo_cache_facts(7) by (metis option.inject)
  ultimately show ?thesis
    using cache_updateHash_correct [OF demo_env_ok(1), of demo_cache "[[0x61]]"] map_a_facts(3)
    unfolding ring by (auto simp: name_ok_def)
qed

end
