(* ===== verification/MasterServer.thy ===== *)
theory MasterServer
  imports Wire WorkPool ServerList
begin

text \<open>
  The master server (\<open>src/master_server/master_service.h\<close> and \<open>master_service.cpp\<close>): the registration
  of cache servers, the answers to clients, the handling of a cache server that leaves, and the
  messages to the others.

  As for the cache server, a member function is a step on the state, without locks and log
  messages; \<open>LOG_DEBUG\<close> reads \<open>connectedMap[fd]\<close> and so may insert an entry, which is kept.  \<open>replies\<close>
  records what was sent to clients over UDP.  The pauses (\<open>usleep\<close>) are left out.
\<close>

section \<open>State\<close>

record m_request =
  m_type :: int
  m_addr :: sockaddr_in
  m_key :: cstr
  m_cfd :: int

definition REGISTER :: int where "REGISTER = 0"
definition GETDISTRIBUTE :: int where "GETDISTRIBUTE = 1"

record master =
  masterHash :: con_hash
  registedMap :: "(cstr \<times> int) list"
  connections :: "(int \<times> cstr) list"
  listenMap :: "(int \<times> cstr) list"
  connectList :: "cstr server_list"
  m_epfd :: int
  m_lfd :: int
  master_client_sockfd :: int
  m_queue :: "m_request pool"
  m_os :: os
  replies :: "(sockaddr_in \<times> cstr) list"

definition master_max_requests :: nat where "master_max_requests = 20"

section \<open>Sockets\<close>

definition master_epollAddfd :: "int \<Rightarrow> master \<Rightarrow> (master \<times> int) option" where
  "master_epollAddfd fd m =
     (if m_epfd m = - 1 then None
      else let (o1, ret) = os_epoll_add fd (m_os m)
        in if ret = - 1 then Some (m\<lparr>m_os := o1\<rparr>, - 1) else Some (m\<lparr>m_os := o1\<rparr>, 0))"

definition master_epollDelfd :: "int \<Rightarrow> master \<Rightarrow> (master \<times> int) option" where
  "master_epollDelfd fd m =
     (if m_epfd m = - 1 then None
      else let (o1, ret) = os_epoll_del fd (m_os m)
        in if ret = - 1 then Some (m\<lparr>m_os := o1\<rparr>, - 1) else Some (m\<lparr>m_os := o1\<rparr>, 0))"

definition master_send :: "int \<Rightarrow> cstr \<Rightarrow> master \<Rightarrow> master" where
  "master_send fd bf m = m\<lparr>m_os := fst (os_send fd bf (m_os m))\<rparr>"

text \<open>The results of the calls of \<open>startListen\<close>, in their order.\<close>

record listen_results =
  udp_socket_ok :: bool
  tcp_socket_ok :: bool
  udp_bind_ok :: bool
  tcp_bind_ok :: bool
  tcp_listen_ok :: bool
  epoll_result :: int

definition master_startListen :: "listen_results \<Rightarrow> int \<Rightarrow> master \<Rightarrow> (master \<times> int) option" where
  "master_startListen r ret m =
     (if \<not> udp_socket_ok r then Some (m\<lparr>master_client_sockfd := - 1\<rparr>, - 1)
      else do {
        let (o1, fd) = os_socket (m_os m);
        let m = m\<lparr>m_os := o1, master_client_sockfd := fd\<rparr>;
        (if \<not> tcp_socket_ok r then Some (m\<lparr>m_lfd := - 1\<rparr>, - 1)
         else do {
           let (o1, fd) = os_socket (m_os m);
           let m = m\<lparr>m_os := o1, m_lfd := fd\<rparr>;
           (if \<not> udp_bind_ok r then Some (m, - 1)
            else if \<not> tcp_bind_ok r then Some (m, - 1)
            else if \<not> tcp_listen_ok r then Some (m, - 1)
            else do {
              let m = m\<lparr>m_epfd := epoll_result r\<rparr>;
              (if m_epfd m = - 1 then Some (m, - 1)
               else do {
                 (m, x) \<leftarrow> master_epollAddfd (master_client_sockfd m) m;
                 (if x = - 1 then Some (m, - 1)
                  else do {
                    (m, x) \<leftarrow> master_epollAddfd (m_lfd m) m;
                    (if x = - 1 then Some (m, - 1) else Some (m, ret)) }) }) }) }) })"

section \<open>Answers to clients\<close>

definition GetDistribute :: "sockaddr_in \<Rightarrow> cstr \<Rightarrow> master \<Rightarrow> (master \<times> int) option" where
  "GetDistribute addr k m = do {
     ip_port \<leftarrow> conhash_get_CacheServer (masterHash m) k;
     (l, msg) \<leftarrow> (if isExisted ip_port (connectList m)
        then do { (l, backup) \<leftarrow> getNext ip_port (connectList m); Some (l, ip_port @ [10] @ backup) }
        else Some (connectList m, ip_port));
     bf \<leftarrow> to_buf (c_str msg);
     Some (m\<lparr>connectList := l, replies := replies m @ [(addr, bf)]\<rparr>, 0) }"

section \<open>Messages to cache servers\<close>

text \<open>The loop of \<open>UpdateHash\<close> over \<open>listenMap\<close>.\<close>

fun notify_hash :: "cstr \<Rightarrow> (int \<times> cstr) list \<Rightarrow> master \<Rightarrow> master" where
  "notify_hash bf [] m = m"
| "notify_hash bf ((fd, a) # lm) m =
     (let m = master_send fd (bf @ [0]) m
      in notify_hash bf lm (m\<lparr>connections := fst (map_at [] fd (connections m))\<rparr>))"

definition master_UpdateHash :: "master \<Rightarrow> master option" where
  "master_UpdateHash m = do {
     let msg = concat (map (\<lambda>(fd, a). a @ [10]) (listenMap m));
     bf \<leftarrow> to_buf (UPDATE_HASH @ [10] @ c_str msg);
     Some (notify_hash bf (listenMap m) m) }"

text \<open>The loop that asks the servers registered before to move their data.\<close>

definition notify_move :: "(cstr \<times> int) list \<Rightarrow> master \<Rightarrow> master" where
  "notify_move notity m = fold (\<lambda>(a, fd). master_send fd (MOVE_DATA @ [10, 0])) notity m"

text \<open>\<open>map[key]\<close> for the three maps.\<close>

definition regist_at :: "cstr \<Rightarrow> master \<Rightarrow> master \<times> int" where
  "regist_at a m = (let (rm, fd) = map_at 0 a (registedMap m) in (m\<lparr>registedMap := rm\<rparr>, fd))"

definition listen_at :: "int \<Rightarrow> master \<Rightarrow> master \<times> cstr" where
  "listen_at fd m = (let (lm, a) = map_at [] fd (listenMap m) in (m\<lparr>listenMap := lm\<rparr>, a))"

definition connect_at :: "int \<Rightarrow> master \<Rightarrow> master \<times> cstr" where
  "connect_at fd m = (let (cm, a) = map_at [] fd (connections m) in (m\<lparr>connections := cm\<rparr>, a))"

text \<open>The part of \<open>Register\<close> that arranges the backups.\<close>

definition notify_backup :: "cstr \<Rightarrow> int \<Rightarrow> master \<Rightarrow> master option" where
  "notify_backup newAddr cfd m =
     (if isExisted newAddr (connectList m) then do {
        (l, prev) \<leftarrow> getPrev newAddr (connectList m);
        (l, nxt) \<leftarrow> getNext newAddr l;
        let m = m\<lparr>connectList := l\<rparr>;
        let (m, prev_fd) = regist_at prev m;
        let (m, next_fd) = regist_at nxt m;
        (if next_fd \<noteq> cfd \<or> prev_fd \<noteq> cfd then do {
           let (m, a) = listen_at cfd m;
           bf \<leftarrow> to_buf (UPDATE_BACKUP @ [10] @ c_str a @ [10]);
           let m = master_send prev_fd (bf @ [0]) m;
           let (m, a) = listen_at next_fd m;
           bf \<leftarrow> to_buf (UPDATE_BACKUP @ [10] @ c_str a @ [10]);
           Some (master_send cfd (bf @ [0]) m) }
         else Some m) }
      else Some m)"

definition master_Register :: "env \<Rightarrow> sockaddr_in \<Rightarrow> int \<Rightarrow> master \<Rightarrow> (master \<times> int) option" where
  "master_Register e cache_server cfd m = do {
     let name = sock_addr2str (little_endian e) cache_server;
     let (m, newAddr) = connect_at cfd m;
     let notity = registedMap m;
     let fresh = (map_of (registedMap m) newAddr = None);
     l \<leftarrow> server_add (new_obj e) newAddr (connectList m);
     let m = m\<lparr>registedMap := map_insert newAddr cfd (registedMap m),
               listenMap := map_insert cfd name (listenMap m), connectList := l\<rparr>;
     (if \<not> fresh then Some (m, - 1)
      else do {
        h \<leftarrow> conhash_add_CacheServer (new_obj e) (malloc_of e) (junk_node e) name (masterHash m);
        m \<leftarrow> master_UpdateHash (m\<lparr>masterHash := h\<rparr>);
        m \<leftarrow> notify_backup newAddr cfd (notify_move notity m);
        Some (m, 0) }) }"

section \<open>Events\<close>

definition master_append :: "m_request \<Rightarrow> master \<Rightarrow> master \<times> bool" where
  "master_append r m = (let (p, ok) = pool_append master_max_requests r (m_queue m) in (m\<lparr>m_queue := p\<rparr>, ok))"

definition master_dealwithNewConn :: "env \<Rightarrow> int \<Rightarrow> sockaddr_in \<Rightarrow> master \<Rightarrow> (master \<times> int) option" where
  "master_dealwithNewConn e cfd addr m =
     (if cfd < 0 then Some (m, - 1)
      else do {
        let m = m\<lparr>m_os := (m_os m)\<lparr>open_fds := cfd # open_fds (m_os m)\<rparr>\<rparr>;
        (m, x) \<leftarrow> master_epollAddfd cfd m;
        Some (m\<lparr>connections := map_insert cfd (sock_addr2str (little_endian e) addr) (connections m)\<rparr>, 0) })"

text \<open>A datagram: the buffer is not cleared before, and the key ends at the first zero byte in it.\<close>

definition master_dealwithClient :: "u8 list \<Rightarrow> cstr \<Rightarrow> sockaddr_in \<Rightarrow> master \<Rightarrow> (master \<times> int) option" where
  "master_dealwithClient stack dgram addr m = do {
     k \<leftarrow> cstr_of (fill_buf stack dgram);
     let (m, ok) = master_append \<lparr>m_type = GETDISTRIBUTE, m_addr = addr, m_key = k, m_cfd = - 1\<rparr> m;
     (if \<not> ok then Some (m, - 1) else Some (m, 0)) }"

text \<open>The branch of \<open>dealwithCacheServer\<close> for a connection that was closed.\<close>

definition master_leave :: "int \<Rightarrow> cstr \<Rightarrow> master \<Rightarrow> (master \<times> int) option" where
  "master_leave cfd str m =
     (if isExisted str (connectList m) then do {
        (l, prev) \<leftarrow> getPrev str (connectList m);
        (l, nxt) \<leftarrow> getNext str l;
        let m = m\<lparr>connectList := l\<rparr>;
        let (m, prev_fd) = regist_at prev m;
        let (m, next_fd) = regist_at nxt m;
        (m, x) \<leftarrow> master_epollDelfd cfd m;
        l \<leftarrow> server_del str (connectList m);
        let m = m\<lparr>m_os := os_close cfd (m_os m), connections := map_erase cfd (connections m),
                  registedMap := map_erase str (registedMap m), listenMap := map_erase cfd (listenMap m),
                  connectList := l\<rparr>;
        m \<leftarrow> master_UpdateHash m;
        (if next_fd = cfd \<or> prev_fd = cfd then Some (m, 0)
         else do {
           bf \<leftarrow> to_buf (RECOVER_BACKUP @ [10]);
           let m = master_send next_fd bf m;
           let (m, a) = listen_at next_fd m;
           bf \<leftarrow> to_buf (UPDATE_BACKUP @ [10] @ c_str a @ [10]);
           Some (master_send prev_fd bf m, 0) }) }
      else Some (m, 0))"

text \<open>\<open>atoi\<close>: white space, a sign, digits; what is larger than an \<open>int\<close>, or has no end in the buffer, has no
  result.\<close>

fun atoi_loop :: "cstr \<Rightarrow> int \<Rightarrow> int option" where
  "atoi_loop [] n = None"
| "atoi_loop (c # cs) n = (if 48 \<le> c \<and> c \<le> 57 then do { n \<leftarrow> int_ok (n * 10 + (uint c - 48)); atoi_loop cs n } else Some n)"

definition atoi :: "cstr \<Rightarrow> int option" where
  "atoi s = (let s = dropWhile (\<lambda>c. c = 32 \<or> 9 \<le> c \<and> c \<le> 13) s in
     case s of
       [] \<Rightarrow> None
     | c # cs \<Rightarrow> if c = 45 then map_option uminus (atoi_loop cs 0) else if c = 43 then atoi_loop cs 0 else atoi_loop s 0)"

definition master_dealwithCacheServer :: "env \<Rightarrow> int \<Rightarrow> recv \<Rightarrow> master \<Rightarrow> (master \<times> int) option" where
  "master_dealwithCacheServer e cfd r m = do {
     let (m, str) = connect_at cfd m;
     (case r of
        RecvError \<Rightarrow> Some (m, - 1)
      | Closed \<Rightarrow> master_leave cfd str m
      | Received msg \<Rightarrow> do {
          addr \<leftarrow> str2sock_addr (little_endian e) (junk_addr e) str;
          port \<leftarrow> atoi (fill_buf (replicate buf_size 0) msg);
          let addr = addr\<lparr>sin_port := htons (little_endian e) (word_of_int port)\<rparr>;
          let (m, ok) = master_append \<lparr>m_type = REGISTER, m_addr = addr, m_key = [], m_cfd = cfd\<rparr> m;
          (if \<not> ok then Some (m, - 1) else Some (m, 0)) }) }"

text \<open>One round of \<open>run\<close>.\<close>

definition master_handle :: "env \<Rightarrow> m_request \<Rightarrow> master \<Rightarrow> master option" where
  "master_handle e r m =
     (if m_type r = GETDISTRIBUTE then map_option fst (GetDistribute (m_addr r) (m_key r) m)
      else if m_type r = REGISTER then map_option fst (master_Register e (m_addr r) (m_cfd r) m)
      else Some m)"

definition master_run :: "env \<Rightarrow> master \<Rightarrow> master option" where
  "master_run e m =
     (case pool_next (m_queue m) of
        None \<Rightarrow> Some m
      | Some (p, None) \<Rightarrow> Some (m\<lparr>m_queue := p\<rparr>)
      | Some (p, Some r) \<Rightarrow> master_handle e r (m\<lparr>m_queue := p\<rparr>))"

text \<open>
  What the kernel reports: the descriptor, and what the call on it gives: the buffer with a datagram
  and its sender, the result of \<open>accept\<close>, or of \<open>recv\<close>.  The event loop goes on after an error of a
  handler.
\<close>

record m_event =
  me_fd :: int
  me_stack :: "u8 list"
  me_dgram :: cstr
  me_addr :: sockaddr_in
  me_cfd :: int
  me_recv :: recv

definition master_dispatch :: "env \<Rightarrow> m_event \<Rightarrow> master \<Rightarrow> (master \<times> int) option" where
  "master_dispatch e ev m =
     (if me_fd ev = master_client_sockfd m then master_dealwithClient (me_stack ev) (me_dgram ev) (me_addr ev) m
      else if me_fd ev = m_lfd m then master_dealwithNewConn e (me_cfd ev) (me_addr ev) m
      else master_dealwithCacheServer e (me_fd ev) (me_recv ev) m)"

fun master_events :: "env \<Rightarrow> m_event list \<Rightarrow> master \<Rightarrow> master option" where
  "master_events e [] m = Some m"
| "master_events e (ev # evs) m = do {
     (m, ret) \<leftarrow> master_dispatch e ev m;
     master_events e evs m }"

text \<open>
  The loop, as far as the results of \<open>epoll_wait\<close> go; nothing sets \<open>shutdown\<close>, so it returns only after an
  error.  \<open>None\<close> as the result is that it still runs.
\<close>

fun master_EventLoop :: "env \<Rightarrow> m_event waited list \<Rightarrow> master \<Rightarrow> (master \<times> int option) option" where
  "master_EventLoop e [] m = Some (m, None)"
| "master_EventLoop e (WaitFailed # ws) m = Some (m, Some (- 1))"
| "master_EventLoop e (Ready evs # ws) m = do { m \<leftarrow> master_events e evs m; master_EventLoop e ws m }"

end
