(* ===== verification/MasterRuns.thy ===== *)
theory MasterRuns
  imports MasterServer "HOL-Library.Multiset"
begin

text \<open>
  What the master does: the invariant of its tables, the messages it sends when a cache server
  registers or leaves, and its answers to clients.

  \<open>master_ok m ts\<close>: \<open>ts\<close> is the ring of registered connection addresses; every one of them has an open
  descriptor that \<open>connections\<close> maps back to it, and \<open>listenMap\<close> has an entry for exactly these
  descriptors.  \<open>hash_rel f m ns\<close>: the hash ring is the one of the listening addresses \<open>ns\<close>, in the order of
  registration.
\<close>

section \<open>Addresses as text\<close>

definition addr_ok :: "cstr \<Rightarrow> bool" where
  "addr_ok a \<longleftrightarrow> length a \<le> 21 \<and> 0 \<notin> set a \<and> 10 \<notin> set a"

lemma decimal_byte: "length (decimal (unat (b :: u8))) \<le> 3"
  using unsigned_less [of b, where 'a = nat] length_decimal [of "unat b" 3] by simp

lemma port2str_word: "port2str (uint (w :: u16)) = (if w = 0 then [] else decimal (unat w))"
  by (simp only: port2str_def uint_nat port2str_decimal append_Nil2 unat_eq_zero)

lemma sock_addr_ok: "addr_ok (sock_addr2str le a)"
proof -
  have p: "length (port2str (uint (w :: u16))) \<le> 5" for w
    using unsigned_less [of w, where 'a = nat] length_decimal [of "unat w" 5] by (simp add: port2str_word)
  have "length (inet_ntoa b) \<le> 15" for b
    using decimal_byte [of "b ! 0"] decimal_byte [of "b ! 1"] decimal_byte [of "b ! 2"] decimal_byte [of "b ! 3"]
    by (simp add: inet_ntoa_def)
  from this [of "sin_addr a"] p [of "ntohs le (sin_port a)"] have "length (sock_addr2str le a) \<le> 21"
    by (simp add: sock_addr2str_def)
  moreover have "c \<notin> set (sock_addr2str le a)" if "c < 46" for c
  proof -
    have "c \<notin> set (decimal n)" for n using that by (intro decimal_no) (auto simp: word_less_nat_alt)
    with that show ?thesis by (auto simp: sock_addr2str_def inet_ntoa_def port2str_word)
  qed
  ultimately show ?thesis by (simp add: addr_ok_def)
qed

lemma addr_name_ok: "addr_ok a \<Longrightarrow> name_ok a"
  by (simp add: addr_ok_def name_ok_def)

section \<open>The invariant\<close>

definition master_ok :: "master \<Rightarrow> cstr list \<Rightarrow> bool" where
  "master_ok m ts \<longleftrightarrow> servers_rel (connectList m) ts \<and>
     map_ok (registedMap m) \<and> map_ok (connections m) \<and> map_ok (listenMap m) \<and>
     dom (map_of (registedMap m)) = set ts \<and> dom (map_of (listenMap m)) = ran (map_of (registedMap m)) \<and>
     (\<forall>a fd. map_of (registedMap m) a = Some fd \<longrightarrow> map_of (connections m) fd = Some a \<and> fd \<in> set (open_fds (m_os m))) \<and>
     (\<forall>fd fd' a. map_of (connections m) fd = Some a \<longrightarrow> map_of (connections m) fd' = Some a \<longrightarrow> fd = fd') \<and>
     (\<forall>fd a. map_of (connections m) fd = Some a \<longrightarrow> addr_ok a) \<and>
     (\<forall>fd a. map_of (listenMap m) fd = Some a \<longrightarrow> addr_ok a)"

definition hash_rel :: "(cstr \<Rightarrow> int) \<Rightarrow> master \<Rightarrow> cstr list \<Rightarrow> bool" where
  "hash_rel f m ns \<longleftrightarrow> servers_ok True (masterHash m) f (ring_of f ns) \<and> dom (nodes_map (masterHash m)) = set ns"

lemma master_okD:
  assumes "master_ok m ts"
  shows "servers_rel (connectList m) ts" "map_ok (registedMap m)" "map_ok (connections m)" "map_ok (listenMap m)"
    "dom (map_of (registedMap m)) = set ts" "dom (map_of (listenMap m)) = ran (map_of (registedMap m))"
    "map_of (registedMap m) a = Some fd \<Longrightarrow> map_of (connections m) fd = Some a \<and> fd \<in> set (open_fds (m_os m))"
    "map_of (connections m) fd = Some a \<Longrightarrow> map_of (connections m) fd' = Some a \<Longrightarrow> fd = fd'"
    "map_of (connections m) fd = Some a \<Longrightarrow> addr_ok a" "map_of (listenMap m) fd = Some a \<Longrightarrow> addr_ok a"
  using assms unfolding master_ok_def by blast+

section \<open>Messages\<close>

definition hash_msg :: "(int \<times> cstr) list \<Rightarrow> cstr" where
  "hash_msg lm = UPDATE_HASH @ [10] @ concat (map (\<lambda>(fd, a). a @ [10]) lm)"

definition add_sent :: "(int \<times> cstr) list \<Rightarrow> master \<Rightarrow> master" where
  "add_sent xs m = m\<lparr>m_os := (m_os m)\<lparr>sent := sent (m_os m) @ xs\<rparr>\<rparr>"

lemma add_sent_sel [simp]:
  "masterHash (add_sent xs m) = masterHash m" "registedMap (add_sent xs m) = registedMap m"
  "connections (add_sent xs m) = connections m" "listenMap (add_sent xs m) = listenMap m"
  "connectList (add_sent xs m) = connectList m" "open_fds (m_os (add_sent xs m)) = open_fds (m_os m)"
  "sent (m_os (add_sent xs m)) = sent (m_os m) @ xs" "m_queue (add_sent xs m) = m_queue m" "m_epfd (add_sent xs m) = m_epfd m"
  "replies (add_sent xs m) = replies m"
  by (simp_all add: add_sent_def)

lemma add_sent_add: "add_sent ys (add_sent xs m) = add_sent (xs @ ys) m"
  by (simp add: add_sent_def)

lemma send_runs: "fd \<in> set (open_fds (m_os m)) \<Longrightarrow> master_send fd bf m = add_sent [(fd, bf)] m"
  by (simp add: master_send_def os_send_def add_sent_def)

lemma notify_hash_runs:
  assumes "\<forall>(fd, a) \<in> set lm. fd \<in> set (open_fds (m_os m)) \<and> map_of (connections m) fd \<noteq> None"
  shows "notify_hash bf lm m = add_sent (map (\<lambda>(fd, a). (fd, bf @ [0])) lm) m"
  using assms
proof (induction lm arbitrary: m)
  case Nil
  then show ?case by (simp add: add_sent_def)
next
  case (Cons x lm)
  obtain fd a where x: "x = (fd, a)" by (cases x)
  with Cons.prems obtain b where "map_of (connections m) fd = Some b" "fd \<in> set (open_fds (m_os m))" by auto
  then have "notify_hash bf (x # lm) m = notify_hash bf lm (add_sent [(fd, bf @ [0])] m)"
    by (simp add: x send_runs map_at_present Let_def) (simp add: add_sent_def)
  also have "\<dots> = add_sent (map (\<lambda>(fd, a). (fd, bf @ [0])) lm) (add_sent [(fd, bf @ [0])] m)"
    using Cons.prems by (intro Cons.IH) auto
  finally show ?case by (simp add: x add_sent_add)
qed

lemma notify_move_runs:
  assumes "\<forall>(a, fd) \<in> set rm. fd \<in> set (open_fds (m_os m))"
  shows "notify_move rm m = add_sent (map (\<lambda>(a, fd). (fd, MOVE_DATA @ [10, 0])) rm) m"
  using assms
proof (induction rm arbitrary: m)
  case Nil
  then show ?case by (simp add: notify_move_def add_sent_def)
next
  case (Cons x rm)
  obtain a fd where x: "x = (a, fd)" by (cases x)
  have "notify_move (x # rm) m = notify_move rm (add_sent [(fd, MOVE_DATA @ [10, 0])] m)"
    using Cons.prems by (simp add: x notify_move_def send_runs)
  also have "\<dots> = add_sent (map (\<lambda>(a, fd). (fd, MOVE_DATA @ [10, 0])) rm) (add_sent [(fd, MOVE_DATA @ [10, 0])] m)"
    using Cons.prems by (intro Cons.IH) auto
  finally show ?case by (simp add: x add_sent_add)
qed

lemma hash_msg_text: "\<forall>(fd, a) \<in> set lm. addr_ok a \<Longrightarrow> c_str (concat (map (\<lambda>(fd, a). a @ [10]) lm)) = concat (map (\<lambda>(fd, a). a @ [10]) lm)"
  by (rule c_str_id) (auto simp: addr_ok_def)

lemma hash_msg_length: "\<forall>(fd, a) \<in> set lm. addr_ok a \<Longrightarrow> length (hash_msg lm) \<le> 12 + 22 * length lm"
proof -
  assume ok: "\<forall>(fd, a) \<in> set lm. addr_ok a"
  have "length (concat (map (\<lambda>(fd, a). a @ [10 :: u8]) lm)) \<le> 22 * length lm"
    using ok by (induction lm) (auto simp: addr_ok_def)
  moreover have "length UPDATE_HASH = 11" by code_simp
  ultimately show ?thesis by (simp add: hash_msg_def)
qed

lemma UpdateHash_cases:
  assumes "\<forall>(fd, a) \<in> set (listenMap m). addr_ok a"
  shows "master_UpdateHash m =
     (if length (hash_msg (listenMap m)) < 1024 then Some (notify_hash (hash_msg (listenMap m)) (listenMap m) m) else None)"
  using hash_msg_text [OF assms]
  by (simp add: master_UpdateHash_def to_buf_def buf_size_def hash_msg_def)

section \<open>The tables\<close>

definition fd_of :: "master \<Rightarrow> cstr \<Rightarrow> int" where
  "fd_of m a = the (map_of (registedMap m) a)"

text \<open>The listening address of the server with connection address \<open>a\<close>.\<close>

definition server_name :: "master \<Rightarrow> cstr \<Rightarrow> cstr" where
  "server_name m a = the (map_of (listenMap m) (fd_of m a))"

lemma registered:
  assumes "master_ok m ts" and "a \<in> set ts"
  shows "map_of (registedMap m) a = Some (fd_of m a)" "map_of (connections m) (fd_of m a) = Some a"
    "fd_of m a \<in> set (open_fds (m_os m))" "map_of (listenMap m) (fd_of m a) = Some (server_name m a)" "addr_ok (server_name m a)"
proof -
  note M = master_okD [OF assms(1)]
  show r: "map_of (registedMap m) a = Some (fd_of m a)" using M(5) assms(2) by (metis domD fd_of_def option.sel)
  show "map_of (connections m) (fd_of m a) = Some a" "fd_of m a \<in> set (open_fds (m_os m))" using M(7) [OF r] by blast+
  have "fd_of m a \<in> dom (map_of (listenMap m))" unfolding M(6) using r by (auto simp: ran_def)
  then show l: "map_of (listenMap m) (fd_of m a) = Some (server_name m a)" by (auto simp: server_name_def)
  show "addr_ok (server_name m a)" by (rule M(10) [OF l])
qed

lemma fd_of_inj: "master_ok m ts \<Longrightarrow> a \<in> set ts \<Longrightarrow> b \<in> set ts \<Longrightarrow> fd_of m a = fd_of m b \<Longrightarrow> a = b"
  using registered(2) by (metis option.inject)

lemma map_entry: "map_ok xs \<Longrightarrow> (k, v) \<in> set xs \<Longrightarrow> map_of xs k = Some v"
  using map_of_is_SomeI [OF map_ok_distinct] .

lemma listed:
  assumes "master_ok m ts"
  shows "\<forall>(fd, a) \<in> set (listenMap m). fd \<in> set (open_fds (m_os m)) \<and> map_of (connections m) fd \<noteq> None"
    and "\<forall>(fd, a) \<in> set (listenMap m). addr_ok a" and "\<forall>(a, fd) \<in> set (registedMap m). fd \<in> set (open_fds (m_os m))"
proof -
  note M = master_okD [OF assms]
  have "fd \<in> set (open_fds (m_os m)) \<and> map_of (connections m) fd \<noteq> None \<and> addr_ok a" if "(fd, a) \<in> set (listenMap m)" for fd a
  proof -
    from map_entry [OF M(4) that] have l: "map_of (listenMap m) fd = Some a" .
    then obtain b where "map_of (registedMap m) b = Some fd" using M(6) by (auto simp: ran_def dom_def)
    with M(7) M(10) [OF l] show ?thesis by auto
  qed
  then show "\<forall>(fd, a) \<in> set (listenMap m). fd \<in> set (open_fds (m_os m)) \<and> map_of (connections m) fd \<noteq> None"
    "\<forall>(fd, a) \<in> set (listenMap m). addr_ok a" by auto
  show "\<forall>(a, fd) \<in> set (registedMap m). fd \<in> set (open_fds (m_os m))"
    using map_entry [OF M(2)] M(7) by fastforce
qed

lemma listed_length:
  assumes ok: "master_ok m ts"
  shows "length (listenMap m) = length ts"
proof -
  note M = master_okD [OF ok]
  have "ran (map_of (registedMap m)) = fd_of m ` set ts"
    using registered(1) [OF ok] M(5) by (fastforce simp: ran_def)
  moreover have "inj_on (fd_of m) (set ts)" by (intro inj_onI) (rule fd_of_inj [OF ok])
  moreover have "distinct ts" using servers_distinct [OF M(1)] by blast
  ultimately have "card (dom (map_of (listenMap m))) = length ts" using M(6) by (simp add: card_image distinct_card)
  moreover have "card (dom (map_of (listenMap m))) = length (listenMap m)"
    using distinct_card [OF map_ok_distinct [OF M(4)]] by (simp add: dom_map_of_conv_image_fst)
  ultimately show ?thesis by simp
qed

lemma UpdateHash_runs:
  assumes ok: "master_ok m ts" and "length ts \<le> 45"
  shows "master_UpdateHash m = Some (add_sent (map (\<lambda>(fd, a). (fd, hash_msg (listenMap m) @ [0])) (listenMap m)) m)"
  using UpdateHash_cases [OF listed(2) [OF ok]] hash_msg_length [OF listed(2) [OF ok]] assms(2) listed_length [OF ok]
    notify_hash_runs [OF listed(1) [OF ok]] by simp

lemma master_ok_sent: "master_ok (add_sent xs m) ts \<longleftrightarrow> master_ok m ts"
  by (simp add: master_ok_def)

lemma names_sent [simp]: "fd_of (add_sent xs m) = fd_of m" "server_name (add_sent xs m) = server_name m"
  "hash_rel f (add_sent xs m) ns = hash_rel f m ns"
  by (simp_all add: fd_of_def server_name_def hash_rel_def fun_eq_iff)

lemma at_present:
  "map_of (registedMap m) a = Some fd \<Longrightarrow> regist_at a m = (m, fd)"
  "map_of (listenMap m) fd = Some n \<Longrightarrow> listen_at fd m = (m, n)"
  "map_of (connections m) fd = Some n \<Longrightarrow> connect_at fd m = (m, n)"
  by (simp_all add: regist_at_def listen_at_def connect_at_def map_at_present)

definition backup_cmd :: "cstr \<Rightarrow> cstr" where
  "backup_cmd n = UPDATE_BACKUP @ 10 # n @ [10]"

lemma backup_buf: "addr_ok n \<Longrightarrow> to_buf (UPDATE_BACKUP @ 10 # c_str n @ [10]) = Some (backup_cmd n)"
proof -
  assume "addr_ok n"
  moreover have "length UPDATE_BACKUP = 13" by code_simp
  ultimately show ?thesis by (simp add: addr_ok_def c_str_id to_buf_def buf_size_def backup_cmd_def)
qed

lemma notify_backup_runs:
  assumes ok: "master_ok m ts" and a: "a \<in> set ts"
  shows "notify_backup a (fd_of m a) m = Some (if ts = [a] then m
     else add_sent [(fd_of m (ring_prev ts a), backup_cmd (server_name m a) @ [0]),
                    (fd_of m a, backup_cmd (server_name m (ring_next ts a)) @ [0])] m)"
proof -
  note M = master_okD [OF ok]
  note nb = sl.neighbours_of [OF M(1) a]
  note inn = nb(4,5)
  note nx = registered [OF ok inn(1)] and pv = registered [OF ok inn(2)] and me = registered [OF ok a]
  have id: "m\<lparr>connectList := connectList m\<rparr> = m" by simp
  have self: "fd_of m (ring_next ts a) = fd_of m a \<longleftrightarrow> ts = [a]" "fd_of m (ring_prev ts a) = fd_of m a \<longleftrightarrow> ts = [a]"
    using nb(6,7) fd_of_inj [OF ok inn(1) a] fd_of_inj [OF ok inn(2) a] by metis+
  show ?thesis
  proof (cases "ts = [a]")
    case True
    with self have "fd_of m (ring_next ts a) = fd_of m a" "fd_of m (ring_prev ts a) = fd_of m a" by simp_all
    with nb(1-3) have "notify_backup a (fd_of m a) m = Some m"
      by (simp add: notify_backup_def id at_present nx(1) pv(1))
    with True show ?thesis by simp
  next
    case False
    with self have "fd_of m (ring_next ts a) \<noteq> fd_of m a" by simp
    with False nb(1-3) show ?thesis
      by (simp add: notify_backup_def id at_present nx(1) pv(1) me(4) backup_buf me(5) send_runs pv(3) nx(4,5) me(3) add_sent_add)
  qed
qed

section \<open>Registration\<close>

text \<open>The entries of a new server.\<close>

definition entered :: "cstr \<Rightarrow> int \<Rightarrow> cstr \<Rightarrow> cstr server_list \<Rightarrow> master \<Rightarrow> master" where
  "entered a cfd n l m = m\<lparr>registedMap := map_insert a cfd (registedMap m),
     listenMap := map_insert cfd n (listenMap m), connectList := l\<rparr>"

lemma unknown_server:
  assumes "master_ok m ts" and "map_of (connections m) cfd = Some a" and "a \<notin> set ts"
  shows "map_of (registedMap m) a = None" "map_of (listenMap m) cfd = None"
proof -
  note M = master_okD [OF assms(1)]
  show "map_of (registedMap m) a = None" using M(5) assms(3) by (auto simp: dom_def)
  have "cfd \<notin> ran (map_of (registedMap m))" using M(7) M(5) assms(2,3) by (fastforce simp: ran_def dom_def)
  then show "map_of (listenMap m) cfd = None" using M(6) by (metis domIff)
qed

lemma entered_ok:
  assumes ok: "master_ok m ts" and c: "map_of (connections m) cfd = Some a" and new: "a \<notin> set ts"
    and "cfd \<in> set (open_fds (m_os m))" and "addr_ok n" and "servers_rel l (ts @ [a])"
  shows "master_ok (entered a cfd n l m) (ts @ [a])"
    and "fd_of (entered a cfd n l m) a = cfd" and "server_name (entered a cfd n l m) a = n"
proof -
  note M = master_okD [OF ok] and N = unknown_server [OF ok c new]
  note ins = map_of_insert [OF M(2), of a cfd] map_of_insert [OF M(4), of cfd n]
  have "ran ((map_of (registedMap m))(a \<mapsto> cfd)) = insert cfd (ran (map_of (registedMap m)))"
    using N(1) by simp
  then show "master_ok (entered a cfd n l m) (ts @ [a])"
    using assms M N ins unfolding master_ok_def entered_def
    by (simp add: map_insert_ok)
  show "fd_of (entered a cfd n l m) a = cfd" "server_name (entered a cfd n l m) a = n"
    using N ins by (simp_all add: fd_of_def server_name_def entered_def)
qed

text \<open>What the others are told when the server with connection address \<open>a\<close> has registered; \<open>rm\<close> is the map
  before.\<close>

definition register_msgs :: "(cstr \<times> int) list \<Rightarrow> cstr list \<Rightarrow> cstr \<Rightarrow> master \<Rightarrow> (int \<times> cstr) list" where
  "register_msgs rm ts a m =
     map (\<lambda>(fd, b). (fd, hash_msg (listenMap m) @ [0])) (listenMap m) @
     map (\<lambda>(b, fd). (fd, MOVE_DATA @ [10, 0])) rm @
     (if ts = [] then []
      else [(fd_of m (last ts), backup_cmd (server_name m a) @ [0]), (fd_of m a, backup_cmd (server_name m (hd ts)) @ [0])])"

lemma register_steps:
  assumes ok: "master_ok m ts" and e: "env_ok e"
    and c: "map_of (connections m) cfd = Some a" and new: "a \<notin> set ts" and o: "cfd \<in> set (open_fds (m_os m))"
    and n: "n = sock_addr2str (little_endian e) addr" and len: "length ts < 45"
    and h': "conhash_add_CacheServer (new_obj e) (malloc_of e) (junk_node e) n (masterHash m) = Some h'"
  shows "\<exists>m'. master_Register e addr cfd m = Some (m', 0) \<and> master_ok m' (ts @ [a]) \<and> masterHash m' = h' \<and>
     fd_of m' a = cfd \<and> server_name m' a = n \<and> connections m' = connections m \<and> m_epfd m' = m_epfd m \<and>
     registedMap m' = map_insert a cfd (registedMap m) \<and> listenMap m' = map_insert cfd n (listenMap m) \<and>
     open_fds (m_os m') = open_fds (m_os m) \<and>
     sent (m_os m') = sent (m_os m) @ register_msgs (registedMap m) ts a m' \<and> m_queue m' = m_queue m"
proof -
  note M = master_okD [OF ok]
  from servers_add [OF M(1) new] e obtain l where
    l: "server_add (new_obj e) a (connectList m) = Some l" "servers_rel l (ts @ [a])" by (auto simp: env_ok_def)
  let ?m = "(entered a cfd n l m)\<lparr>masterHash := h'\<rparr>"
  have "addr_ok n" by (simp add: n sock_addr_ok)
  note En = entered_ok [OF ok c new o this l(2)]
  then have E: "master_ok ?m (ts @ [a])" "fd_of ?m a = cfd" "server_name ?m a = n"
    by (simp_all add: master_ok_def fd_of_def server_name_def)
  let ?u = "map (\<lambda>(fd, b). (fd, hash_msg (listenMap ?m) @ [0])) (listenMap ?m)"
    and ?v = "map (\<lambda>(b, fd). (fd, MOVE_DATA @ [10, 0])) (registedMap m)"
  have "length (ts @ [a]) \<le> 45" using len by simp
  from UpdateHash_runs [OF E(1) this]
  have u: "master_UpdateHash ?m = Some (add_sent ?u ?m)" .
  have "\<forall>(b, fd) \<in> set (registedMap m). fd \<in> set (open_fds (m_os (add_sent ?u ?m)))"
    using listed(3) [OF ok] by (simp add: entered_def)
  from notify_move_runs [OF this] have v: "notify_move (registedMap m) (add_sent ?u ?m) = add_sent (?u @ ?v) ?m"
    by (simp add: add_sent_add)
  let ?b = "if ts = [] then [] else [(fd_of ?m (last ts), backup_cmd (server_name ?m a) @ [0]),
     (fd_of ?m a, backup_cmd (server_name ?m (hd ts)) @ [0])]"
  have "distinct (ts @ [a])" using servers_distinct [OF l(2)] by blast
  from ring_ends [OF this] notify_backup_runs [of "add_sent (?u @ ?v) ?m" "ts @ [a]" a, unfolded master_ok_sent] E(1,2)
  have b: "notify_backup a cfd (add_sent (?u @ ?v) ?m) = Some (add_sent (?u @ ?v @ ?b) ?m)"
    by (cases ts) (simp_all add: add_sent_add)
  have "master_Register e addr cfd m = Some (add_sent (?u @ ?v @ ?b) ?m, 0)"
    using unknown_server(1) [OF ok c new] l(1) h' u v b
    by (simp add: master_Register_def at_present(3) [OF c] entered_def flip: n)
  moreover have "sent (m_os ?m) = sent (m_os m)" "connections ?m = connections m" "masterHash ?m = h'" "m_epfd ?m = m_epfd m"
    "open_fds (m_os ?m) = open_fds (m_os m)" "registedMap ?m = map_insert a cfd (registedMap m)"
    "listenMap ?m = map_insert cfd n (listenMap m)" "m_queue ?m = m_queue m"
    by (simp_all add: entered_def)
  ultimately show ?thesis using E
    by (intro exI [of _ "add_sent (?u @ ?v @ ?b) ?m"]) (simp add: master_ok_sent register_msgs_def)
qed

lemma hash_added:
  assumes h: "hash_rel f m ns" and e: "env_ok e" and n: "addr_ok n" "n \<notin> set ns"
  obtains h' where "conhash_add_CacheServer (new_obj e) (malloc_of e) (junk_node e) n (masterHash m) = Some h'"
    and "\<And>m'. masterHash m' = h' \<Longrightarrow> hash_rel f m' (ns @ [n])"
proof -
  have "nodes_map (masterHash m) n = None" using h n(2) by (auto simp: hash_rel_def)
  from con_hash_add_runs [of "masterHash m" f "ring_of f ns" n "new_obj e" "malloc_of e" "junk_node e", OF _ this] h e n(1)
  obtain h' where "conhash_add_CacheServer (new_obj e) (malloc_of e) (junk_node e) n (masterHash m) = Some h'"
    "servers_ok True h' f (ring_of f (ns @ [n]))" "dom (nodes_map h') = insert n (set ns)"
    by (auto simp: hash_rel_def env_ok_def addr_ok_def ring_of_snoc)
  with that show ?thesis by (simp add: hash_rel_def)
qed

section \<open>A server that leaves\<close>

definition gone :: "cstr \<Rightarrow> int \<Rightarrow> cstr server_list \<Rightarrow> os \<Rightarrow> master \<Rightarrow> master" where
  "gone a cfd l o1 m = m\<lparr>m_os := os_close cfd o1, connections := map_erase cfd (connections m),
     registedMap := map_erase a (registedMap m), listenMap := map_erase cfd (listenMap m), connectList := l\<rparr>"

lemma gone_ok:
  assumes ok: "master_ok m ts" and a: "a \<in> set ts" and cfd: "cfd = fd_of m a"
    and o1: "open_fds o1 = open_fds (m_os m)" and l: "servers_rel l (filter (\<lambda>x. x \<noteq> a) ts)"
  shows "master_ok (gone a cfd l o1 m) (filter (\<lambda>x. x \<noteq> a) ts)"
    and "b \<noteq> a \<Longrightarrow> fd_of (gone a cfd l o1 m) b = fd_of m b"
    and "b \<in> set ts \<Longrightarrow> b \<noteq> a \<Longrightarrow> server_name (gone a cfd l o1 m) b = server_name m b"
proof -
  note M = master_okD [OF ok] and R = registered [OF ok a]
  have other: "fd \<noteq> cfd" if "map_of (registedMap m) b = Some fd" "b \<noteq> a" for b fd
    using M(7) [OF that(1)] R(2) that(2) cfd by auto
  have "ran ((map_of (registedMap m))(a := None)) = ran (map_of (registedMap m)) - {cfd}"
    using other R(1) cfd by (auto simp: ran_def) (metis option.inject)
  moreover have "open_fds (os_close cfd o1) = removeAll cfd (open_fds (m_os m))" using o1 by (simp add: os_close_def)
  moreover have "dom ((map_of (registedMap m))(a := None)) = set (filter (\<lambda>x. x \<noteq> a) ts)" using M(5) by auto
  moreover have "dom ((map_of (listenMap m))(cfd := None)) = ran (map_of (registedMap m)) - {cfd}" using M(6) by auto
  ultimately show "master_ok (gone a cfd l o1 m) (filter (\<lambda>x. x \<noteq> a) ts)"
    using l M other unfolding master_ok_def gone_def by (simp add: map_erase_ok map_of_erase)
  show *: "fd_of (gone a cfd l o1 m) b = fd_of m b" if "b \<noteq> a" for b
    using that by (simp add: fd_of_def gone_def map_of_erase)
  show "server_name (gone a cfd l o1 m) b = server_name m b" if "b \<in> set ts" "b \<noteq> a"
    using * [OF that(2)] other [OF registered(1) [OF ok that(1)] that(2)]
    by (simp add: server_name_def) (simp add: gone_def map_of_erase)
qed

lemma recover_buf: "to_buf (RECOVER_BACKUP @ [10]) = Some (RECOVER_BACKUP @ [10])"
  by code_simp

lemma epollDelfd_runs:
  assumes "m_epfd m \<noteq> - 1"
  shows "\<exists>o1 x. master_epollDelfd fd m = Some (m\<lparr>m_os := o1\<rparr>, x) \<and> open_fds o1 = open_fds (m_os m) \<and> sent o1 = sent (m_os m)"
  using assms
  by (intro exI [of _ "fst (os_epoll_del fd (m_os m))"] exI [of _ "if fd \<in> set (epoll_fds (m_os m)) then 0 else - 1"])
    (simp add: master_epollDelfd_def os_epoll_del_def)

text \<open>What the others are told when the server with connection address \<open>a\<close> has left; \<open>m\<close> is the state before,
  \<open>m'\<close> the state after.\<close>

definition leave_msgs :: "master \<Rightarrow> cstr list \<Rightarrow> cstr \<Rightarrow> master \<Rightarrow> (int \<times> cstr) list" where
  "leave_msgs m ts a m' =
     map (\<lambda>(fd, b). (fd, hash_msg (listenMap m') @ [0])) (listenMap m') @
     (if ts = [a] then []
      else [(fd_of m (ring_next ts a), RECOVER_BACKUP @ [10]),
            (fd_of m (ring_prev ts a), backup_cmd (server_name m (ring_next ts a)))])"

text \<open>The neighbours of the server that leaves: it is its own neighbour only when it is alone.\<close>

lemma leave_alone:
  assumes ok: "master_ok m ts" and a: "a \<in> set ts"
  shows "fd_of m (ring_next ts a) = fd_of m a \<longleftrightarrow> ts = [a]" "fd_of m (ring_prev ts a) = fd_of m a \<longleftrightarrow> ts = [a]"
proof -
  note nb = sl.neighbours_of [OF master_okD(1) [OF ok] a]
  show "fd_of m (ring_next ts a) = fd_of m a \<longleftrightarrow> ts = [a]" "fd_of m (ring_prev ts a) = fd_of m a \<longleftrightarrow> ts = [a]"
    using nb(6,7) fd_of_inj [OF ok nb(4) a] fd_of_inj [OF ok nb(5) a] by metis+
qed

text \<open>The handler, after it has taken the server out of the tables.\<close>

lemma leave_unfold:
  assumes ok: "master_ok m ts" and a: "a \<in> set ts" and cfd: "cfd = fd_of m a"
    and l: "server_del a (connectList m) = Some l" and del: "master_epollDelfd cfd m = Some (m\<lparr>m_os := o1\<rparr>, x)"
  shows "master_leave cfd a m = do {
     m' \<leftarrow> master_UpdateHash (gone a cfd l o1 m);
     (if ts = [a] then Some (m', 0)
      else do {
        let m' = master_send (fd_of m (ring_next ts a)) (RECOVER_BACKUP @ [10]) m';
        let (m', n) = listen_at (fd_of m (ring_next ts a)) m';
        bf \<leftarrow> to_buf (UPDATE_BACKUP @ [10] @ c_str n @ [10]);
        Some (master_send (fd_of m (ring_prev ts a)) bf m', 0) }) }"
proof -
  note nb = sl.neighbours_of [OF master_okD(1) [OF ok] a]
  note nx = registered [OF ok nb(4)] and pv = registered [OF ok nb(5)] and alone = leave_alone [OF ok a, folded cfd]
  have id: "m\<lparr>connectList := connectList m\<rparr> = m" by simp
  show ?thesis
  proof (cases "ts = [a]")
    case True
    with alone have "fd_of m (ring_next ts a) = cfd" "fd_of m (ring_prev ts a) = cfd" by simp_all
    with nb(1-3) l del have "master_leave cfd a m = do { m' \<leftarrow> master_UpdateHash (gone a cfd l o1 m); Some (m', 0) }"
      by (simp add: master_leave_def id at_present nx(1) pv(1) gone_def)
    with True show ?thesis by simp
  next
    case False
    with alone have "fd_of m (ring_next ts a) \<noteq> cfd" "fd_of m (ring_prev ts a) \<noteq> cfd" by simp_all
    with nb(1-3) l del False show ?thesis
      by (simp add: master_leave_def id at_present nx(1) pv(1) gone_def recover_buf)
  qed
qed

lemma leave_runs:
  assumes ok: "master_ok m ts" and a: "a \<in> set ts" and cfd: "cfd = fd_of m a"
    and ep: "m_epfd m \<noteq> - 1" and len: "length ts \<le> 45"
  shows "\<exists>m'. master_leave cfd a m = Some (m', 0) \<and> master_ok m' (filter (\<lambda>x. x \<noteq> a) ts) \<and>
     masterHash m' = masterHash m \<and> connections m' = map_erase cfd (connections m) \<and> replies m' = replies m \<and>
     listenMap m' = map_erase cfd (listenMap m) \<and> m_epfd m' = m_epfd m \<and>
     open_fds (m_os m') = removeAll cfd (open_fds (m_os m)) \<and>
     sent (m_os m') = sent (m_os m) @ leave_msgs m ts a m'"
proof -
  note nb = sl.neighbours_of [OF master_okD(1) [OF ok] a]
  from servers_del [OF master_okD(1) [OF ok] a] obtain l where
    l: "server_del a (connectList m) = Some l" "servers_rel l (filter (\<lambda>x. x \<noteq> a) ts)" by blast
  obtain o1 x where del: "master_epollDelfd cfd m = Some (m\<lparr>m_os := o1\<rparr>, x)"
    and o1: "open_fds o1 = open_fds (m_os m)" "sent o1 = sent (m_os m)"
    using epollDelfd_runs [OF ep] by blast
  let ?m = "gone a cfd l o1 m"
  let ?msgs = "leave_msgs m ts a ?m"
  note G = gone_ok [OF ok a cfd o1(1) l(2)]
  note u = UpdateHash_runs [OF G(1) le_trans [OF length_filter_le len]]
  have run: "master_leave cfd a m = Some (add_sent ?msgs ?m, 0)"
  proof (cases "ts = [a]")
    case True
    with leave_unfold [OF ok a cfd l(1) del] u show ?thesis by (simp add: leave_msgs_def)
  next
    case False
    then have ne: "ring_next ts a \<noteq> a" "ring_prev ts a \<noteq> a" using nb(6,7) by blast+
    then have inn: "ring_next ts a \<in> set (filter (\<lambda>x. x \<noteq> a) ts)" "ring_prev ts a \<in> set (filter (\<lambda>x. x \<noteq> a) ts)"
      using nb(4,5) by simp_all
    note nx = registered [OF G(1) inn(1), unfolded G(2) [OF ne(1)] G(3) [OF nb(4) ne(1)]]
      and pv = registered [OF G(1) inn(2), unfolded G(2) [OF ne(2)]]
    show ?thesis using leave_unfold [OF ok a cfd l(1) del] False
      by (simp add: u send_runs nx(3) at_present nx(4) backup_buf nx(5) pv(3) add_sent_add leave_msgs_def)
  qed
  show ?thesis
  proof (intro exI conjI)
    show "master_leave cfd a m = Some (add_sent ?msgs ?m, 0)" by (rule run)
    show "master_ok (add_sent ?msgs ?m) (filter (\<lambda>x. x \<noteq> a) ts)" using G(1) by (simp only: master_ok_sent)
  qed (use o1 in \<open>simp_all add: leave_msgs_def gone_def os_close_def add_sent_def\<close>)
qed

section \<open>The form of the messages\<close>

text \<open>
  The four kinds of message, with well-formed addresses; the ones of a registration end with a zero byte.
\<close>

definition master_msg :: "cstr \<Rightarrow> bool" where
  "master_msg msg \<longleftrightarrow>
     (\<exists>lm. (\<forall>(fd, a) \<in> set lm. addr_ok a) \<and> distinct (map snd lm) \<and> length lm \<le> 45 \<and> msg = hash_msg lm @ [0]) \<or>
     msg = MOVE_DATA @ [10, 0] \<or> msg = RECOVER_BACKUP @ [10] \<or>
     (\<exists>n. addr_ok n \<and> (msg = backup_cmd n \<or> msg = backup_cmd n @ [0]))"

lemma master_msg_hash:
  "master_ok m ts \<Longrightarrow> length ts \<le> 45 \<Longrightarrow> distinct (map snd (listenMap m)) \<Longrightarrow> master_msg (hash_msg (listenMap m) @ [0])"
  using listed(2) [of m ts] listed_length [of m ts] unfolding master_msg_def
  by (intro disjI1 exI [of _ "listenMap m"]) simp

lemma master_msg_fits: "master_msg msg \<Longrightarrow> length msg \<le> buf_size"
proof -
  assume msg: "master_msg msg"
  have "length (hash_msg lm @ [0]) \<le> 1024" if "\<forall>(fd, a) \<in> set lm. addr_ok a" "length lm \<le> 45" for lm :: "(int \<times> cstr) list"
    using hash_msg_length [OF that(1)] that(2) by simp
  moreover have "length (MOVE_DATA @ [10, 0]) \<le> 1024" "length (RECOVER_BACKUP @ [10]) \<le> 1024" "length UPDATE_BACKUP \<le> 20"
    by code_simp+
  moreover have "length (backup_cmd n @ [0]) \<le> 1024" if "addr_ok n" for n
    using that \<open>length UPDATE_BACKUP \<le> 20\<close> by (simp add: backup_cmd_def addr_ok_def)
  moreover have "length (backup_cmd n) \<le> 1024" if "addr_ok n" for n
    using that \<open>length UPDATE_BACKUP \<le> 20\<close> by (simp add: backup_cmd_def addr_ok_def)
  ultimately show ?thesis using msg unfolding master_msg_def buf_size_def by blast
qed

lemma register_msgs_form:
  assumes "master_ok m (ts @ [a])" and "length (ts @ [a]) \<le> 45" and "distinct (map snd (listenMap m))"
    and "(fd, msg) \<in> set (register_msgs rm ts a m)"
  shows "master_msg msg"
proof -
  have "addr_ok (server_name m a)" "ts \<noteq> [] \<Longrightarrow> addr_ok (server_name m (hd ts))"
    using registered(5) [OF assms(1)] by simp_all
  with assms(4) master_msg_hash [OF assms(1-3)] show ?thesis
    unfolding register_msgs_def by (auto simp: master_msg_def split: if_splits)
qed

lemma leave_msgs_form:
  assumes "master_ok m ts" and "a \<in> set ts" and "master_ok m' us" and "length us \<le> 45"
    and "distinct (map snd (listenMap m'))" and "(fd, msg) \<in> set (leave_msgs m ts a m')"
  shows "master_msg msg"
proof -
  have "addr_ok (server_name m (ring_next ts a))" by (rule registered(5) [OF assms(1) ring_next_in [OF assms(2)]])
  with assms(6) master_msg_hash [OF assms(3-5)] show ?thesis
    unfolding leave_msgs_def by (auto simp: master_msg_def split: if_splits)
qed

text \<open>The names after a registration and after a departure.\<close>

lemma names_entered:
  assumes "map_ok lm" and "map_of lm fd = None" and "distinct (map snd lm)" and "n \<notin> set (map snd lm)"
  shows "distinct (map snd (map_insert fd n lm))" "set (map snd (map_insert fd n lm)) = insert n (set (map snd lm))"
proof -
  have "mset (map_insert fd n lm) = add_mset (fd, n) (mset lm)"
    using assms(2) by (induction fd n lm rule: map_insert.induct) (auto split: if_splits)
  then have m: "mset (map snd (map_insert fd n lm)) = mset (n # map snd lm)" by simp
  from mset_eq_imp_distinct_iff [OF m] assms(3,4) show "distinct (map snd (map_insert fd n lm))" by simp
  from mset_eq_setD [OF m] show "set (map snd (map_insert fd n lm)) = insert n (set (map snd lm))" by simp
qed

lemma names_erased:
  "distinct (map snd lm) \<Longrightarrow> distinct (map snd (map_erase fd lm))" "set (map snd (map_erase fd lm)) \<subseteq> set (map snd lm)"
  unfolding map_erase_def by (auto intro: distinct_map_filter)

section \<open>Replies\<close>

definition reply_text :: "cstr list \<Rightarrow> cstr \<Rightarrow> cstr" where
  "reply_text ts n = (if n \<in> set ts then n @ 10 # ring_next ts n else n)"

lemma server_at_ok:
  assumes "servers_ok b c f M"
  shows "length (server_at M h) \<le> 63" "0 \<notin> set (server_at M h)"
proof -
  have "length (server_at M h) \<le> 63 \<and> 0 \<notin> set (server_at M h)"
  proof (cases "dom M = {}")
    case True
    then show ?thesis by (simp add: server_at_def null_name_def)
  next
    case False
    from server_at_owner(1) [OF assms this, of h] servers_okD(5) [OF assms] show ?thesis by blast
  qed
  then show "length (server_at M h) \<le> 63" "0 \<notin> set (server_at M h)" by blast+
qed

lemma distribute_runs:
  assumes ok: "master_ok m ts" and h: "servers_ok b (masterHash m) f M" and fits: "card (dom M) < 2 ^ 32"
  shows "GetDistribute addr k m = Some (m\<lparr>replies := replies m @ [(addr, reply_text ts (server_at M (f (c_str k))))]\<rparr>, 0)"
proof -
  note M = master_okD [OF ok]
  let ?n = "server_at M (f (c_str k))"
  note N = server_at_ok [OF h, of "f (c_str k)"]
  have get: "conhash_get_CacheServer (masterHash m) k = Some ?n" by (rule con_hash_get_runs [OF h fits])
  show ?thesis
  proof (cases "?n \<in> set ts")
    case True
    then have "addr_ok (ring_next ts ?n)"
      using registered(2) [OF ok ring_next_in] M(9) by blast
    with N have "to_buf (c_str (?n @ 10 # ring_next ts ?n)) = Some (?n @ 10 # ring_next ts ?n)"
      by (simp add: c_str_id addr_ok_def to_buf_def buf_size_def)
    with True servers_existed [OF M(1), of ?n] servers_next_prev(1) [OF M(1) True] show ?thesis
      by (simp add: GetDistribute_def get reply_text_def)
  next
    case False
    from N have "to_buf (c_str ?n) = Some ?n" by (simp add: c_str_id to_buf_def buf_size_def)
    with False servers_existed [OF M(1), of ?n] show ?thesis
      by (simp add: GetDistribute_def get reply_text_def)
  qed
qed

end
