(* ===== verification/MasterTheorems.thy ===== *)
theory MasterTheorems
  imports MasterRuns CacheTheorems
begin

text \<open>
  The properties of the master: a step relation over its events and requests with the invariant of
  the reachable states, then what registration, departure and lookup do, errors included.
\<close>

section \<open>Reachable states\<close>

lemma registed_length: "master_ok m ts \<Longrightarrow> length (registedMap m) = length ts"
  using distinct_card [OF map_ok_distinct [OF master_okD(2)], of m ts] servers_distinct [OF master_okD(1), of m ts] master_okD(5) [of m ts]
  by (simp add: dom_map_of_conv_image_fst distinct_card)

lemma ring_card: "card (dom (ring_of f ns)) \<le> card (set ns) * 32"
proof -
  have "card (server_pos f n) \<le> 32" for n
    using card_positions [of f "server_node n"] by (simp add: server_pos_def server_node_def conhash_set_node_def)
  then have "(\<Sum>n \<in> set ns. card (server_pos f n)) \<le> card (set ns) * 32"
    using sum_bounded_above [of "set ns" "\<lambda>n. card (server_pos f n)" 32] by simp
  moreover have "card (dom (ring_of f ns)) \<le> (\<Sum>n \<in> set ns. card (server_pos f n))"
    unfolding dom_ring_of by (rule card_UN_le) simp
  ultimately show ?thesis by linarith
qed

lemma hash_rel_fits:
  assumes "hash_rel f m ns" and "card (dom (nodes_map (masterHash m))) < 2 ^ 26"
  shows "card (dom (ring_of f ns)) < 2 ^ 32"
  using ring_card [of f ns] assms by (simp add: hash_rel_def)

text \<open>
  What the kernel reports: \<open>accept\<close> gives a descriptor and the address of a peer that no open connection
  has; other events are on connections that were accepted.
\<close>

definition event_possible :: "env \<Rightarrow> master \<Rightarrow> m_event \<Rightarrow> bool" where
  "event_possible e m ev \<longleftrightarrow>
     (if me_fd ev = master_client_sockfd m then True
      else if me_fd ev = m_lfd m then map_of (connections m) (me_cfd ev) = None \<and>
        sock_addr2str (little_endian e) (me_addr ev) \<notin> ran (map_of (connections m))
      else map_of (connections m) (me_fd ev) \<noteq> None)"

text \<open>
  A hypothesis on what the peers send, which the code does not check: a datagram has a zero byte
  in the buffer, and the text of a message is a number that fits an \<open>int\<close>.
\<close>

definition event_sound :: "master \<Rightarrow> m_event \<Rightarrow> bool" where
  "event_sound m ev \<longleftrightarrow>
     (if me_fd ev = master_client_sockfd m then 0 \<in> set (fill_buf (me_stack ev) (me_dgram ev))
      else if me_fd ev = m_lfd m then True
      else \<forall>msg. me_recv ev = Received msg \<longrightarrow> atoi (fill_buf (replicate buf_size 0) msg) \<noteq> None)"

definition event_ok :: "env \<Rightarrow> master \<Rightarrow> m_event \<Rightarrow> bool" where
  "event_ok e m ev \<longleftrightarrow> event_possible e m ev \<and> event_sound m ev"

text \<open>
  A hypothesis on the registrations, which the code does not check either: the connection is still
  open and not registered, its listening address is not in the hash ring, and there are fewer than
  45 servers.  \<open>master_reregister_faults\<close>, \<open>master_register_twice\<close> and \<open>master_update_hash_bound\<close> are what
  happens without it.
\<close>

definition request_ok :: "env \<Rightarrow> master \<Rightarrow> m_request \<Rightarrow> bool" where
  "request_ok e m r \<longleftrightarrow>
     (m_type r = REGISTER \<longrightarrow>
        (\<exists>a. map_of (connections m) (m_cfd r) = Some a \<and> map_of (registedMap m) a = None) \<and>
        m_cfd r \<in> set (open_fds (m_os m)) \<and> length (registedMap m) < 45 \<and>
        nodes_map (masterHash m) (sock_addr2str (little_endian e) (m_addr r)) = None) \<and>
     (m_type r = GETDISTRIBUTE \<longrightarrow> card (dom (nodes_map (masterHash m))) < 2 ^ 26)"

definition run_ok :: "env \<Rightarrow> master \<Rightarrow> bool" where
  "run_ok e m \<longleftrightarrow> (\<forall>p r. pool_next (m_queue m) = Some (p, Some r) \<longrightarrow> request_ok e m r)"

inductive master_reach :: "env \<Rightarrow> master \<Rightarrow> master \<Rightarrow> bool" for e :: env and m0 :: master where
  reach_start: "master_reach e m0 m0"
| reach_event: "master_reach e m0 m \<Longrightarrow> event_ok e m ev \<Longrightarrow> master_dispatch e ev m = Some (m', ret) \<Longrightarrow> master_reach e m0 m'"
| reach_run: "master_reach e m0 m \<Longrightarrow> run_ok e m \<Longrightarrow> master_run e m = Some m' \<Longrightarrow> master_reach e m0 m'"

text \<open>
  The listed names are different and in the hash ring, every message was well-formed, and every
  address of a connection can be read back.
\<close>

definition names_inv :: "master \<Rightarrow> cstr list \<Rightarrow> bool" where
  "names_inv m ns \<longleftrightarrow> distinct (map snd (listenMap m)) \<and> set (map snd (listenMap m)) \<subseteq> set ns \<and>
     [] \<notin> set ns \<and> (\<forall>p \<in> set (sent (m_os m)). master_msg (snd p)) \<and>
     (\<forall>a \<in> ran (map_of (connections m)). \<forall>le junk. str2sock_addr le junk a \<noteq> None)"

definition master_inv :: "(cstr \<Rightarrow> int) \<Rightarrow> master \<Rightarrow> bool" where
  "master_inv f m \<longleftrightarrow> m_epfd m \<noteq> - 1 \<and>
     (\<exists>ts ns. master_ok m ts \<and> hash_rel f m ns \<and> length ts \<le> 45 \<and> names_inv m ns)"

lemma all_appended: "xs = ys @ zs \<Longrightarrow> \<forall>x \<in> set ys. P x \<Longrightarrow> \<forall>x \<in> set zs. P x \<Longrightarrow> \<forall>x \<in> set xs. P x"
  by auto

lemma leave_names:
  assumes "names_inv m ns" and "master_ok m ts" and "a \<in> set ts" and "master_ok m' us" and "length us \<le> 45"
    and "listenMap m' = map_erase fd (listenMap m)" and "sent (m_os m') = sent (m_os m) @ leave_msgs m ts a m'"
    and "connections m' = map_erase fd (connections m)"
  shows "names_inv m' ns"
proof -
  from assms(1) have N: "distinct (map snd (listenMap m))" "set (map snd (listenMap m)) \<subseteq> set ns"
    "\<forall>p \<in> set (sent (m_os m)). master_msg (snd p)" "[] \<notin> set ns"
    "\<forall>a \<in> ran (map_of (connections m)). \<forall>le junk. str2sock_addr le junk a \<noteq> None" by (simp_all add: names_inv_def)
  have d: "distinct (map snd (listenMap m'))" unfolding assms(6) by (rule names_erased(1) [OF N(1)])
  have "\<forall>p \<in> set (leave_msgs m ts a m'). master_msg (snd p)" using leave_msgs_form [OF assms(2-5) d] by auto
  note all_appended [OF assms(7) N(3) this]
  moreover have "set (map snd (listenMap m')) \<subseteq> set ns" unfolding assms(6) by (rule order_trans [OF names_erased(2) N(2)])
  moreover have "ran (map_of (connections m')) \<subseteq> ran (map_of (connections m))"
    unfolding assms(8) by (auto simp: map_of_erase ran_def split: if_splits)
  ultimately show ?thesis using d N(4,5) unfolding names_inv_def by blast
qed

lemma register_names:
  assumes "names_inv m ns" and "master_ok m ts" and "map_of (listenMap m) cfd = None" and "n \<notin> set ns" and "n \<noteq> []"
    and "master_ok m' (ts @ [a])" and "length (ts @ [a]) \<le> 45"
    and "listenMap m' = map_insert cfd n (listenMap m)"
    and "sent (m_os m') = sent (m_os m) @ register_msgs rm ts a m'" and "connections m' = connections m"
  shows "names_inv m' (ns @ [n])"
proof -
  from assms(1) have N: "distinct (map snd (listenMap m))" "set (map snd (listenMap m)) \<subseteq> set ns"
    "\<forall>p \<in> set (sent (m_os m)). master_msg (snd p)" "[] \<notin> set ns"
    "\<forall>a \<in> ran (map_of (connections m)). \<forall>le junk. str2sock_addr le junk a \<noteq> None" by (simp_all add: names_inv_def)
  have "n \<notin> set (map snd (listenMap m))" using N(2) assms(4) by blast
  note E = names_entered [OF master_okD(4) [OF assms(2)] assms(3) N(1) this, folded assms(8)]
  note d = E(1)
  have "\<forall>p \<in> set (register_msgs rm ts a m'). master_msg (snd p)" using register_msgs_form [OF assms(6,7) d] by auto
  note all_appended [OF assms(9) N(3) this]
  moreover have "set (map snd (listenMap m')) \<subseteq> set (ns @ [n])" unfolding E(2) using N(2) by simp blast
  moreover have "[] \<notin> set (ns @ [n])" using N(4) assms(5) by simp
  ultimately show ?thesis using d N(5) assms(10) unfolding names_inv_def by metis
qed

lemma master_queue_keeps: "master_inv f (m\<lparr>m_queue := p\<rparr>) = master_inv f m"
  by (simp add: master_inv_def master_ok_def hash_rel_def names_inv_def)

lemma master_append_keeps: "master_inv f (fst (master_append r m)) = master_inv f m"
  by (simp add: master_append_def split_beta Let_def master_queue_keeps)

lemma master_replies_keeps: "master_inv f (m\<lparr>replies := p\<rparr>) = master_inv f m"
  by (simp add: master_inv_def master_ok_def hash_rel_def names_inv_def)

lemma accept_ok:
  assumes ok: "master_ok m ts" and "map_of (connections m) cfd = None" and "a \<notin> ran (map_of (connections m))" and "addr_ok a"
    and "set (open_fds o1) \<supseteq> set (open_fds (m_os m))"
  shows "master_ok (m\<lparr>m_os := o1, connections := map_insert cfd a (connections m)\<rparr>) ts"
  using assms master_okD(3) [OF ok]
  unfolding master_ok_def
  by (auto simp: map_of_insert map_insert_ok ran_def)

lemma server_event_inv:
  assumes inv: "master_inv f m" and ev: "event_ok e m ev" and server: "me_fd ev \<noteq> master_client_sockfd m" "me_fd ev \<noteq> m_lfd m"
  shows "\<exists>m' ret. master_dispatch e ev m = Some (m', ret) \<and> master_inv f m'"
proof -
  from inv obtain ts ns where ep: "m_epfd m \<noteq> - 1" and ok: "master_ok m ts" and h: "hash_rel f m ns" and len: "length ts \<le> 45"
    and nm: "names_inv m ns" by (auto simp: master_inv_def)
  from ev server obtain a where a: "map_of (connections m) (me_fd ev) = Some a" by (auto simp: event_ok_def event_possible_def)
  have run: "master_dispatch e ev m = (case me_recv ev of
      RecvError \<Rightarrow> Some (m, - 1) | Closed \<Rightarrow> master_leave (me_fd ev) a m
    | Received msg \<Rightarrow> master_dealwithCacheServer e (me_fd ev) (Received msg) m)"
    using server by (simp add: master_dispatch_def master_dealwithCacheServer_def at_present(3) [OF a] split: recv.splits)
  show ?thesis
  proof (cases "me_recv ev")
    case RecvError
    with run inv show ?thesis by simp
  next
    case Closed
    show ?thesis
    proof (cases "a \<in> set ts")
      case True
      from master_okD(8) [OF ok a registered(2) [OF ok True]] have "me_fd ev = fd_of m a" .
      from leave_runs [OF ok True this ep len] obtain m' where m': "master_leave (me_fd ev) a m = Some (m', 0)"
        "master_ok m' (filter (\<lambda>x. x \<noteq> a) ts)" "masterHash m' = masterHash m" "m_epfd m' = m_epfd m"
        "listenMap m' = map_erase (me_fd ev) (listenMap m)" "sent (m_os m') = sent (m_os m) @ leave_msgs m ts a m'"
        "connections m' = map_erase (me_fd ev) (connections m)" by blast
      from leave_names [OF nm ok True m'(2) le_trans [OF length_filter_le len] m'(5,6,7)] m'(2-4) ep h le_trans [OF length_filter_le len] have "master_inv f m'"
        by (auto simp: master_inv_def hash_rel_def)
      with run Closed m'(1) show ?thesis by simp
    next
      case False
      then have "\<not> isExisted a (connectList m)" using servers_existed [OF master_okD(1) [OF ok]] by blast
      with run Closed inv show ?thesis by (simp add: master_leave_def)
    qed
  next
    case (Received msg)
    with server ev obtain port where "atoi (fill_buf (replicate buf_size 0) msg) = Some port"
      by (auto simp: event_ok_def event_sound_def)
    moreover from nm a obtain b where "str2sock_addr (little_endian e) (junk_addr e) a = Some b"
      unfolding names_inv_def by (blast intro: ranI)
    ultimately show ?thesis using run Received inv
      by (auto simp: master_dealwithCacheServer_def at_present(3) [OF a] split_beta Let_def master_append_keeps)
  qed
qed

lemma dispatch_inv:
  assumes inv: "master_inv f m" and ev: "event_ok e m ev"
  shows "\<exists>m' ret. master_dispatch e ev m = Some (m', ret) \<and> master_inv f m'"
proof -
  from inv obtain ts ns where ep: "m_epfd m \<noteq> - 1" and ok: "master_ok m ts" and h: "hash_rel f m ns" and len: "length ts \<le> 45"
    and nm: "names_inv m ns" by (auto simp: master_inv_def)
  consider (client) "me_fd ev = master_client_sockfd m" | (listen) "me_fd ev \<noteq> master_client_sockfd m" "me_fd ev = m_lfd m"
    | (server) "me_fd ev \<noteq> master_client_sockfd m" "me_fd ev \<noteq> m_lfd m" by blast
  then show ?thesis
  proof cases
    case client
    with ev have "cstr_of (fill_buf (me_stack ev) (me_dgram ev)) \<noteq> None" by (simp add: event_ok_def event_sound_def cstr_of_def)
    then obtain k where "cstr_of (fill_buf (me_stack ev) (me_dgram ev)) = Some k" by blast
    with client inv show ?thesis
      by (auto simp: master_dispatch_def master_dealwithClient_def split_beta Let_def master_append_keeps)
  next
    case listen
    let ?a = "sock_addr2str (little_endian e) (me_addr ev)" and ?c = "me_cfd ev"
    let ?o = "fst (os_epoll_add ?c ((m_os m)\<lparr>open_fds := ?c # open_fds (m_os m)\<rparr>))"
    have "set (open_fds (m_os m)) \<subseteq> set (open_fds ?o)" by (auto simp: os_epoll_add_def)
    with accept_ok [OF ok _ _ sock_addr_ok this, of ?c] listen ev
    have "master_ok (m\<lparr>m_os := ?o, connections := map_insert ?c ?a (connections m)\<rparr>) ts" by (simp add: event_ok_def event_possible_def)
    moreover have "sent ?o = sent (m_os m)" by (simp add: os_epoll_add_def)
    moreover have "ran (map_of (map_insert ?c ?a (connections m))) \<subseteq> insert ?a (ran (map_of (connections m)))"
      using master_okD(3) [OF ok] by (auto simp: map_of_insert ran_def split: if_splits option.splits)
    with nm sock_addr_readable have "\<forall>x \<in> ran (map_of (map_insert ?c ?a (connections m))). \<forall>le junk. str2sock_addr le junk x \<noteq> None"
      unfolding names_inv_def by blast
    ultimately have "master_inv f (m\<lparr>m_os := ?o, connections := map_insert ?c ?a (connections m)\<rparr>)"
      using ep h len nm by (auto simp: master_inv_def hash_rel_def names_inv_def)
    with listen ep inv show ?thesis
      by (auto simp: master_dispatch_def master_dealwithNewConn_def master_epollAddfd_def split_beta Let_def)
  next
    case server
    from server_event_inv [OF inv ev this] show ?thesis .
  qed
qed

text \<open>The hypothesis on what the peers send is exactly what the handlers need.\<close>

lemma dispatch_exact:
  assumes "master_inv f m" and "event_possible e m ev"
  shows "master_dispatch e ev m = None \<longleftrightarrow> \<not> event_sound m ev"
proof (cases "event_sound m ev")
  case True
  with dispatch_inv [OF assms(1), of e ev] assms(2) show ?thesis by (auto simp: event_ok_def)
next
  case False
  then consider (client) "me_fd ev = master_client_sockfd m" "0 \<notin> set (fill_buf (me_stack ev) (me_dgram ev))"
    | (server) msg where "me_fd ev \<noteq> master_client_sockfd m" "me_fd ev \<noteq> m_lfd m" "me_recv ev = Received msg"
      "atoi (fill_buf (replicate buf_size 0) msg) = None"
    unfolding event_sound_def by (metis (full_types))
  then show ?thesis
    by cases (auto simp: False master_dispatch_def master_dealwithClient_def cstr_of_def
        master_dealwithCacheServer_def split_beta Let_def split: Option.bind_splits)
qed

lemma sock_addr_ne: "sock_addr2str le a \<noteq> []"
  by (simp add: sock_addr2str_def Let_def)

lemma register_inv:
  assumes inv: "master_inv f m" and e: "env_ok e" and r: "request_ok e m r" "m_type r = REGISTER"
  shows "\<exists>m'. master_Register e (m_addr r) (m_cfd r) m = Some (m', 0) \<and> master_inv f m'"
proof -
  from inv obtain ts ns where ep: "m_epfd m \<noteq> - 1" and ok: "master_ok m ts" and h: "hash_rel f m ns" and len: "length ts \<le> 45"
    and nm: "names_inv m ns" by (auto simp: master_inv_def)
  from r obtain a where a: "map_of (connections m) (m_cfd r) = Some a" "map_of (registedMap m) a = None"
    and R: "m_cfd r \<in> set (open_fds (m_os m))" "length (registedMap m) < 45"
      "nodes_map (masterHash m) (sock_addr2str (little_endian e) (m_addr r)) = None"
    by (auto simp: request_ok_def)
  have new: "a \<notin> set ts" using master_okD(5) [OF ok] a(2) by auto
  have len': "length ts < 45" using R(2) registed_length [OF ok] by simp
  have fresh: "sock_addr2str (little_endian e) (m_addr r) \<notin> set ns" using h R(3) by (auto simp: hash_rel_def)
  from hash_added [OF h e sock_addr_ok fresh] obtain h' where
    h': "conhash_add_CacheServer (new_obj e) (malloc_of e) (junk_node e) (sock_addr2str (little_endian e) (m_addr r)) (masterHash m) = Some h'"
    "\<And>m'. masterHash m' = h' \<Longrightarrow> hash_rel f m' (ns @ [sock_addr2str (little_endian e) (m_addr r)])" by blast
  from register_steps [OF ok e a(1) new R(1) refl len' h'(1)] obtain m' where
    m': "master_Register e (m_addr r) (m_cfd r) m = Some (m', 0)" "master_ok m' (ts @ [a])" "masterHash m' = h'" "m_epfd m' = m_epfd m"
      "listenMap m' = map_insert (m_cfd r) (sock_addr2str (little_endian e) (m_addr r)) (listenMap m)"
      "sent (m_os m') = sent (m_os m) @ register_msgs (registedMap m) ts a m'" "connections m' = connections m"
    by blast
  have "length (ts @ [a]) \<le> 45" using len' by simp
  moreover from register_names [OF nm ok unknown_server(2) [OF ok a(1) new] fresh sock_addr_ne m'(2) this m'(5,6,7)]
  have "names_inv m' (ns @ [sock_addr2str (little_endian e) (m_addr r)])" .
  ultimately have "master_inv f m'" using m' h'(2) [OF m'(3)] ep unfolding master_inv_def by metis
  with m'(1) show ?thesis by blast
qed

lemma run_inv:
  assumes inv: "master_inv f m" and e: "env_ok e" and r: "run_ok e m"
  shows "\<exists>m'. master_run e m = Some m' \<and> master_inv f m'"
proof (cases "pool_next (m_queue m)")
  case None
  with inv show ?thesis by (simp add: master_run_def)
next
  case (Some x)
  obtain p q where x: "x = (p, q)" by (cases x)
  let ?m = "m\<lparr>m_queue := p\<rparr>"
  have inv': "master_inv f ?m" using inv by (simp add: master_queue_keeps)
  show ?thesis
  proof (cases q)
    case None
    with Some x inv' show ?thesis by (simp add: master_run_def)
  next
    case (Some r)
    with \<open>pool_next (m_queue m) = Some x\<close> x \<open>run_ok e m\<close> have r: "request_ok e m r" by (simp add: run_ok_def)
    then have r': "request_ok e ?m r" by (simp add: request_ok_def)
    consider "m_type r = GETDISTRIBUTE" | "m_type r = REGISTER" | "m_type r \<noteq> GETDISTRIBUTE" "m_type r \<noteq> REGISTER" by blast
    then have "\<exists>m'. master_handle e r ?m = Some m' \<and> master_inv f m'"
    proof cases
      case 1
      with inv' r' obtain ts ns where "master_ok ?m ts" "hash_rel f ?m ns" "card (dom (ring_of f ns)) < 2 ^ 32"
        using hash_rel_fits by (auto simp: master_inv_def request_ok_def)
      from distribute_runs [OF this(1) _ this(3), of True f "m_addr r" "m_key r"] this(2) inv' 1 show ?thesis
        by (auto simp: master_handle_def hash_rel_def master_replies_keeps)
    next
      case 2
      then show ?thesis
        using register_inv [OF inv' e r' 2] by (auto simp: master_handle_def REGISTER_def GETDISTRIBUTE_def)
    next
      case 3
      with inv' show ?thesis by (simp add: master_handle_def)
    qed
    with Some x \<open>pool_next (m_queue m) = Some x\<close> show ?thesis by (simp add: master_run_def)
  qed
qed

lemma reach_inv: "master_reach e m0 m \<Longrightarrow> env_ok e \<Longrightarrow> master_inv f m0 \<Longrightarrow> master_inv f m"
proof (induction rule: master_reach.induct)
  case reach_start
  then show ?case by blast
next
  case (reach_event m ev m' ret)
  with dispatch_inv [of f m e ev] show ?case by auto
next
  case (reach_run m m')
  with run_inv [of f m e] show ?case by auto
qed

text \<open>Rounds of the event loop are steps, and it does not fault: what the network gives in each.\<close>

fun events_ok :: "env \<Rightarrow> m_event list \<Rightarrow> master \<Rightarrow> bool" where
  "events_ok e [] m = True"
| "events_ok e (ev # evs) m \<longleftrightarrow>
     event_ok e m ev \<and> (case master_dispatch e ev m of None \<Rightarrow> True | Some (m, ret) \<Rightarrow> events_ok e evs m)"

fun rounds_ok :: "env \<Rightarrow> m_event waited list \<Rightarrow> master \<Rightarrow> bool" where
  "rounds_ok e (Ready evs # ws) m \<longleftrightarrow>
     events_ok e evs m \<and> (case master_events e evs m of None \<Rightarrow> True | Some m \<Rightarrow> rounds_ok e ws m)"
| "rounds_ok e ws m = True"

lemma events_run:
  assumes "env_ok e" and "master_inv f m0" and "master_reach e m0 m" and "events_ok e evs m"
  shows "\<exists>m'. master_events e evs m = Some m' \<and> master_reach e m0 m'"
  using assms(3,4)
proof (induction evs arbitrary: m)
  case Nil
  then show ?case by simp
next
  case (Cons ev evs)
  from Cons.prems(2) have ev: "event_ok e m ev" by simp
  from dispatch_inv [OF reach_inv [OF Cons.prems(1) assms(1,2)] ev] obtain m1 ret where
    m1: "master_dispatch e ev m = Some (m1, ret)" by blast
  from Cons.IH [OF reach_event [OF Cons.prems(1) ev m1]] Cons.prems(2) m1 show ?case by simp
qed

lemma loop_runs:
  assumes "env_ok e" and "master_inv f m0" and "master_reach e m0 m" and "rounds_ok e ws m"
  shows "\<exists>m' x. master_EventLoop e ws m = Some (m', x) \<and> master_reach e m0 m'"
  using assms(3,4)
proof (induction ws arbitrary: m)
  case Nil
  then show ?case by simp
next
  case (Cons w ws)
  show ?case
  proof (cases w)
    case WaitFailed
    with Cons.prems(1) show ?thesis by simp
  next
    case (Ready evs)
    with Cons.prems(2) have "events_ok e evs m" by simp
    from events_run [OF assms(1,2) Cons.prems(1) this] obtain m1 where
      m1: "master_events e evs m = Some m1" "master_reach e m0 m1" by blast
    from Cons.IH [OF m1(2)] Cons.prems(2) m1(1) Ready show ?thesis by simp
  qed
qed

section \<open>The names in the hash ring\<close>

lemma server_pos_ne: "server_pos f n \<noteq> {}"
  by (simp add: server_pos_def positions_def server_node_def conhash_set_node_def)

lemma ring_of_ne: "ns \<noteq> [] \<Longrightarrow> dom (ring_of f ns) \<noteq> {}"
  using server_pos_ne by (simp add: dom_ring_of)

lemma ran_ring_of: "ran (ring_of f ns) \<subseteq> set ns"
  by (induction ns rule: rev_induct) (auto simp: ring_of_snoc ran_def add_keys_def ring_of_def split: if_splits)

lemma server_at_names: "hash_rel f m ns \<Longrightarrow> if ns = [] then server_at (ring_of f ns) h = null_name else server_at (ring_of f ns) h \<in> set ns"
proof -
  assume h: "hash_rel f m ns"
  show ?thesis
  proof (cases "ns = []")
    case True
    then show ?thesis by (simp add: server_at_def ring_of_def)
  next
    case False
    then have "dom (ring_of f ns) \<noteq> {}" by (rule ring_of_ne)
    with server_at_owner(2) [of True "masterHash m" f "ring_of f ns" h] h ran_ring_of [of f ns] False show ?thesis
      by (auto simp: hash_rel_def)
  qed
qed

section \<open>Properties of the master\<close>

text \<open>
  C3. A cache server that registers: the call succeeds, the tables and both rings have the server at
  the end, all servers get the new list of listening addresses, those that were there are asked to
  move their data, and the last of them is told to back up to the new one, the new one to the first.
\<close>

theorem master_register_correct:
  assumes "master_ok m ts" and "hash_rel f m ns" and "env_ok e"
    and "map_of (connections m) cfd = Some a" and "a \<notin> set ts" and "cfd \<in> set (open_fds (m_os m))"
    and "n = sock_addr2str (little_endian e) addr" and "n \<notin> set ns" and "length ts < 45"
  shows "\<exists>m'. master_Register e addr cfd m = Some (m', 0) \<and> master_ok m' (ts @ [a]) \<and> hash_rel f m' (ns @ [n]) \<and>
     registedMap m' = map_insert a cfd (registedMap m) \<and> listenMap m' = map_insert cfd n (listenMap m) \<and>
     fd_of m' a = cfd \<and> server_name m' a = n \<and>
     sent (m_os m') = sent (m_os m) @
       map (\<lambda>(fd, b). (fd, hash_msg (listenMap m') @ [0])) (listenMap m') @
       map (\<lambda>(b, fd). (fd, MOVE_DATA @ [10, 0])) (registedMap m) @
       (if ts = [] then []
        else [(fd_of m' (last ts), backup_cmd n @ [0]), (cfd, backup_cmd (server_name m' (hd ts)) @ [0])])"
proof -
  from hash_added [OF assms(2,3) _ assms(8)] sock_addr_ok assms(7) obtain h' where
    h': "conhash_add_CacheServer (new_obj e) (malloc_of e) (junk_node e) n (masterHash m) = Some h'"
    "\<And>m'. masterHash m' = h' \<Longrightarrow> hash_rel f m' (ns @ [n])" by metis
  from register_steps [OF assms(1,3-7,9) h'(1)] h'(2) show ?thesis
    unfolding register_msgs_def by fastforce
qed

text \<open>
  C4. A cache server whose connection is closed: the tables and the ring lose it and its descriptor is
  closed, the others get the new list of listening addresses, its successor is told to take over the
  backups and its predecessor to back up to the successor.
\<close>

theorem master_leave_correct:
  assumes "master_ok m ts" and "map_of (connections m) cfd = Some a" and "a \<in> set ts"
    and "m_epfd m \<noteq> - 1" and "length ts \<le> 45"
  shows "\<exists>m'. master_dealwithCacheServer e cfd Closed m = Some (m', 0) \<and> master_ok m' (filter (\<lambda>x. x \<noteq> a) ts) \<and>
     open_fds (m_os m') = removeAll cfd (open_fds (m_os m)) \<and> map_of (connections m') cfd = None \<and>
     sent (m_os m') = sent (m_os m) @
       map (\<lambda>(fd, b). (fd, hash_msg (listenMap m') @ [0])) (listenMap m') @
       (if ts = [a] then []
        else [(fd_of m (ring_next ts a), RECOVER_BACKUP @ [10]),
              (fd_of m (ring_prev ts a), backup_cmd (server_name m (ring_next ts a)))])"
proof -
  from master_okD(8) [OF assms(1,2) registered(2) [OF assms(1,3)]] have "cfd = fd_of m a" .
  from leave_runs [OF assms(1,3) this assms(4,5)] obtain m' where
    "master_leave cfd a m = Some (m', 0)" "master_ok m' (filter (\<lambda>x. x \<noteq> a) ts)" "connections m' = map_erase cfd (connections m)"
    "open_fds (m_os m') = removeAll cfd (open_fds (m_os m))" "sent (m_os m') = sent (m_os m) @ leave_msgs m ts a m'" by blast
  then show ?thesis
    by (auto simp: master_dealwithCacheServer_def at_present(3) [OF assms(2)] leave_msgs_def map_of_erase)
qed

text \<open>
  The reply to a client is the server at the position of the key in the ring of all listening
  addresses that ever registered, or the text for none; a second line with the next server, which
  would be the backup, is there only when that name is also the address of a connection.
\<close>

theorem master_reply_correct:
  assumes "master_ok m ts" and "hash_rel f m ns" and "card (dom (ring_of f ns)) < 2 ^ 32"
  shows "\<exists>n. GetDistribute addr k m =
       Some (m\<lparr>replies := replies m @ [(addr, if n \<in> set ts then n @ 10 # ring_next ts n else n)]\<rparr>, 0) \<and>
     n = server_at (ring_of f ns) (f (c_str k)) \<and> (if ns = [] then n = null_name else n \<in> set ns)"
  using distribute_runs [OF assms(1) _ assms(3)] server_at_names [OF assms(2)] assms(2)
  unfolding hash_rel_def reply_text_def by blast

text \<open>
  A server that left is never taken out of the hash ring: after its connection was closed, and its
  descriptor and entries are gone, clients are still sent to its listening address.
\<close>

theorem master_keeps_dead_server:
  assumes "master_ok m ts" and "hash_rel f m ns" and "card (dom (ring_of f ns)) < 2 ^ 32"
    and "map_of (connections m) cfd = Some a" and "a \<in> set ts" and "m_epfd m \<noteq> - 1" and "length ts \<le> 45"
    and "server_at (ring_of f ns) (f (c_str k)) = server_name m a" and "server_name m a \<notin> set ts"
  shows "\<exists>m' m''. master_dealwithCacheServer e cfd Closed m = Some (m', 0) \<and>
     cfd \<notin> set (open_fds (m_os m')) \<and> map_of (listenMap m') cfd = None \<and>
     GetDistribute addr k m' = Some (m'', 0) \<and> replies m'' = replies m @ [(addr, server_name m a)]"
proof -
  from master_okD(8) [OF assms(1,4) registered(2) [OF assms(1,5)]] have cfd: "cfd = fd_of m a" .
  from leave_runs [OF assms(1,5) cfd assms(6,7)] obtain m' where m':
    "master_leave cfd a m = Some (m', 0)" "master_ok m' (filter (\<lambda>x. x \<noteq> a) ts)" "masterHash m' = masterHash m"
    "replies m' = replies m" "connections m' = map_erase cfd (connections m)" "open_fds (m_os m') = removeAll cfd (open_fds (m_os m))" by blast
  have "cfd \<notin> ran (map_of (registedMap m'))"
    using master_okD(7) [OF m'(2)] m'(6) by (auto simp: ran_def)
  then have "map_of (listenMap m') cfd = None" using master_okD(6) [OF m'(2)] by (metis domIff)
  moreover have "master_dealwithCacheServer e cfd Closed m = Some (m', 0)"
    using m'(1) by (simp add: master_dealwithCacheServer_def at_present(3) [OF assms(4)])
  moreover have "reply_text (filter (\<lambda>x. x \<noteq> a) ts) (server_name m a) = server_name m a"
    using assms(9) by (simp add: reply_text_def)
  ultimately show ?thesis
    using distribute_runs [OF m'(2) _ assms(3), of True f addr k] assms(2,8) m'(3,4,6) by (simp add: hash_rel_def)
qed

text \<open>
  C36. A server that comes back: when a new connection registers a listening address that the hash
  ring still has, the registration succeeds, but it frees a node that the ring points to, and the next
  lookup that ends at this server faults.
\<close>

theorem master_reregister_faults:
  assumes "master_ok m ts" and "hash_rel f m ns" and "env_ok e" and "card (dom (ring_of f ns)) < 2 ^ 32"
    and "map_of (connections m) cfd = Some a" and "a \<notin> set ts" and "cfd \<in> set (open_fds (m_os m))" and "length ts < 45"
    and "n = sock_addr2str (little_endian e) addr" and "n \<in> set ns" and "server_at (ring_of f ns) (f (c_str k)) = n"
  shows "\<exists>m'. master_Register e addr cfd m = Some (m', 0) \<and> GetDistribute client k m' = None"
proof -
  have "server_pos f n \<subseteq> dom (ring_of f ns)" "dom (ring_of f ns) \<noteq> {}"
    using assms(10) server_pos_ne by (auto simp: dom_ring_of)
  with con_hash_readd_runs [of "masterHash m" f "ring_of f ns" "new_obj e" "malloc_of e" n k "junk_node e"] assms(2-4,10,11)
  obtain h' where h': "conhash_add_CacheServer (new_obj e) (malloc_of e) (junk_node e) n (masterHash m) = Some h'"
    "conhash_get_CacheServer h' k = None" by (auto simp: hash_rel_def env_ok_def)
  from register_steps [OF assms(1,3,5-7,9,8) h'(1)] h'(2) show ?thesis
    by (auto simp: GetDistribute_def)
qed

text \<open>
  A second registration on the same connection is refused and nothing is sent, but the ring of
  servers has got a second node for it: no sequence of servers describes the tables any more.
\<close>

theorem master_register_twice:
  assumes ok: "master_ok m ts" and e: "env_ok e" and c: "map_of (connections m) cfd = Some a" and a: "a \<in> set ts"
  shows "\<exists>m'. master_Register e addr cfd m = Some (m', - 1) \<and> m_os m' = m_os m \<and> masterHash m' = masterHash m \<and>
     map_of (registedMap m') = map_of (registedMap m) \<and> map_of (listenMap m') = map_of (listenMap m) \<and>
     server_count (connectList m') = int (length ts) + 1 \<and> (\<forall>us. \<not> master_ok m' us)"
proof -
  note M = master_okD [OF ok] and R = registered [OF ok a]
  have cfd: "cfd = fd_of m a" using M(8) [OF c R(2)] .
  from servers_add_again [OF M(1) a] e obtain l where
    l: "server_add (new_obj e) a (connectList m) = Some l" "server_count l = server_count (connectList m) + 1"
    "\<forall>us. \<not> servers_rel l us" by (auto simp: env_ok_def)
  let ?n = "sock_addr2str (little_endian e) addr"
  have "master_Register e addr cfd m = Some (entered a cfd ?n l m, - 1)"
    using R(1) l(1) by (simp add: master_Register_def at_present(3) [OF c] entered_def)
  with l(2,3) servers_distinct [OF M(1)] show ?thesis
    using R cfd map_of_insert [OF M(2), of a cfd] map_of_insert [OF M(4), of cfd ?n]
    by (auto simp: entered_def master_ok_def)
qed

text \<open>
  C37. The buffer of the list of servers: with up to 45 servers the message fits; in general it
  overflows the buffer exactly when the code word, the addresses and their line ends have 1024
  bytes or more.
\<close>

theorem master_update_hash_bound:
  assumes "master_ok m ts"
  shows "(master_UpdateHash m = None \<longleftrightarrow>
       1024 \<le> 12 + (\<Sum>(fd, a) \<leftarrow> listenMap m. length a + 1)) \<and>
     (length ts \<le> 45 \<longrightarrow> (\<exists>m'. master_UpdateHash m = Some m'))"
proof -
  have "length UPDATE_HASH = 11" by code_simp
  moreover have "length (concat (map (\<lambda>(fd, a). a @ [10 :: u8]) lm)) = (\<Sum>(fd :: int, a) \<leftarrow> lm. length a + 1)" for lm
    by (induction lm) auto
  ultimately have "length (hash_msg (listenMap m)) = 12 + (\<Sum>(fd, a) \<leftarrow> listenMap m. length a + 1)"
    by (simp add: hash_msg_def)
  with UpdateHash_cases [OF listed(2) [OF assms]] UpdateHash_runs [OF assms] show ?thesis by auto
qed

section \<open>Witnesses\<close>

text \<open>A master without servers and two connections; then one of them registers.\<close>

definition demo_master :: master where
  "demo_master = \<lparr>masterHash = the (con_hash_new byte_sum True), registedMap = [], connections = [(5, [49]), (6, [50])],
     listenMap = [], connectList = server_list_new new_first [], m_epfd = 9, m_lfd = 3, master_client_sockfd = 4,
     m_queue = \<lparr>workqueue = [], queuestat = 0\<rparr>, m_os = \<lparr>open_fds = [3, 4, 9, 5, 6], epoll_fds = [3, 4, 5, 6], sent = []\<rparr>,
     replies = []\<rparr>"

definition demo_name :: cstr where
  "demo_name = sock_addr2str True demo_addr"

lemma demo_name_facts: "demo_name \<noteq> [49]" "demo_name \<noteq> [50]"
  by code_simp+

lemma demo_master_ok: "master_ok demo_master []" "hash_rel byte_sum demo_master []"
proof -
  show "master_ok demo_master []"
    unfolding master_ok_def demo_master_def
    by (auto simp: servers_new [OF new_first_ok] map_ok_def addr_ok_def split: if_splits)
  from con_hash_new_ok [of byte_sum] show "hash_rel byte_sum demo_master []"
    by (auto simp: hash_rel_def demo_master_def ring_of_def)
qed

lemma demo_registered:
  "\<exists>m. master_Register demo_env demo_addr 5 demo_master = Some (m, 0) \<and> master_ok m [[49]] \<and> hash_rel byte_sum m [demo_name] \<and>
     fd_of m [49] = 5 \<and> server_name m [49] = demo_name \<and> connections m = connections demo_master \<and> m_epfd m = 9 \<and>
     6 \<in> set (open_fds (m_os m))"
proof -
  have "nodes_map (masterHash demo_master) = Map.empty"
    using con_hash_new_ok [of byte_sum] by (auto simp: demo_master_def)
  from hash_added [OF demo_master_ok(2) demo_env_ok(1), of demo_name] sock_addr_ok [of True demo_addr] obtain h' where
    h': "conhash_add_CacheServer (new_obj demo_env) (malloc_of demo_env) (junk_node demo_env) demo_name (masterHash demo_master) = Some h'"
    "\<And>m'. masterHash m' = h' \<Longrightarrow> hash_rel byte_sum m' [demo_name]" unfolding demo_name_def by auto
  have n: "demo_name = sock_addr2str (little_endian demo_env) demo_addr" by (simp add: demo_name_def demo_env_def)
  have c: "map_of (connections demo_master) 5 = Some [49]" "5 \<in> set (open_fds (m_os demo_master))" "m_epfd demo_master = 9"
    "6 \<in> set (open_fds (m_os demo_master))" by (simp_all add: demo_master_def)
  from register_steps [OF demo_master_ok(1) demo_env_ok(1) c(1) _ c(2) n _ h'(1)] h'(2) c(3,4) show ?thesis by auto
qed

lemma demo_ring: "server_at (ring_of byte_sum [demo_name]) h = demo_name" "card (dom (ring_of byte_sum [demo_name])) < 2 ^ 32"
proof -
  obtain m where m: "hash_rel byte_sum m [demo_name]" using demo_registered by blast
  with server_at_names [OF m, of h] show "server_at (ring_of byte_sum [demo_name]) h = demo_name" by simp
  from m have "card (dom (nodes_map (masterHash m))) < 2 ^ 26" by (simp add: hash_rel_def)
  from hash_rel_fits [OF m this] show "card (dom (ring_of byte_sum [demo_name])) < 2 ^ 32" .
qed

theorem master_register_witness:
  "\<exists>m. master_Register demo_env demo_addr 5 demo_master = Some (m, 0) \<and>
     sent (m_os m) = map (\<lambda>(fd, b). (fd, hash_msg (listenMap m) @ [0])) (listenMap m)"
proof -
  have n: "demo_name = sock_addr2str (little_endian demo_env) demo_addr" by (simp add: demo_name_def demo_env_def)
  have c: "map_of (connections demo_master) 5 = Some [49]" "5 \<in> set (open_fds (m_os demo_master))"
    "sent (m_os demo_master) = []" "registedMap demo_master = []" by (simp_all add: demo_master_def)
  from master_register_correct [OF demo_master_ok demo_env_ok(1) c(1) _ c(2) n] c(3,4) show ?thesis by auto
qed

theorem master_leave_witness:
  "\<exists>m m'. master_Register demo_env demo_addr 5 demo_master = Some (m, 0) \<and>
     master_dealwithCacheServer demo_env 5 Closed m = Some (m', 0) \<and> master_ok m' []"
proof -
  obtain m where m: "master_Register demo_env demo_addr 5 demo_master = Some (m, 0)" "master_ok m [[49]]"
    "connections m = connections demo_master" "m_epfd m = 9" using demo_registered by blast
  have "map_of (connections m) 5 = Some [49]" by (simp add: m(3) demo_master_def)
  from master_leave_correct [OF m(2) this, of demo_env] m(1,4) show ?thesis by auto
qed

theorem master_reply_witness:
  "\<exists>m m'. master_Register demo_env demo_addr 5 demo_master = Some (m, 0) \<and>
     GetDistribute demo_addr [107] m = Some (m', 0) \<and> replies m' = replies m @ [(demo_addr, demo_name)]"
proof -
  obtain m where m: "master_Register demo_env demo_addr 5 demo_master = Some (m, 0)" "master_ok m [[49]]" "hash_rel byte_sum m [demo_name]"
    using demo_registered by blast
  from master_reply_correct [OF m(2,3) demo_ring(2), of demo_addr "[107]"] demo_name_facts m(1) show ?thesis by auto
qed

theorem master_keeps_dead_server_witness:
  "\<exists>m m1 m2. master_Register demo_env demo_addr 5 demo_master = Some (m, 0) \<and>
     master_dealwithCacheServer demo_env 5 Closed m = Some (m1, 0) \<and>
     GetDistribute demo_addr [107] m1 = Some (m2, 0) \<and> replies m2 = replies m @ [(demo_addr, demo_name)]"
proof -
  obtain m where m: "master_Register demo_env demo_addr 5 demo_master = Some (m, 0)" "master_ok m [[49]]" "hash_rel byte_sum m [demo_name]"
    "server_name m [49] = demo_name" "connections m = connections demo_master" "m_epfd m = 9" using demo_registered by blast
  have "map_of (connections m) 5 = Some [49]" by (simp add: m(5) demo_master_def)
  from master_keeps_dead_server [OF m(2,3) demo_ring(2) this, of "[107]" demo_env demo_addr] demo_ring(1) demo_name_facts m(1,4,6)
  show ?thesis by auto
qed

theorem master_reregister_witness:
  "\<exists>m m'. master_Register demo_env demo_addr 5 demo_master = Some (m, 0) \<and>
     master_Register demo_env demo_addr 6 m = Some (m', 0) \<and> GetDistribute demo_addr [107] m' = None"
proof -
  obtain m where m: "master_Register demo_env demo_addr 5 demo_master = Some (m, 0)" "master_ok m [[49]]" "hash_rel byte_sum m [demo_name]"
    "connections m = connections demo_master" "6 \<in> set (open_fds (m_os m))" using demo_registered by blast
  have n: "demo_name = sock_addr2str (little_endian demo_env) demo_addr" by (simp add: demo_name_def demo_env_def)
  have "map_of (connections m) 6 = Some [50]" by (simp add: m(4) demo_master_def)
  from master_reregister_faults [OF m(2,3) demo_env_ok(1) demo_ring(2) this _ m(5) _ n, of "[107]" demo_addr] demo_ring(1) m(1)
  show ?thesis by auto
qed

theorem master_register_twice_witness:
  "\<exists>m m'. master_Register demo_env demo_addr 5 demo_master = Some (m, 0) \<and>
     master_Register demo_env demo_addr 5 m = Some (m', - 1) \<and> server_count (connectList m') = 2"
proof -
  obtain m where m: "master_Register demo_env demo_addr 5 demo_master = Some (m, 0)" "master_ok m [[49]]"
    "connections m = connections demo_master" using demo_registered by blast
  have "map_of (connections m) 5 = Some [49]" by (simp add: m(3) demo_master_def)
  from master_register_twice [OF m(2) demo_env_ok(1) this, of demo_addr] m(1) show ?thesis by auto
qed

theorem master_update_hash_witness: "\<exists>m'. master_UpdateHash demo_master = Some m'"
  using master_update_hash_bound [OF demo_master_ok(1)] by simp

end
