(* ===== verification/Cluster.thy ===== *)
theory Cluster
  imports MasterTheorems CacheTheorems
begin

text \<open>
  The master and the cache servers together: what a cache server makes of the messages that the
  master sends, and whether the two agree about the server of a key.
\<close>

section \<open>Messages of the master as the cache server reads them\<close>

abbreviation names :: "(int \<times> cstr) list \<Rightarrow> cstr list" where
  "names lm \<equiv> map snd lm"

lemma hash_lines: "concat (map (\<lambda>(fd, a). a @ [10]) lm) = concat (map (\<lambda>s. s @ [10]) (names lm))"
  by (induction lm) auto

lemma read_lines_then:
  assumes "\<forall>s \<in> set ss. 10 \<notin> set s"
  shows "read_lines (concat (map (\<lambda>s. s @ [10]) ss) @ t) [] ls = read_lines t [] (ls @ ss)"
  using assms
proof (induction ss arbitrary: ls)
  case Nil
  then show ?case by simp
next
  case (Cons s ss)
  then show ?case using read_lines_line [of s "concat (map (\<lambda>s. s @ [10]) ss) @ t" "[]" ls] by simp
qed

text \<open>The list of servers and what else was in the stream.\<close>

lemma read_hash_msg:
  assumes lm: "\<forall>(fd, a) \<in> set lm. addr_ok a"
  shows "cache_dealwithMasterMsg e ret (Received (hash_msg lm @ t)) s =
     map_option (\<lambda>(s, x). (s, ret)) (cache_updateHash e (read_lines t [] (names lm)) s)"
proof -
  let ?ls = "concat (map (\<lambda>s. s @ [10 :: u8]) (names lm)) @ t"
  let ?msg = "UPDATE_HASH @ 10 # ?ls"
  have msg: "hash_msg lm @ t = ?msg" by (simp add: hash_msg_def hash_lines)
  have line: "read_line (fill_buf (replicate buf_size 0) ?msg) 0 [] = Some (UPDATE_HASH, length UPDATE_HASH)"
    using read_line_found [OF code_no_newline(2), of "?ls @ drop (length ?msg) (replicate buf_size 0)" 0 "[]"]
    by (simp add: fill_buf_def)
  have rest: "take (length ?msg - (length UPDATE_HASH + 1)) (drop (length UPDATE_HASH + 1) (fill_buf (replicate buf_size 0) ?msg)) = ?ls"
    by (simp add: fill_buf_def)
  have "\<forall>s \<in> set (names lm). 10 \<notin> set s" using lm by (auto simp: addr_ok_def)
  from read_lines_then [OF this, of t "[]"] have lines: "read_lines ?ls [] [] = read_lines t [] (names lm)" by simp
  show ?thesis
    unfolding cache_dealwithMasterMsg_def msg
    using code_neq(2) by (simp only: recv.case Let_def line bind_Some_eq prod.case rest lines if_False if_True refl)
      (auto split: option.splits bind_splits)
qed

text \<open>The commands, with what comes after the line feed.\<close>

lemma read_command:
  assumes "10 \<notin> set cmd"
  shows "read_line (fill_buf (replicate buf_size 0) (cmd @ 10 # t)) 0 [] = Some (cmd, length cmd)"
  using read_line_found [OF assms, of "t @ drop (length (cmd @ 10 # t)) (replicate buf_size 0)" 0 "[]"] by (simp add: fill_buf_def)

lemma read_move: "cache_dealwithMasterMsg e ret (Received (MOVE_DATA @ 10 # t)) s = Some (s\<lparr>tasks := tasks s @ [MoveTask]\<rparr>, ret)"
  unfolding cache_dealwithMasterMsg_def recv.case Let_def read_command [OF code_no_newline(5)] by simp

lemma read_recover: "cache_dealwithMasterMsg e ret (Received (RECOVER_BACKUP @ 10 # t)) s = Some (cache_recoverBackup s, ret)"
  unfolding cache_dealwithMasterMsg_def recv.case Let_def read_command [OF code_no_newline(4)] using code_neq by simp

lemma read_backup:
  assumes "addr_ok n"
  shows "cache_dealwithMasterMsg e ret (Received (backup_cmd n @ t)) s = Some (s\<lparr>tasks := tasks s @ [UpdateTask n]\<rparr>, ret)"
proof -
  have "10 \<notin> set n" using assms by (simp add: addr_ok_def)
  from read_line_found [OF this, of "t @ drop (length (backup_cmd n @ t)) (replicate buf_size 0)" "length UPDATE_BACKUP + 1" "[]"]
  have line: "read_line (drop (length UPDATE_BACKUP + 1) (fill_buf (replicate buf_size 0) (backup_cmd n @ t))) (length UPDATE_BACKUP + 1) [] =
      Some (n, length UPDATE_BACKUP + 1 + length n)" by (simp add: fill_buf_def backup_cmd_def)
  have cmd: "read_line (fill_buf (replicate buf_size 0) (backup_cmd n @ t)) 0 [] = Some (UPDATE_BACKUP, length UPDATE_BACKUP)"
    using read_command [OF code_no_newline(3), of "n @ 10 # t"] by (simp add: backup_cmd_def)
  show ?thesis
    unfolding cache_dealwithMasterMsg_def recv.case Let_def cmd bind_Some_eq prod.case line using code_neq(3,4) by simp
qed

lemma names_ok:
  assumes "master_ok m ts"
  shows "\<forall>n \<in> set (names (listenMap m)). addr_ok n" "\<forall>n \<in> set (names (listenMap m)). name_ok n"
  using listed(2) [OF assms] addr_name_ok by fastforce+

text \<open>A cache server after the list of servers.\<close>

lemma cache_follows:
  assumes ok: "master_ok m ts" and d: "distinct (names (listenMap m))" and e: "env_ok e"
    and c: "\<forall>c. cacheServerHash s = Some c \<longrightarrow> (\<exists>b f M. servers_ok b c f M)"
  shows "\<exists>c. cache_dealwithMasterMsg e ret (Received (hash_msg (listenMap m) @ [0])) s =
       Some (s\<lparr>cacheServerHash := Some c\<rparr>, ret) \<and>
     servers_ok True c (default_hash e) (ring_of (default_hash e) (names (listenMap m))) \<and>
     dom (nodes_map c) = set (names (listenMap m))"
proof -
  from updateHash_runs [OF e _ d names_ok(2) [OF ok], of s] c obtain c' where
    c': "cache_updateHash e (names (listenMap m)) s = Some (s\<lparr>cacheServerHash := Some c'\<rparr>, 0)"
    "servers_ok True c' (default_hash e) (ring_of (default_hash e) (names (listenMap m)))"
    "dom (nodes_map c') = set (names (listenMap m))" by blast
  with read_hash_msg [OF listed(2) [OF ok], of e ret "[0]" s] show ?thesis
    by (intro exI [of _ c']) simp
qed

lemma names_fit: "master_ok m ts \<Longrightarrow> length ts \<le> 45 \<Longrightarrow> card (dom (ring_of f (names (listenMap m)))) < 2 ^ 32"
proof -
  assume "master_ok m ts" "length ts \<le> 45"
  then have "card (set (names (listenMap m))) \<le> 45" using card_length [of "names (listenMap m)"] listed_length by fastforce
  then show ?thesis using ring_card [of f "names (listenMap m)"] by simp
qed

text \<open>
  What a cache server has done after a message: for a list of servers, a ring of exactly these servers; for the
  command to move data a thread that does, for the one to recover the backup taken over, and for a backup
  server a thread that copies to it.
\<close>

definition cache_obeys :: "env \<Rightarrow> cstr \<Rightarrow> cache_server \<Rightarrow> cache_server \<Rightarrow> bool" where
  "cache_obeys e msg s s' \<longleftrightarrow>
     (\<exists>lm c. (\<forall>(fd, a) \<in> set lm. addr_ok a) \<and> distinct (names lm) \<and> msg = hash_msg lm @ [0] \<and>
        s' = s\<lparr>cacheServerHash := Some c\<rparr> \<and> dom (nodes_map c) = set (names lm) \<and>
        servers_ok True c (default_hash e) (ring_of (default_hash e) (names lm))) \<or>
     msg = MOVE_DATA @ [10, 0] \<and> s' = s\<lparr>tasks := tasks s @ [MoveTask]\<rparr> \<or>
     msg = RECOVER_BACKUP @ [10] \<and> s' = cache_recoverBackup s \<or>
     (\<exists>n. addr_ok n \<and> (msg = backup_cmd n \<or> msg = backup_cmd n @ [0]) \<and> s' = s\<lparr>tasks := tasks s @ [UpdateTask n]\<rparr>)"

lemma obeys_list:
  assumes "\<forall>(fd, a) \<in> set lm. addr_ok a" and "distinct (names lm)" and e: "env_ok e"
    and c: "\<forall>c. cacheServerHash s = Some c \<longrightarrow> (\<exists>b f M. servers_ok b c f M)"
  shows "\<exists>s'. cache_dealwithMasterMsg e ret (Received (hash_msg lm @ [0])) s = Some (s', ret) \<and>
    cache_obeys e (hash_msg lm @ [0]) s s'"
proof -
  have "\<forall>n \<in> set (names lm). name_ok n" using assms(1) addr_name_ok by fastforce
  from updateHash_runs [OF e _ assms(2) this, of s] c obtain c' where
    c': "cache_updateHash e (names lm) s = Some (s\<lparr>cacheServerHash := Some c'\<rparr>, 0)"
    "servers_ok True c' (default_hash e) (ring_of (default_hash e) (names lm))" "dom (nodes_map c') = set (names lm)" by blast
  have "cache_obeys e (hash_msg lm @ [0]) s (s\<lparr>cacheServerHash := Some c'\<rparr>)"
    unfolding cache_obeys_def using c'(2,3) assms(1,2) by blast
  with read_hash_msg [OF assms(1), of e ret "[0]" s] c'(1) show ?thesis by simp
qed

lemma cache_understands:
  assumes "master_msg msg" and "env_ok e" and "\<forall>c. cacheServerHash s = Some c \<longrightarrow> (\<exists>b f M. servers_ok b c f M)"
  shows "\<exists>s'. cache_dealwithMasterMsg e ret (Received msg) s = Some (s', ret) \<and> cache_obeys e msg s s'"
proof -
  from assms(1) consider (list) lm where "\<forall>(fd, a) \<in> set lm. addr_ok a" "distinct (names lm)" "msg = hash_msg lm @ [0]"
    | (move) "msg = MOVE_DATA @ [10, 0]" | (recover) "msg = RECOVER_BACKUP @ [10]"
    | (backup) n where "addr_ok n" "msg = backup_cmd n \<or> msg = backup_cmd n @ [0]" unfolding master_msg_def by blast
  then show ?thesis
  proof cases
    case list
    from obeys_list [OF list(1,2) assms(2,3)] list(3) show ?thesis by blast
  next
    case move
    with read_move [of e ret "[0]" s] show ?thesis by (simp add: cache_obeys_def)
  next
    case recover
    with read_recover [of e ret "[]" s] show ?thesis by (simp add: cache_obeys_def)
  next
    case backup
    with read_backup [OF backup(1), of e ret "[]" s] read_backup [OF backup(1), of e ret "[0]" s] show ?thesis
      unfolding cache_obeys_def by auto
  qed
qed

text \<open>The names after a server has left.\<close>

lemma names_left:
  assumes "master_ok m ts" and "a \<in> set ts" and d: "distinct (names (listenMap m))"
  shows "server_name m a \<notin> set (names (map_erase (fd_of m a) (listenMap m)))"
    "distinct (names (map_erase (fd_of m a) (listenMap m)))"
proof -
  have mem: "(fd_of m a, server_name m a) \<in> set (listenMap m)" by (rule map_of_SomeD [OF registered(4) [OF assms(1,2)]])
  show "server_name m a \<notin> set (names (map_erase (fd_of m a) (listenMap m)))"
  proof
    assume "server_name m a \<in> set (names (map_erase (fd_of m a) (listenMap m)))"
    then obtain fd where "(fd, server_name m a) \<in> set (listenMap m)" "fd \<noteq> fd_of m a" unfolding map_erase_def by auto
    with mem d show False
      using inj_onD [of snd "set (listenMap m)" "(fd, server_name m a)" "(fd_of m a, server_name m a)"] by (auto simp: distinct_map)
  qed
  show "distinct (names (map_erase (fd_of m a) (listenMap m)))" using d unfolding map_erase_def by (rule distinct_map_filter)
qed

section \<open>Rings of the same servers\<close>

lemma ring_of_disjoint:
  assumes "\<forall>n \<in> set ns. \<forall>n' \<in> set ns. n \<noteq> n' \<longrightarrow> server_pos f n \<inter> server_pos f n' = {}"
  shows "ring_of f ns k = Some n \<longleftrightarrow> n \<in> set ns \<and> k \<in> server_pos f n"
  using assms
proof (induction ns arbitrary: n rule: rev_induct)
  case Nil
  then show ?case by (simp add: ring_of_def)
next
  case (snoc x ns)
  then have IH: "ring_of f ns k = Some n \<longleftrightarrow> n \<in> set ns \<and> k \<in> server_pos f n" for n by auto
  show ?case
  proof (cases "ring_of f ns k")
    case None
    with IH snoc.prems show ?thesis by (auto simp: ring_of_snoc add_keys_def)
  next
    case (Some y)
    with IH have y: "y \<in> set ns" "k \<in> server_pos f y" by blast+
    have "n = y" if "n \<in> set (ns @ [x])" "k \<in> server_pos f n"
      using snoc.prems that y by (metis IntI UnCI emptyE set_append)
    with Some y show ?thesis by (auto simp: ring_of_snoc add_keys_def)
  qed
qed

lemma ring_of_same:
  assumes "set ns = set ns'" and "\<forall>n \<in> set ns. \<forall>n' \<in> set ns. n \<noteq> n' \<longrightarrow> server_pos f n \<inter> server_pos f n' = {}"
  shows "ring_of f ns = ring_of f ns'"
proof
  fix k
  have "ring_of f ns k = Some n \<longleftrightarrow> ring_of f ns' k = Some n" for n
    using ring_of_disjoint [of ns f k n] ring_of_disjoint [of ns' f k n] assms by simp
  then show "ring_of f ns k = ring_of f ns' k" by (metis option.exhaust)
qed

section \<open>Properties of the composition\<close>

text \<open>
  C13. The list of servers round trip: every registered server gets exactly one message, and a cache server that
  reads it rebuilds the ring of the listening addresses in the order of the descriptors.
\<close>

theorem update_hash_roundtrip:
  assumes "master_ok m ts" and "length ts \<le> 45" and "distinct (names (listenMap m))" and "env_ok e"
    and "\<forall>c. cacheServerHash s = Some c \<longrightarrow> (\<exists>b f M. servers_ok b c f M)"
  shows "\<exists>m' msg c. master_UpdateHash m = Some m' \<and>
     sent (m_os m') = sent (m_os m) @ map (\<lambda>fd. (fd, msg)) (map fst (listenMap m)) \<and>
     cache_dealwithMasterMsg e ret (Received msg) s = Some (s\<lparr>cacheServerHash := Some c\<rparr>, ret) \<and>
     dom (nodes_map c) = set (names (listenMap m)) \<and>
     (\<forall>k. conhash_get_CacheServer c k =
        Some (server_at (ring_of (default_hash e) (names (listenMap m))) (default_hash e (c_str k))))"
proof -
  have lm: "map (\<lambda>fd. (fd, msg)) (map fst lm) = map (\<lambda>(fd, a). (fd, msg)) lm" for lm :: "(int \<times> cstr) list" and msg :: cstr
    by (simp add: split_beta)
  from cache_follows [OF assms(1,3-5), of ret] obtain c where
    c: "cache_dealwithMasterMsg e ret (Received (hash_msg (listenMap m) @ [0])) s = Some (s\<lparr>cacheServerHash := Some c\<rparr>, ret)"
    "servers_ok True c (default_hash e) (ring_of (default_hash e) (names (listenMap m)))"
    "dom (nodes_map c) = set (names (listenMap m))" by blast
  from con_hash_get_runs [OF c(2) names_fit [OF assms(1,2)]] UpdateHash_runs [OF assms(1,2)] c(1,3) show ?thesis
    unfolding lm by (intro exI conjI) (assumption | rule | simp)+
qed

text \<open>
  C6. Master and cache servers agree: as long as all servers that ever registered are still there and
  their positions do not collide, the server the master names to a client is the one that the ring
  of a cache server has for the key.
\<close>

theorem cluster_views_agree:
  assumes "master_ok m ts" and "length ts \<le> 45" and "hash_rel (default_hash e) m ns" and "env_ok e"
    and "\<forall>c. cacheServerHash s = Some c \<longrightarrow> (\<exists>b f M. servers_ok b c f M)"
    and "set ns = set (names (listenMap m))" and "distinct (names (listenMap m))"
    and "\<forall>n \<in> set ns. \<forall>n' \<in> set ns. n \<noteq> n' \<longrightarrow> server_pos (default_hash e) n \<inter> server_pos (default_hash e) n' = {}"
    and "set ns \<inter> set ts = {}" and "ts \<noteq> []"
  shows "\<exists>c n m'. cache_dealwithMasterMsg e ret (Received (hash_msg (listenMap m) @ [0])) s = Some (s\<lparr>cacheServerHash := Some c\<rparr>, ret) \<and>
     conhash_get_CacheServer c k = Some n \<and>
     GetDistribute addr k m = Some (m', 0) \<and> replies m' = replies m @ [(addr, n)]"
proof -
  let ?f = "default_hash e"
  have same: "ring_of ?f ns = ring_of ?f (names (listenMap m))" by (rule ring_of_same [OF assms(6,8)])
  note fit = names_fit [OF assms(1,2), of ?f]
  from cache_follows [OF assms(1,7,4,5), of ret] obtain c where
    c: "cache_dealwithMasterMsg e ret (Received (hash_msg (listenMap m) @ [0])) s = Some (s\<lparr>cacheServerHash := Some c\<rparr>, ret)"
    "servers_ok True c ?f (ring_of ?f ns)" unfolding same by blast
  let ?n = "server_at (ring_of ?f ns) (?f (c_str k))"
  have "reply_text ts ?n = ?n"
  proof -
    have "ns \<noteq> []" using assms(10) listed_length [OF assms(1)] assms(6) by auto
    with server_at_names [OF assms(3), of "?f (c_str k)"] assms(9) show ?thesis by (auto simp: reply_text_def)
  qed
  with distribute_runs [OF assms(1) _ fit [folded same], of True ?f addr k] con_hash_get_runs [OF c(2) fit [folded same], of k] assms(3) c(1)
  show ?thesis by (auto simp: hash_rel_def)
qed

text \<open>
  C12. Master and cache servers disagree after a server has left: the master still sends the client to the
  server that is gone, while every server that is left gets a list without it and has one of the
  others for the same key.
\<close>

theorem cluster_views_split:
  assumes "master_ok m ts" and "length ts \<le> 45" and "hash_rel (default_hash e) m ns" and "env_ok e"
    and "card (dom (ring_of (default_hash e) ns)) < 2 ^ 32" and "m_epfd m \<noteq> - 1"
    and "map_of (connections m) cfd = Some a" and "a \<in> set ts" and "ts \<noteq> [a]"
    and "server_at (ring_of (default_hash e) ns) (default_hash e (c_str k)) = server_name m a"
    and "server_name m a \<notin> set ts" and "distinct (names (listenMap m))"
    and "\<forall>c. cacheServerHash s = Some c \<longrightarrow> (\<exists>b f M. servers_ok b c f M)"
  shows "\<exists>m' m'' msg c n. master_dealwithCacheServer e cfd Closed m = Some (m', 0) \<and>
     GetDistribute addr k m' = Some (m'', 0) \<and> replies m'' = replies m @ [(addr, server_name m a)] \<and>
     (\<forall>fd \<in> fst ` set (listenMap m'). (fd, msg) \<in> set (sent (m_os m'))) \<and>
     cache_dealwithMasterMsg e ret (Received msg) s = Some (s\<lparr>cacheServerHash := Some c\<rparr>, ret) \<and>
     conhash_get_CacheServer c k = Some n \<and> n \<in> set (names (listenMap m')) \<and> n \<noteq> server_name m a"
proof -
  let ?f = "default_hash e" and ?ts = "filter (\<lambda>x. x \<noteq> a) ts"
  from master_okD(8) [OF assms(1,7) registered(2) [OF assms(1,8)]] have cfd: "cfd = fd_of m a" .
  from leave_runs [OF assms(1,8) cfd assms(6,2)] obtain m' where m':
    "master_leave cfd a m = Some (m', 0)" "master_ok m' ?ts" "masterHash m' = masterHash m"
    "replies m' = replies m" "listenMap m' = map_erase cfd (listenMap m)" "sent (m_os m') = sent (m_os m) @ leave_msgs m ts a m'" by blast
  have run: "master_dealwithCacheServer e cfd Closed m = Some (m', 0)"
    using m'(1) by (simp add: master_dealwithCacheServer_def at_present(3) [OF assms(7)])
  have "reply_text ?ts (server_name m a) = server_name m a" using assms(11) by (simp add: reply_text_def)
  with distribute_runs [OF m'(2) _ assms(5), of True ?f addr k] assms(3,10) m'(3,4)
  have get: "GetDistribute addr k m' = Some (m'\<lparr>replies := replies m @ [(addr, server_name m a)]\<rparr>, 0)"
    by (simp add: hash_rel_def)
  have gone: "server_name m a \<notin> set (names (listenMap m'))" and d: "distinct (names (listenMap m'))"
    using names_left [OF assms(1,8,12)] unfolding m'(5) cfd by blast+
  have len: "length ?ts \<le> 45" using le_trans [OF length_filter_le assms(2)] .
  from cache_follows [OF m'(2) d assms(4,13), of ret] obtain c where
    c: "cache_dealwithMasterMsg e ret (Received (hash_msg (listenMap m') @ [0])) s = Some (s\<lparr>cacheServerHash := Some c\<rparr>, ret)"
    "servers_ok True c ?f (ring_of ?f (names (listenMap m')))" by blast
  let ?n = "server_at (ring_of ?f (names (listenMap m'))) (?f (c_str k))"
  have "?ts \<noteq> []"
    using assms(8,9) servers_distinct [OF master_okD(1) [OF assms(1)]] ring_self(1) [of ts a] ring_next_in [OF assms(8)]
    by (auto simp: filter_empty_conv)
  then have "names (listenMap m') \<noteq> []" using listed_length [OF m'(2)] by auto
  then have "dom (ring_of ?f (names (listenMap m'))) \<noteq> {}" by (rule ring_of_ne)
  with server_at_owner(2) [OF c(2)] ran_ring_of [of ?f "names (listenMap m')"] have n: "?n \<in> set (names (listenMap m'))" by blast
  have "\<forall>fd \<in> fst ` set (listenMap m'). (fd, hash_msg (listenMap m') @ [0]) \<in> set (sent (m_os m'))"
    using m'(6) by (auto simp: leave_msgs_def)
  moreover have "conhash_get_CacheServer c k = Some ?n" by (rule con_hash_get_runs [OF c(2) names_fit [OF m'(2) len]])
  moreover have "?n \<noteq> server_name m a" using n gone by metis
  ultimately show ?thesis using run get c(1) n
    by - (rule exI [of _ m'], rule exI [of _ "m'\<lparr>replies := replies m @ [(addr, server_name m a)]\<rparr>"],
      rule exI [of _ "hash_msg (listenMap m') @ [0]"], rule exI [of _ c], rule exI [of _ ?n], auto)
qed

text \<open>A list of names that the master cannot send, as its last name has a zero byte, is added all the same.\<close>

lemma updateHash_extra:
  assumes e: "env_ok e" and c: "\<forall>c. cacheServerHash s = Some c \<longrightarrow> (\<exists>b f M. servers_ok b c f M)"
    and "distinct ns" and "\<forall>n \<in> set ns. name_ok n" and "x \<notin> set ns"
  shows "\<exists>c. cache_updateHash e (ns @ [x]) s = Some (s\<lparr>cacheServerHash := Some c\<rparr>, 0) \<and> dom (nodes_map c) = insert x (set ns)"
proof -
  from updateHash_runs [OF e _ assms(3,4), of s] c obtain c1 where
    c1: "cache_updateHash e ns s = Some (s\<lparr>cacheServerHash := Some c1\<rparr>, 0)"
    "servers_ok True c1 (default_hash e) (ring_of (default_hash e) ns)" "dom (nodes_map c1) = set ns" by blast
  then have "nodes_map c1 x = None" using assms(5) by blast
  from con_hash_add_returns [OF c1(2) _ _ this, of "new_obj e" "malloc_of e" "junk_node e"] e obtain c2 where
    c2: "conhash_add_CacheServer (new_obj e) (malloc_of e) (junk_node e) x c1 = Some c2" "dom (nodes_map c2) = insert x (set ns)"
    unfolding c1(3) env_ok_def by blast
  have snoc: "add_servers e (xs @ [x]) c0 = Option.bind (add_servers e xs c0) (conhash_add_CacheServer (new_obj e) (malloc_of e) (junk_node e) x)"
    for xs c0 by (induction xs arbitrary: c0) (auto split: Option.bind_splits)
  have same: "c2 = c1" if "s\<lparr>cacheServerHash := Some c2\<rparr> = s\<lparr>cacheServerHash := Some c1\<rparr>" for c2
    using arg_cong [OF that, of cacheServerHash] by simp
  from c1(1) obtain u c0 where del: "(case cacheServerHash s of None \<Rightarrow> Some () | Some old \<Rightarrow> map_option (\<lambda>_. ()) (con_hash_delete old)) = Some u"
    and c0: "con_hash_new (default_hash e) (memory_ok e) = Some c0" "add_servers e ns c0 = Some c1"
    unfolding cache_updateHash_def by (elim bind_eq_SomeE) (simp, metis same)
  have "cache_updateHash e (ns @ [x]) s = Some (s\<lparr>cacheServerHash := Some c2\<rparr>, 0)"
    unfolding cache_updateHash_def del c0(1) bind_Some_eq snoc c0(2) c2(1) ..
  with c2(2) show ?thesis by blast
qed

text \<open>
  C38. Messages that arrive together are not told apart: when one \<open>recv\<close> returns the list of servers and the
  command to move data, the cache server takes the command for one more server name, which enters its ring,
  and no thread that moves data is started.  Read one after the other, the list gives a ring without
  that name and the command starts the thread.
\<close>

theorem update_hash_coalesced:
  assumes "master_ok m ts" and "length ts \<le> 45" and "distinct (names (listenMap m))" and "env_ok e"
    and "\<forall>c. cacheServerHash s = Some c \<longrightarrow> (\<exists>b f M. servers_ok b c f M)"
  shows "length (hash_msg (listenMap m) @ [0] @ MOVE_DATA @ [10, 0]) \<le> buf_size \<and>
     0 # MOVE_DATA \<notin> set (names (listenMap m)) \<and>
     (\<exists>c. cache_dealwithMasterMsg e ret (Received (hash_msg (listenMap m) @ [0] @ MOVE_DATA @ [10, 0])) s =
        Some (s\<lparr>cacheServerHash := Some c\<rparr>, ret) \<and>
      dom (nodes_map c) = insert (0 # MOVE_DATA) (set (names (listenMap m)))) \<and>
     (\<exists>c. cache_dealwithMasterMsg e ret (Received (hash_msg (listenMap m) @ [0])) s =
        Some (s\<lparr>cacheServerHash := Some c\<rparr>, ret) \<and> dom (nodes_map c) = set (names (listenMap m)) \<and>
      cache_dealwithMasterMsg e ret (Received (MOVE_DATA @ [10, 0])) (s\<lparr>cacheServerHash := Some c\<rparr>) =
        Some (s\<lparr>cacheServerHash := Some c, tasks := tasks s @ [MoveTask]\<rparr>, ret))"
proof -
  have "read_lines ((0 # MOVE_DATA) @ 10 # [0]) [] (names (listenMap m)) = names (listenMap m) @ [0 # MOVE_DATA]"
    using read_lines_line [of "0 # MOVE_DATA" "[0]" "[]" "names (listenMap m)"] code_no_newline(5) by simp
  with read_hash_msg [OF listed(2) [OF assms(1)], of e ret "[0] @ MOVE_DATA @ [10, 0]" s]
  have run: "cache_dealwithMasterMsg e ret (Received (hash_msg (listenMap m) @ [0] @ MOVE_DATA @ [10, 0])) s =
     map_option (\<lambda>(s, x). (s, ret)) (cache_updateHash e (names (listenMap m) @ [0 # MOVE_DATA]) s)" by simp
  have new: "0 # MOVE_DATA \<notin> set (names (listenMap m))" using names_ok(2) [OF assms(1)] by (auto simp: name_ok_def)
  from updateHash_extra [OF assms(4,5,3) names_ok(2) [OF assms(1)] new] run
  have together: "\<exists>c. cache_dealwithMasterMsg e ret (Received (hash_msg (listenMap m) @ [0] @ MOVE_DATA @ [10, 0])) s =
        Some (s\<lparr>cacheServerHash := Some c\<rparr>, ret) \<and>
      dom (nodes_map c) = insert (0 # MOVE_DATA) (set (names (listenMap m)))" by auto
  from cache_follows [OF assms(1,3-5), of ret] read_move [of e ret "[0]"]
  have apart: "\<exists>c. cache_dealwithMasterMsg e ret (Received (hash_msg (listenMap m) @ [0])) s =
        Some (s\<lparr>cacheServerHash := Some c\<rparr>, ret) \<and> dom (nodes_map c) = set (names (listenMap m)) \<and>
      cache_dealwithMasterMsg e ret (Received (MOVE_DATA @ [10, 0])) (s\<lparr>cacheServerHash := Some c\<rparr>) =
        Some (s\<lparr>cacheServerHash := Some c, tasks := tasks s @ [MoveTask]\<rparr>, ret)" by auto
  have "length MOVE_DATA = 9" by code_simp
  moreover have "length (hash_msg (listenMap m)) \<le> 1002"
    using hash_msg_length [OF listed(2) [OF assms(1)]] listed_length [OF assms(1)] assms(2) by simp
  ultimately have "length (hash_msg (listenMap m) @ [0] @ MOVE_DATA @ [10, 0]) \<le> buf_size" by (simp add: buf_size_def)
  with new together apart show ?thesis by blast
qed

section \<open>Witnesses\<close>

text \<open>A second server on the other connection.\<close>

definition demo_addr2 :: sockaddr_in where
  "demo_addr2 = demo_addr\<lparr>sin_port := htons True 8081\<rparr>"

definition demo_name2 :: cstr where
  "demo_name2 = sock_addr2str True demo_addr2"

lemma demo_name2_facts: "demo_name2 \<noteq> demo_name" "demo_name2 \<noteq> [49]" "demo_name2 \<noteq> [50]"
  by code_simp+

lemma demo_hash: "default_hash demo_env = byte_sum" "little_endian demo_env"
  by (simp_all add: demo_env_def)

lemma demo_cache_ring: "\<forall>c. cacheServerHash demo_cache = Some c \<longrightarrow> (\<exists>b f M. servers_ok b c f M)"
  using ring_a_ok demo_cache_facts(7) by (metis option.inject)

lemma demo_listed: "master_ok m [a] \<Longrightarrow> names (listenMap m) = [server_name m a]"
proof -
  assume ok: "master_ok m [a]"
  have "(fd_of m a, server_name m a) \<in> set (listenMap m)" by (rule map_of_SomeD [OF registered(4) [OF ok]]) simp
  moreover have "length (listenMap m) = 1" using listed_length [OF ok] by simp
  ultimately show ?thesis by (auto simp: length_Suc_conv)
qed

lemma demo_two:
  "\<exists>m m2. master_Register demo_env demo_addr 5 demo_master = Some (m, 0) \<and> master_Register demo_env demo_addr2 6 m = Some (m2, 0) \<and>
     master_ok m2 [[49], [50]] \<and> hash_rel byte_sum m2 [demo_name, demo_name2] \<and>
     server_name m2 [49] = demo_name \<and> server_name m2 [50] = demo_name2 \<and>
     connections m2 = connections demo_master \<and> m_epfd m2 = 9"
proof -
  obtain m where m: "master_Register demo_env demo_addr 5 demo_master = Some (m, 0)" "master_ok m [[49]]" "hash_rel byte_sum m [demo_name]"
    "connections m = connections demo_master" "6 \<in> set (open_fds (m_os m))" "m_epfd m = 9" "server_name m [49] = demo_name"
    using demo_registered by blast
  have c: "map_of (connections m) 6 = Some [50]" by (simp add: m(4) demo_master_def)
  have n: "demo_name2 = sock_addr2str (little_endian demo_env) demo_addr2" by (simp add: demo_name2_def demo_env_def)
  from hash_added [OF m(3) demo_env_ok(1), of demo_name2] sock_addr_ok [of True demo_addr2] demo_name2_facts(1) obtain h' where
    h': "conhash_add_CacheServer (new_obj demo_env) (malloc_of demo_env) (junk_node demo_env) demo_name2 (masterHash m) = Some h'"
    "\<And>m'. masterHash m' = h' \<Longrightarrow> hash_rel byte_sum m' [demo_name, demo_name2]" unfolding demo_name2_def by auto
  from register_steps [OF m(2) demo_env_ok(1) c _ m(5) n _ h'(1)] h'(2) obtain m2 where
    m2: "master_Register demo_env demo_addr2 6 m = Some (m2, 0)" "master_ok m2 [[49], [50]]" "hash_rel byte_sum m2 [demo_name, demo_name2]"
    "server_name m2 [50] = demo_name2" "connections m2 = connections m" "m_epfd m2 = m_epfd m"
    "registedMap m2 = map_insert [50] 6 (registedMap m)" "listenMap m2 = map_insert 6 demo_name2 (listenMap m)" by auto
  have r: "map_of (registedMap m) [49] = Some (fd_of m [49])" "map_of (listenMap m) (fd_of m [49]) = Some demo_name"
    using registered(1,4) [OF m(2), of "[49]"] m(7) by simp_all
  then have "map_of (registedMap m2) [49] = Some (fd_of m [49])" "map_of (listenMap m2) (fd_of m [49]) = Some demo_name"
    unfolding m2(7,8) map_of_insert [OF master_okD(2) [OF m(2)]] map_of_insert [OF master_okD(4) [OF m(2)]]
    by (auto split: option.splits)
  then have "server_name m2 [49] = demo_name" by (simp add: server_name_def fd_of_def)
  with m m2 show ?thesis by auto
qed

theorem update_hash_roundtrip_witness:
  "\<exists>m m' msg c. master_Register demo_env demo_addr 5 demo_master = Some (m, 0) \<and> master_UpdateHash m = Some m' \<and>
     cache_dealwithMasterMsg demo_env 1 (Received msg) demo_cache = Some (demo_cache\<lparr>cacheServerHash := Some c\<rparr>, 1) \<and>
     dom (nodes_map c) = {demo_name}"
proof -
  obtain m where m: "master_Register demo_env demo_addr 5 demo_master = Some (m, 0)" "master_ok m [[49]]" "server_name m [49] = demo_name"
    using demo_registered by blast
  note n = demo_listed [OF m(2), unfolded m(3)]
  from update_hash_roundtrip [OF m(2) _ _ demo_env_ok(1) demo_cache_ring, of 1, unfolded n] m(1) show ?thesis by auto
qed

theorem cluster_views_agree_witness:
  "\<exists>m c m'. master_Register demo_env demo_addr 5 demo_master = Some (m, 0) \<and>
     cache_dealwithMasterMsg demo_env 1 (Received (hash_msg (listenMap m) @ [0])) demo_cache =
       Some (demo_cache\<lparr>cacheServerHash := Some c\<rparr>, 1) \<and>
     conhash_get_CacheServer c [107] = Some demo_name \<and>
     GetDistribute demo_addr [107] m = Some (m', 0) \<and> replies m' = replies m @ [(demo_addr, demo_name)]"
proof -
  obtain m where m: "master_Register demo_env demo_addr 5 demo_master = Some (m, 0)" "master_ok m [[49]]" "server_name m [49] = demo_name"
    "hash_rel (default_hash demo_env) m [demo_name]" using demo_registered unfolding demo_hash(1) by blast
  note n = demo_listed [OF m(2), unfolded m(3)]
  from cluster_views_agree [OF m(2) _ m(4) demo_env_ok(1) demo_cache_ring, of 1 "[107]" demo_addr, unfolded n] demo_name_facts(1)
  obtain c x m' where c: "cache_dealwithMasterMsg demo_env 1 (Received (hash_msg (listenMap m) @ [0])) demo_cache =
       Some (demo_cache\<lparr>cacheServerHash := Some c\<rparr>, 1)" "conhash_get_CacheServer c [107] = Some x"
     "GetDistribute demo_addr [107] m = Some (m', 0)" "replies m' = replies m @ [(demo_addr, x)]" by auto
  from distribute_runs [OF m(2) _ demo_ring(2), of True byte_sum demo_addr "[107]"] m(4) c(3,4) demo_name_facts(1)
  have "x = demo_name" by (auto simp: demo_hash hash_rel_def demo_ring(1) reply_text_def)
  with m(1) c show ?thesis by blast
qed

theorem cluster_views_split_witness:
  "\<exists>m m1 m2 m3 c cfd dead n. master_Register demo_env demo_addr 5 demo_master = Some (m, 0) \<and>
     master_Register demo_env demo_addr2 6 m = Some (m1, 0) \<and>
     master_dealwithCacheServer demo_env cfd Closed m1 = Some (m2, 0) \<and>
     GetDistribute demo_addr [107] m2 = Some (m3, 0) \<and> replies m3 = replies m1 @ [(demo_addr, dead)] \<and>
     conhash_get_CacheServer c [107] = Some n \<and> n \<noteq> dead"
proof -
  obtain m m1 where m: "master_Register demo_env demo_addr 5 demo_master = Some (m, 0)" "master_Register demo_env demo_addr2 6 m = Some (m1, 0)"
    "master_ok m1 [[49], [50]]" "hash_rel byte_sum m1 [demo_name, demo_name2]" "server_name m1 [49] = demo_name" "server_name m1 [50] = demo_name2"
    "connections m1 = connections demo_master" "m_epfd m1 = 9" using demo_two by blast
  have c: "map_of (connections m1) 5 = Some [49]" "map_of (connections m1) 6 = Some [50]" by (simp_all add: m(7) demo_master_def)
  let ?n = "server_at (ring_of byte_sum [demo_name, demo_name2]) (byte_sum (c_str [107]))"
  have "?n = demo_name \<or> ?n = demo_name2" using server_at_names [OF m(4)] by auto
  then obtain cfd a where a: "map_of (connections m1) cfd = Some a" "a \<in> set [[49], [50]]" "?n = server_name m1 a"
    using c m(5,6) by (metis list.set_intros)
  have "card (set [demo_name, demo_name2]) \<le> 2" using card_length [of "[demo_name, demo_name2]"] by simp
  then have "card (dom (ring_of byte_sum [demo_name, demo_name2])) \<le> 64"
    using ring_card [of byte_sum "[demo_name, demo_name2]"] by linarith
  then have fit: "card (dom (ring_of byte_sum [demo_name, demo_name2])) < 2 ^ 32" by simp
  have "server_name m1 b \<in> set (names (listenMap m1))" if "b \<in> set [[49], [50]]" for b
    using map_of_SomeD [OF registered(4) [OF m(3) that]] by force
  from this [of "[49]"] this [of "[50]"] have "{demo_name, demo_name2} \<subseteq> set (names (listenMap m1))" using m(5,6) by simp
  from card_mono [OF finite_set this] demo_name2_facts(1) have "2 \<le> card (set (names (listenMap m1)))" by (simp add: card_insert_if)
  moreover have "length (names (listenMap m1)) = 2" using listed_length [OF m(3)] by simp
  ultimately have d: "distinct (names (listenMap m1))"
    using card_length [of "names (listenMap m1)"] by (intro card_distinct) linarith
  have "server_name m1 a \<notin> set [[49], [50]]" using a(2) m(5,6) demo_name_facts demo_name2_facts by auto
  from cluster_views_split [OF m(3) _ _ demo_env_ok(1) _ _ a(1,2) _ _ this d demo_cache_ring, of "[demo_name, demo_name2]" "[107]" demo_addr 1,
      unfolded demo_hash(1)] m(4,8) fit a(3)
  obtain m2 m3 c n where "master_dealwithCacheServer demo_env cfd Closed m1 = Some (m2, 0)" "GetDistribute demo_addr [107] m2 = Some (m3, 0)"
    "replies m3 = replies m1 @ [(demo_addr, server_name m1 a)]" "conhash_get_CacheServer c [107] = Some n" "n \<noteq> server_name m1 a" by auto
  with m(1,2) show ?thesis by blast
qed

theorem update_hash_coalesced_witness:
  "\<exists>m c. master_Register demo_env demo_addr 5 demo_master = Some (m, 0) \<and>
     cache_dealwithMasterMsg demo_env 1 (Received (hash_msg (listenMap m) @ [0] @ MOVE_DATA @ [10, 0])) demo_cache =
       Some (demo_cache\<lparr>cacheServerHash := Some c\<rparr>, 1) \<and> dom (nodes_map c) = {0 # MOVE_DATA, demo_name}"
proof -
  obtain m where m: "master_Register demo_env demo_addr 5 demo_master = Some (m, 0)" "master_ok m [[49]]" "server_name m [49] = demo_name"
    using demo_registered by blast
  note n = demo_listed [OF m(2), unfolded m(3)]
  from update_hash_coalesced [OF m(2) _ _ demo_env_ok(1) demo_cache_ring, of 1, unfolded n] m(1) show ?thesis by auto
qed

end
