(* ===== verification/Programs.thy ===== *)
theory Programs
  imports Cluster
begin

text \<open>
  The two programs: the command line of the cache server (\<open>src/config.h\<close>, \<open>config.cpp\<close>), the
  constructors, and \<open>main\<close> of \<open>src/cache_server/cache_server.cpp\<close> and
  \<open>src/master_server/master_server.cpp\<close> up to the event loop.

  A failing \<open>assert\<close> and an exception that is not caught end the program: there is no result.  What
  \<open>getopt\<close> returns, the option characters with their arguments, is a parameter, and so are the results
  of the system calls and the values of members that no constructor sets.
\<close>

section \<open>The cache server\<close>

definition config_new :: int where "config_new = 6000"

fun parse_arg :: "(u8 \<times> cstr) list \<Rightarrow> int \<Rightarrow> int option" where
  "parse_arg [] port = Some port"
| "parse_arg ((opt, optarg) # opts) port =
     (if opt = 112 then do { port \<leftarrow> atoi (optarg @ [0]); parse_arg opts port } else parse_arg opts port)"

definition lru_size :: int where "lru_size = 5"

text \<open>\<open>junk\<close> stands for the members that are not initialised.\<close>

definition cache_new :: "env \<Rightarrow> int \<Rightarrow> os \<Rightarrow> cache_server option" where
  "cache_new e junk o1 = do {
     c \<leftarrow> con_hash_new (default_hash e) (memory_ok e);
     Some \<lparr>lru = lru_new (new_obj e) [] [] 0 0 lru_size, lru_backup = lru_new (new_obj e) [] [] 0 0 lru_size,
           move_state = 0, backup_invalid = 0, cacheServerHash = Some c, epfd = junk, master_sockfd = junk, lfd = junk,
           cache_server_port = junk, local_addr = [], connectedMap = [], m_pool = \<lparr>workqueue = [], queuestat = 0\<rparr>,
           tasks = [], cs_os = o1\<rparr> }"

definition setPort :: "int \<Rightarrow> cache_server \<Rightarrow> cache_server" where
  "setPort port s = s\<lparr>cache_server_port := port\<rparr>"

text \<open>The results of the calls during the start.\<close>

record start_results =
  creates_ok :: "nat \<Rightarrow> bool"
  detaches_ok :: "nat \<Rightarrow> bool"
  epoll_made :: int
  init_ret :: int
  listen_socket_ok :: bool
  listen_bind_ok :: bool
  listen_ok :: bool

definition cache_main :: "env \<Rightarrow> start_results \<Rightarrow> (u8 \<times> cstr) list \<Rightarrow> int \<Rightarrow> os \<Rightarrow> cache_server option" where
  "cache_main e r opts junk o1 = do {
     PORT \<leftarrow> parse_arg opts config_new;
     s \<leftarrow> cache_new e junk o1;
     let s = setPort PORT s;
     (s, x) \<leftarrow> cache_init (creates_ok r) (detaches_ok r) (epoll_made r) (init_ret r) s;
     (if x = Throws then None
      else do {
        (s, ret) \<leftarrow> cache_connToMaster e s;
        (if ret \<noteq> 0 then None
         else do {
           (s, ret) \<leftarrow> cache_startListen e (listen_socket_ok r) (listen_bind_ok r) (listen_ok r) s;
           (if ret \<noteq> 0 then None else Some s) }) }) }"

section \<open>The master\<close>

definition master_new :: "env \<Rightarrow> int \<Rightarrow> os \<Rightarrow> master option" where
  "master_new e junk o1 = do {
     c \<leftarrow> con_hash_new (default_hash e) (memory_ok e);
     Some \<lparr>masterHash = c, registedMap = [], connections = [], listenMap = [], connectList = server_list_new (new_obj e) [],
           m_epfd = junk, m_lfd = junk, master_client_sockfd = junk, m_queue = \<lparr>workqueue = [], queuestat = 0\<rparr>,
           m_os = o1, replies = []\<rparr> }"

definition master_init :: "(nat \<Rightarrow> bool) \<Rightarrow> (nat \<Rightarrow> bool) \<Rightarrow> master \<Rightarrow> (master \<times> init_result) option" where
  "master_init creates detaches m = do {
     t \<leftarrow> threadInit 8 creates detaches 8 (int master_max_requests);
     (case t of Thrown n \<Rightarrow> Some (m, Throws) | Started n \<Rightarrow> Some (m, Returns 0)) }"

definition master_main :: "env \<Rightarrow> (nat \<Rightarrow> bool) \<Rightarrow> (nat \<Rightarrow> bool) \<Rightarrow> listen_results \<Rightarrow> int \<Rightarrow> int \<Rightarrow> os \<Rightarrow> master option" where
  "master_main e creates detaches r ret junk o1 = do {
     m \<leftarrow> master_new e junk o1;
     (m, x) \<leftarrow> master_init creates detaches m;
     (if x \<noteq> Returns 0 then None
      else do {
        (m, x) \<leftarrow> master_startListen r ret m;
        (if x \<noteq> 0 then None else Some m) }) }"

section \<open>What is reached from the start\<close>

lemma cache_main_starts:
  assumes "cache_main e r opts junk o1 = Some s" and "epoll_fds o1 = []"
  shows "no_clients s"
proof -
  from assms(1) obtain s0 s1 where c: "cache_connToMaster e s0 = Some (s1, 0)"
    "cache_startListen e (listen_socket_ok r) (listen_bind_ok r) (listen_ok r) s1 = Some (s, 0)"
    and s0: "epoll_fds (cs_os s0) = []" "m_pool s0 = \<lparr>workqueue = [], queuestat = 0\<rparr>"
    using assms(2) unfolding cache_main_def cache_new_def cache_init_def setPort_def
    by (auto simp: Let_def split_beta elim!: bind_eq_SomeE split: if_split_asm started.splits)
  show ?thesis by (rule start_no_clients [OF c s0])
qed

lemma os_keeps_sent: "sent (fst (os_socket o1)) = sent o1" "sent (fst (os_epoll_add fd o1)) = sent o1"
  by (simp_all add: os_socket_def os_epoll_add_def Let_def)

lemma listen_keeps:
  assumes "master_startListen r ret m = Some (m', 0)" and "master_ok m []" and "hash_rel f m []" and "names_inv m []"
  shows "master_inv f m'"
proof -
  from assms(1) have "m_epfd m' \<noteq> - 1 \<and> masterHash m' = masterHash m \<and> registedMap m' = registedMap m \<and>
      connections m' = connections m \<and> listenMap m' = listenMap m \<and> connectList m' = connectList m \<and> sent (m_os m') = sent (m_os m)"
    unfolding master_startListen_def
    by (auto simp: Let_def split_beta master_epollAddfd_def os_keeps_sent elim!: bind_eq_SomeE split: if_split_asm)
  with assms(2-4) show ?thesis unfolding master_inv_def by (auto simp: master_ok_def hash_rel_def names_inv_def intro!: exI [of _ "[]"])
qed

lemma master_main_starts:
  assumes "master_main e creates detaches r ret junk o1 = Some m" and "env_ok e" and "sent o1 = []"
  shows "master_inv (default_hash e) m"
proof -
  obtain c where c: "con_hash_new (default_hash e) (memory_ok e) = Some c" "servers_ok True c (default_hash e) Map.empty"
    "nodes_map c = Map.empty" using con_hash_new_ok [of "default_hash e"] assms(2) by (auto simp: env_ok_def)
  obtain m0 where m0: "master_new e junk o1 = Some m0" by (simp add: master_new_def c(1))
  have ok: "master_ok m0 []" "hash_rel (default_hash e) m0 []" "names_inv m0 []"
    using m0 c servers_new [of "new_obj e" "[] :: cstr"] assms(2,3)
    by (auto simp: master_new_def master_ok_def hash_rel_def ring_of_def map_ok_def env_ok_def names_inv_def)
  from assms(1) m0 have "master_startListen r ret m0 = Some (m, 0)"
    unfolding master_main_def master_init_def
    by (auto simp: split_beta elim!: bind_eq_SomeE split: if_split_asm started.splits)
  from listen_keeps [OF this ok] show ?thesis .
qed

text \<open>
  C1. The master, from the start of the program on, as long as registrations are admitted (\<open>run_ok\<close>: only of an open connection that
  is not registered yet, with a listening address that was never registered, and with fewer than 45 servers before it) and peers send
  sound input (\<open>event_sound\<close>: datagrams that end in the buffer, numbers that fit): in every state that is reached the
  three maps and the ring of servers describe the same servers and the hash ring is the one of the listening addresses;
  an event that the kernel can report faults exactly when its input is not sound, the next request is handled if it
  is admitted, and the event loop runs over any number of rounds of sound events, as a sequence of such steps.
\<close>

theorem master_main_safe:
  assumes "master_main e creates detaches r ret junk o1 = Some m0" and "sent o1 = []" and "env_ok e" and "master_reach e m0 m"
  shows "(\<exists>ts ns. master_ok m ts \<and> hash_rel (default_hash e) m ns \<and> length ts \<le> 45) \<and>
     (\<forall>ev. event_possible e m ev \<longrightarrow> (master_dispatch e ev m = None \<longleftrightarrow> \<not> event_sound m ev)) \<and>
     (run_ok e m \<longrightarrow> (\<exists>m'. master_run e m = Some m')) \<and>
     (\<forall>ws. rounds_ok e ws m \<longrightarrow> (\<exists>m' x. master_EventLoop e ws m = Some (m', x) \<and> master_reach e m0 m'))"
proof -
  note start = master_main_starts [OF assms(1,3,2)]
  from reach_inv [OF assms(4,3) start] have inv: "master_inv (default_hash e) m" .
  with dispatch_exact [OF inv] run_inv [OF inv assms(3)] loop_runs [OF assms(3) start assms(4)] show ?thesis unfolding master_inv_def by blast
qed

text \<open>
  C35. The cache server never hears a client: whatever the command line, the events, the messages, the workers
  and the detached threads, only the descriptor of the master and the listening descriptor are ever
  watched.  A client that is accepted is entered in the table of connections but not watched, so no
  request is ever queued and the workers have nothing to do.
\<close>

theorem cache_main_hears_no_client:
  assumes "cache_main e r opts junk o1 = Some s0" and "epoll_fds o1 = []" and "cache_reach e s0 s"
  shows "set (epoll_fds (cs_os s)) \<subseteq> {master_sockfd s, lfd s} \<and> workqueue (m_pool s) = [] \<and> cache_run e s = Some s \<and>
     (\<forall>ws s' x. waits_ok e ws s \<longrightarrow> cache_eventLoop e ws s = Some (s', x) \<longrightarrow> cache_reach e s0 s')"
  using no_clients_idle [OF no_clients_reach [OF assms(3) cache_main_starts [OF assms(1,2)]]] cache_loop_reach [OF assms(3)] by blast

text \<open>
  C2. The protocol between master and cache servers: every message that the master has sent in a state
  reached as in C1, so with admitted registrations and sound input, fits the
  buffer of the receiver, and a cache server whose ring is in order handles it without a fault and does what this
  message says: it builds the ring of exactly the listed servers, starts to move data, takes over the backup, or
  starts to copy to the named backup server.  Its ring is in order again.
\<close>

theorem protocol_safe:
  assumes "master_main e creates detaches r ret junk o1 = Some m0" and "sent o1 = []" and "env_ok e" and "master_reach e m0 m"
    and "(fd, msg) \<in> set (sent (m_os m))" and "\<forall>c. cacheServerHash s = Some c \<longrightarrow> (\<exists>b f M. servers_ok b c f M)"
  shows "length msg \<le> buf_size \<and>
     (\<exists>s'. cache_dealwithMasterMsg e x (Received msg) s = Some (s', x) \<and> cache_obeys e msg s s' \<and>
        (\<forall>c. cacheServerHash s' = Some c \<longrightarrow> (\<exists>b f M. servers_ok b c f M)))"
proof -
  from reach_inv [OF assms(4,3) master_main_starts [OF assms(1,3,2)]] assms(5) have msg: "master_msg msg"
    unfolding master_inv_def names_inv_def by force
  from cache_understands [OF msg assms(3,6), of x] obtain s' where
    s': "cache_dealwithMasterMsg e x (Received msg) s = Some (s', x)" "cache_obeys e msg s s'" by blast
  from s'(2) assms(6) have "\<forall>c. cacheServerHash s' = Some c \<longrightarrow> (\<exists>b f M. servers_ok b c f M)"
    unfolding cache_obeys_def cache_recoverBackup_def by (elim disjE exE conjE) (simp_all, blast)
  with s' master_msg_fits [OF msg] show ?thesis by blast
qed

section \<open>Witnesses\<close>

definition demo_start :: start_results where
  "demo_start = \<lparr>creates_ok = \<lambda>_. True, detaches_ok = \<lambda>_. True, epoll_made = 9, init_ret = 7, listen_socket_ok = True,
     listen_bind_ok = True, listen_ok = True\<rparr>"

definition demo_listen :: listen_results where
  "demo_listen = \<lparr>udp_socket_ok = True, tcp_socket_ok = True, udp_bind_ok = True, tcp_bind_ok = True, tcp_listen_ok = True,
     epoll_result = 9\<rparr>"

definition demo_os :: os where
  "demo_os = \<lparr>open_fds = [0, 1, 2], epoll_fds = [], sent = []\<rparr>"

lemma threads_start: "threadInit 8 (\<lambda>_. True) (\<lambda>_. True) 8 20 = Some (Started 8)"
  by code_simp

lemma demo_sockets:
  "os_socket demo_os = (demo_os\<lparr>open_fds := [3, 0, 1, 2]\<rparr>, 3)"
  "os_socket (demo_os\<lparr>open_fds := [3, 0, 1, 2], epoll_fds := es, sent := xs\<rparr>) = (demo_os\<lparr>open_fds := [4, 3, 0, 1, 2], epoll_fds := es, sent := xs\<rparr>, 4)"
  "os_socket (demo_os\<lparr>open_fds := [3, 0, 1, 2]\<rparr>) = (demo_os\<lparr>open_fds := [4, 3, 0, 1, 2]\<rparr>, 4)"
  by (simp_all add: os_socket_def demo_os_def upt_rec)

theorem cache_main_witness:
  "\<exists>s. cache_main demo_env demo_start [(112, [54, 48, 49])] 5 demo_os = Some s \<and> cache_server_port s = 601 \<and>
     workqueue (m_pool s) = [] \<and> cache_run demo_env s = Some s"
proof -
  have port: "parse_arg [(112, [54, 48, 49])] config_new = Some 601" by code_simp
  obtain c where c: "con_hash_new (default_hash demo_env) (memory_ok demo_env) = Some c"
    using con_hash_new_ok [of byte_sum] by (auto simp: demo_env_def)
  then obtain s0 where s0: "cache_new demo_env 5 demo_os = Some s0" "cs_os s0 = demo_os" by (auto simp: cache_new_def)
  then obtain s1 where s1: "cache_init (creates_ok demo_start) (detaches_ok demo_start) (epoll_made demo_start) (init_ret demo_start) (setPort 601 s0)
      = Some (s1, Returns 7)" "cs_os s1 = demo_os" "epfd s1 = 9" "cache_server_port s1 = 601"
    using threads_start by (simp add: cache_init_def demo_start_def m_thread_number_def m_max_requests_def setPort_def)
  then obtain s2 xs where s2: "cache_connToMaster demo_env s1 = Some (s2, 0)" "epfd s2 = 9"
    "cs_os s2 = demo_os\<lparr>open_fds := [3, 0, 1, 2], epoll_fds := [3], sent := xs\<rparr>" "cache_server_port s2 = 601"
    by (simp add: cache_connToMaster_def demo_sockets(1) os_connect_def cache_epollAddfd_def os_epoll_add_def os_send_def)
      (simp add: demo_env_def demo_os_def cache_epollAddfd_def os_epoll_add_def os_send_def)
  then obtain s3 where s3: "cache_startListen demo_env True True True s2 = Some (s3, 0)" "cache_server_port s3 = 601"
    by (simp add: cache_startListen_def demo_sockets(2) cache_epollAddfd_def os_epoll_add_def)
  have main: "cache_main demo_env demo_start [(112, [54, 48, 49])] 5 demo_os = Some s3"
    using port s0 s1 s2 s3 by (simp add: cache_main_def) (simp add: demo_start_def)
  have "epoll_fds demo_os = []" by (simp add: demo_os_def)
  from cache_main_hears_no_client [OF main this cache_reach_start] main s3(2) show ?thesis by blast
qed

text \<open>The master after its start: no connection yet, the datagrams on 3 and the connections on 4.\<close>

lemma demo_main:
  "\<exists>m. master_main demo_env (\<lambda>_. True) (\<lambda>_. True) demo_listen 0 5 demo_os = Some m \<and> m_epfd m = 9 \<and>
     master_client_sockfd m = 3 \<and> m_lfd m = 4 \<and> connections m = [] \<and> m_queue m = \<lparr>workqueue = [], queuestat = 0\<rparr> \<and>
     open_fds (m_os m) = [4, 3, 0, 1, 2] \<and> epoll_fds (m_os m) = [4, 3] \<and> nodes_map (masterHash m) = Map.empty \<and>
     registedMap m = []"
proof -
  obtain c where c: "con_hash_new (default_hash demo_env) (memory_ok demo_env) = Some c" "nodes_map c = Map.empty"
    using con_hash_new_ok [of byte_sum] by (auto simp: demo_env_def)
  then obtain m0 where m0: "master_new demo_env 5 demo_os = Some m0" "m_os m0 = demo_os" "connections m0 = []"
    "m_queue m0 = \<lparr>workqueue = [], queuestat = 0\<rparr>" "masterHash m0 = c" "registedMap m0 = []" by (auto simp: master_new_def)
  then show ?thesis
    using threads_start c
    by (simp add: master_main_def master_init_def master_max_requests_def master_startListen_def demo_listen_def
        demo_sockets(1,3) master_epollAddfd_def os_epoll_add_def)
      (simp add: demo_os_def master_epollAddfd_def os_epoll_add_def)
qed

text \<open>A cache server connects, tells its port 8080 and is registered.\<close>

definition demo_accept :: m_event where
  "demo_accept = \<lparr>me_fd = 4, me_stack = [], me_dgram = [], me_addr = demo_addr2, me_cfd = 5, me_recv = RecvError\<rparr>"

definition demo_port_msg :: m_event where
  "demo_port_msg = \<lparr>me_fd = 5, me_stack = [], me_dgram = [], me_addr = demo_addr, me_cfd = 0, me_recv = Received [56, 48, 56, 48, 0]\<rparr>"

lemma demo_port: "atoi (fill_buf (replicate buf_size 0) [56, 48, 56, 48, 0]) = Some 8080"
  by code_simp

lemma demo_peer: "str2sock_addr True (junk_addr demo_env) demo_name2 = Some demo_addr2"
  by code_simp

lemma demo_joins:
  "\<exists>m0 m. master_main demo_env (\<lambda>_. True) (\<lambda>_. True) demo_listen 0 5 demo_os = Some m0 \<and> master_reach demo_env m0 m \<and>
     (5, hash_msg (listenMap m) @ [0]) \<in> set (sent (m_os m)) \<and> m_queue m = \<lparr>workqueue = [], queuestat = 0\<rparr> \<and>
     dom (nodes_map (masterHash m)) = {demo_name} \<and> registedMap m = [(demo_name2, 5)]"
proof -
  obtain m0 where m0: "master_main demo_env (\<lambda>_. True) (\<lambda>_. True) demo_listen 0 5 demo_os = Some m0" "m_epfd m0 = 9"
    "master_client_sockfd m0 = 3" "m_lfd m0 = 4" "connections m0 = []" "m_queue m0 = \<lparr>workqueue = [], queuestat = 0\<rparr>"
    "open_fds (m_os m0) = [4, 3, 0, 1, 2]" "epoll_fds (m_os m0) = [4, 3]" "nodes_map (masterHash m0) = Map.empty"
    "registedMap m0 = []" using demo_main by blast
  have "event_ok demo_env m0 demo_accept" using m0 by (simp add: event_ok_def event_possible_def event_sound_def demo_accept_def)
  moreover obtain m1 where m1: "master_dispatch demo_env demo_accept m0 = Some (m1, 0)" "m_epfd m1 = 9"
    "master_client_sockfd m1 = 3" "m_lfd m1 = 4" "connections m1 = [(5, demo_name2)]" "m_queue m1 = \<lparr>workqueue = [], queuestat = 0\<rparr>"
    "open_fds (m_os m1) = [5, 4, 3, 0, 1, 2]" "nodes_map (masterHash m1) = Map.empty" "registedMap m1 = []"
    using m0 by (simp add: master_dispatch_def demo_accept_def master_dealwithNewConn_def master_epollAddfd_def os_epoll_add_def
        demo_name2_def demo_hash)
  ultimately have r1: "master_reach demo_env m0 m1" using reach_event [OF reach_start] by blast
  have "event_ok demo_env m1 demo_port_msg" using m1 demo_port
    by (simp add: event_ok_def event_possible_def event_sound_def demo_port_msg_def)
  moreover let ?r = "\<lparr>m_type = REGISTER, m_addr = demo_addr, m_key = [], m_cfd = 5\<rparr>"
  let ?m2 = "m1\<lparr>m_queue := \<lparr>workqueue = [?r], queuestat = 1\<rparr>\<rparr>"
  have a: "map_of (connections m1) 5 = Some demo_name2" using m1(5) by simp
  have "demo_addr2\<lparr>sin_port := htons True 8080\<rparr> = demo_addr" by (simp add: demo_addr2_def demo_addr_def)
  with m1 demo_port demo_peer have "master_dispatch demo_env demo_port_msg m1 = Some (?m2, 0)"
    by (simp add: master_dispatch_def demo_port_msg_def master_dealwithCacheServer_def at_present(3) [OF a] demo_hash master_append_def
        pool_append_def pool_push_def pool_post_def master_max_requests_def)
  ultimately have r2: "master_reach demo_env m0 ?m2" using reach_event [OF r1] by blast
  have next_r: "pool_next (m_queue ?m2) = Some (\<lparr>workqueue = [], queuestat = 0\<rparr>, Some ?r)"
    by (simp add: pool_next_def pool_wait_def pool_take_def)
  let ?m3 = "m1\<lparr>m_queue := \<lparr>workqueue = [], queuestat = 0\<rparr>\<rparr>"
  have "sent demo_os = []" by (simp add: demo_os_def)
  from reach_inv [OF r1 demo_env_ok(1) master_main_starts [OF m0(1) demo_env_ok(1) this]] have "master_inv byte_sum ?m3"
    by (simp add: master_queue_keeps demo_hash)
  then obtain ts ns where ok: "master_ok ?m3 ts" "hash_rel byte_sum ?m3 ns" by (auto simp: master_inv_def)
  have ts: "ts = []" using registed_length [OF ok(1)] m1(9) by simp
  have ns: "ns = []" using ok(2) m1(8) by (simp add: hash_rel_def)
  then have "demo_name \<notin> set ns" by simp
  from hash_added [OF ok(2) demo_env_ok(1) _ this] sock_addr_ok [of True demo_addr] obtain h' where
    h': "conhash_add_CacheServer (new_obj demo_env) (malloc_of demo_env) (junk_node demo_env) demo_name (masterHash ?m3) = Some h'"
    and rel: "\<And>m'. masterHash m' = h' \<Longrightarrow> hash_rel byte_sum m' (ns @ [demo_name])"
    unfolding demo_name_def by blast
  have n: "demo_name = sock_addr2str (little_endian demo_env) demo_addr" by (simp add: demo_name_def demo_hash)
  have c: "map_of (connections ?m3) 5 = Some demo_name2" "5 \<in> set (open_fds (m_os ?m3))" using m1(5,7) by simp_all
  from register_steps [OF ok(1) demo_env_ok(1) c(1) _ c(2) n _ h'] ts obtain m4 where
    m4: "master_Register demo_env demo_addr 5 ?m3 = Some (m4, 0)" "listenMap m4 = map_insert 5 demo_name (listenMap ?m3)"
    "sent (m_os m4) = sent (m_os ?m3) @ register_msgs (registedMap ?m3) ts demo_name2 m4" "m_queue m4 = m_queue ?m3"
    "masterHash m4 = h'" "registedMap m4 = map_insert demo_name2 5 (registedMap ?m3)" by auto
  from m4(1) have "master_run demo_env ?m2 = Some m4"
    unfolding master_run_def next_r by (simp add: master_handle_def REGISTER_def GETDISTRIBUTE_def)
  moreover have "run_ok demo_env ?m2"
    unfolding run_ok_def next_r using m1 n by (simp add: request_ok_def REGISTER_def GETDISTRIBUTE_def)
  ultimately have "master_reach demo_env m0 m4" using reach_run [OF r2] by blast
  moreover have "(5, hash_msg (listenMap m4) @ [0]) \<in> set (sent (m_os m4))"
    using listed_length [OF ok(1)] ts m4(2,3) by (simp add: register_msgs_def)
  moreover have "dom (nodes_map (masterHash m4)) = {demo_name}" using rel [OF m4(5)] ns by (simp add: hash_rel_def)
  moreover have "registedMap m4 = [(demo_name2, 5)]" using m4(6) m1(9) by simp
  ultimately show ?thesis using m0(1) m4(4) by auto
qed

theorem master_main_witness:
  "\<exists>m0 m m'. master_main demo_env (\<lambda>_. True) (\<lambda>_. True) demo_listen 0 5 demo_os = Some m0 \<and> master_reach demo_env m0 m \<and>
     registedMap m = [(demo_name2, 5)] \<and> (\<exists>ts ns. master_ok m ts \<and> hash_rel byte_sum m ns \<and> length ts \<le> 45) \<and>
     master_run demo_env m = Some m'"
proof -
  obtain m0 m where m: "master_main demo_env (\<lambda>_. True) (\<lambda>_. True) demo_listen 0 5 demo_os = Some m0" "master_reach demo_env m0 m"
    "registedMap m = [(demo_name2, 5)]" "m_queue m = \<lparr>workqueue = [], queuestat = 0\<rparr>" using demo_joins by blast
  have "sent demo_os = []" by (simp add: demo_os_def)
  note safe = master_main_safe [OF m(1) this demo_env_ok(1) m(2)]
  have "run_ok demo_env m" using m(4) by (simp add: run_ok_def pool_next_def pool_wait_def)
  with safe m(1-3) show ?thesis by (auto simp: demo_hash)
qed

theorem protocol_witness:
  "\<exists>m0 m s'. master_main demo_env (\<lambda>_. True) (\<lambda>_. True) demo_listen 0 5 demo_os = Some m0 \<and> master_reach demo_env m0 m \<and>
     cache_dealwithMasterMsg demo_env 1 (Received (hash_msg (listenMap m) @ [0])) demo_cache = Some (s', 1) \<and>
     cache_obeys demo_env (hash_msg (listenMap m) @ [0]) demo_cache s'"
proof -
  obtain m0 m where m: "master_main demo_env (\<lambda>_. True) (\<lambda>_. True) demo_listen 0 5 demo_os = Some m0" "master_reach demo_env m0 m"
    "(5, hash_msg (listenMap m) @ [0]) \<in> set (sent (m_os m))" using demo_joins by blast
  have "sent demo_os = []" by (simp add: demo_os_def)
  from protocol_safe [OF m(1) this demo_env_ok(1) m(2,3) demo_cache_ring, of 1] m(1,2) show ?thesis by blast
qed

end
