(* ===== verification/LogFile.thy ===== *)
theory LogFile
  imports BlockQueue Decimal
begin

text \<open>
  The log (\<open>src/log/log.h\<close> and \<open>log.cpp\<close>): its files by day and by number of lines, the lines it formats
  in one buffer, and the queue of the asynchronous mode.

  A call runs under the mutex of the log but for the choice between the queue and the file.  The text
  of a message, which \<open>vsnprintf\<close> makes of the format and its arguments, is a parameter, and so are the
  time and the success of \<open>fopen\<close>.  \<open>files\<close> is what was written to each file; \<open>None\<close> is an access outside
  a buffer or array, a division by zero, or the use of a null pointer.
\<close>

section \<open>State\<close>

record tm =
  tm_year :: nat
  tm_mon :: nat
  tm_mday :: nat
  tm_hour :: nat
  tm_min :: nat
  tm_sec :: nat
  tv_usec :: nat

record log =
  dir_name :: "u8 list"
  log_name :: "u8 list"
  m_split_lines :: int
  m_log_buf_size :: int
  m_count :: int
  m_today :: nat
  m_fp :: "cstr option"
  m_log_queue :: "cstr bq option"
  m_is_async :: bool
  m_close_log :: int
  files :: "cstr \<Rightarrow> cstr"

text \<open>The object of \<open>get_instance\<close> is static, so that its members are zero before the constructor.\<close>

definition log_new :: "(cstr \<Rightarrow> cstr) \<Rightarrow> log" where
  "log_new fs = \<lparr>dir_name = replicate 128 0, log_name = replicate 128 0, m_split_lines = 0, m_log_buf_size = 0,
     m_count = 0, m_today = 0, m_fp = None, m_log_queue = None, m_is_async = False, m_close_log = 0, files = fs\<rparr>"

section \<open>Files\<close>

text \<open>\<open>snprintf\<close> with a limit.\<close>

definition cut :: "nat \<Rightarrow> cstr \<Rightarrow> cstr" where
  "cut n s = take (n - 1) s"

definition string_in :: "u8 list \<Rightarrow> cstr option" where
  "string_in a = (if 0 \<in> set a then Some (takeWhile (\<lambda>c. c \<noteq> 0) a) else None)"



text \<open>\<open>%d_%02d_%02d_\<close>\<close>

definition date_text :: "tm \<Rightarrow> cstr" where
  "date_text t = decimal (tm_year t + 1900) @ [95] @ zero_pad 2 (decimal (tm_mon t + 1)) @ [95] @ zero_pad 2 (decimal (tm_mday t)) @ [95]"

definition log_open :: "(cstr \<Rightarrow> bool) \<Rightarrow> cstr \<Rightarrow> log \<Rightarrow> log" where
  "log_open opens name l = l\<lparr>m_fp := if opens name then Some name else None\<rparr>"

definition log_fputs :: "cstr \<Rightarrow> log \<Rightarrow> log option" where
  "log_fputs s l = (case m_fp l of
     None \<Rightarrow> None
   | Some name \<Rightarrow> Some (l\<lparr>files := (files l)(name := files l name @ s)\<rparr>))"



section \<open>Lines\<close>

definition level_text :: "int \<Rightarrow> cstr" where
  "level_text level =
     (if level = 0 then [91, 100, 101, 98, 117, 103, 93, 58]
      else if level = 1 then [91, 105, 110, 102, 111, 93, 58]
      else if level = 2 then [91, 119, 97, 114, 110, 93, 58]
      else if level = 3 then [91, 101, 114, 114, 111, 93, 58]
      else [91, 105, 110, 102, 111, 93, 58])"

text \<open>\<open>%d-%02d-%02d %02d:%02d:%02d.%06ld %s \<close>\<close>

definition line_head :: "tm \<Rightarrow> int \<Rightarrow> cstr" where
  "line_head t level =
     decimal (tm_year t + 1900) @ [45] @ zero_pad 2 (decimal (tm_mon t + 1)) @ [45] @ zero_pad 2 (decimal (tm_mday t)) @ [32] @
     zero_pad 2 (decimal (tm_hour t)) @ [58] @ zero_pad 2 (decimal (tm_min t)) @ [58] @ zero_pad 2 (decimal (tm_sec t)) @ [46] @
     zero_pad 6 (decimal (tv_usec t)) @ [32] @ level_text level @ [32]"

text \<open>
  The line in \<open>m_buf\<close>: the head is cut after 47 characters but counted in full, and the text starts
  after its full length.  The last write is the zero byte at \<open>n + m + 1\<close>.  The string that is made
  of the buffer ends at its first zero byte, which may be one of the message.
\<close>

definition format_line :: "int \<Rightarrow> tm \<Rightarrow> int \<Rightarrow> cstr \<Rightarrow> cstr option" where
  "format_line buf_len t level msg =
     (let head = line_head t level; n = length head; m = length msg
      in if int (n + m + 1) \<ge> buf_len then None
         else if n < 48 then Some (takeWhile (\<lambda>c. c \<noteq> 0) (head @ msg @ [10]))
         else Some (cut 48 head))"

text \<open>The change of the file: a new day, or a full file.\<close>

definition log_rotate :: "(cstr \<Rightarrow> bool) \<Rightarrow> tm \<Rightarrow> log \<Rightarrow> log option" where
  "log_rotate opens t l =
     (if m_today l \<noteq> tm_mday t then do {
        f \<leftarrow> m_fp l;
        d \<leftarrow> string_in (dir_name l);
        n \<leftarrow> string_in (log_name l);
        let l = l\<lparr>m_today := tm_mday t, m_count := 0\<rparr>;
        Some (log_open opens (cut 255 (d @ cut 16 (date_text t) @ n)) l) }
      else if m_split_lines l = 0 then None
      else if m_count l mod m_split_lines l = 0 then do {
        f \<leftarrow> m_fp l;
        d \<leftarrow> string_in (dir_name l);
        n \<leftarrow> string_in (log_name l);
        Some (log_open opens (cut 255 (d @ cut 16 (date_text t) @ n @ [46] @ format_d (m_count l div m_split_lines l))) l) }
      else Some l)"

text \<open>What happens to the line: the queue when it is used and not full, else the file.\<close>

definition log_put :: "cstr \<Rightarrow> log \<Rightarrow> log option" where
  "log_put log_str l =
     (if m_is_async l then do {
        q \<leftarrow> m_log_queue l;
        (if \<not> bq_full q then do {
           (q, ok) \<leftarrow> bq_push log_str q;
           Some (l\<lparr>m_log_queue := Some q\<rparr>) }
         else log_fputs log_str l) }
      else log_fputs log_str l)"

definition write_log :: "(cstr \<Rightarrow> bool) \<Rightarrow> tm \<Rightarrow> int \<Rightarrow> cstr \<Rightarrow> log \<Rightarrow> log option" where
  "write_log opens t level msg l = do {
     let l = l\<lparr>m_count := m_count l + 1\<rparr>;
     l \<leftarrow> log_rotate opens t l;
     log_str \<leftarrow> format_line (m_log_buf_size l) t level msg;
     log_put log_str l }"

text \<open>The macros; the \<open>flush\<close> after each line changes nothing here.\<close>

definition LOG :: "(cstr \<Rightarrow> bool) \<Rightarrow> tm \<Rightarrow> int \<Rightarrow> cstr \<Rightarrow> int \<Rightarrow> log \<Rightarrow> log option" where
  "LOG opens t level msg close_log l = (if 0 = close_log then write_log opens t level msg l else Some l)"

text \<open>One round of the thread that empties the queue; \<open>None\<close> inside is that it waits.\<close>

definition async_write_log :: "log \<Rightarrow> log option option" where
  "async_write_log l = do {
     q \<leftarrow> m_log_queue l;
     (q, r) \<leftarrow> bq_pop q;
     (case r of
        Returned single_log \<Rightarrow> do { l \<leftarrow> log_fputs single_log (l\<lparr>m_log_queue := Some q\<rparr>); Some (Some l) }
      | _ \<Rightarrow> Some None) }"

fun async_rounds :: "nat \<Rightarrow> log \<Rightarrow> log option" where
  "async_rounds 0 l = Some l"
| "async_rounds (Suc n) l = do {
     r \<leftarrow> async_write_log l;
     (case r of None \<Rightarrow> Some l | Some l \<Rightarrow> async_rounds n l) }"

section \<open>What a line looks like\<close>

definition time_ok :: "tm \<Rightarrow> bool" where
  "time_ok t \<longleftrightarrow> tm_year t < 8100 \<and> tm_mon t < 12 \<and> tm_mday t < 32 \<and> tm_hour t < 24 \<and> tm_min t < 60 \<and> tm_sec t < 61 \<and>
     tv_usec t < 1000000"

lemma decimal_long: "10 ^ k \<le> n \<Longrightarrow> k < length (decimal n)"
proof (induction n arbitrary: k rule: decimal.induct)
  case (1 n)
  show ?case
  proof (cases "n < 10")
    case True
    have "k = 0"
    proof (cases k)
      case (Suc j)
      have "1 \<le> (10 :: nat) ^ j" by simp
      moreover have "10 * 10 ^ j \<le> n" using 1(2) Suc by simp
      ultimately have "10 \<le> n" by linarith
      with True show ?thesis by simp
    qed simp
    with True show ?thesis by (subst decimal.simps) simp
  next
    case False
    have "k - 1 < length (decimal (n div 10)) \<or> k = 0"
    proof (cases k)
      case (Suc j)
      with 1(2) have "10 ^ j \<le> n div 10" by simp
      with 1(1) [OF False] Suc show ?thesis by simp
    qed simp
    with False show ?thesis by (subst decimal.simps) auto
  qed
qed

lemma year_length: "time_ok t \<Longrightarrow> length (decimal (tm_year t + 1900)) = 4"
  using decimal_long [of 3 "tm_year t + 1900"] length_decimal [of "tm_year t + 1900" 4] by (simp add: time_ok_def)

lemma zero_pad_length: "n < 10 ^ k \<Longrightarrow> 0 < k \<Longrightarrow> length (zero_pad k (decimal n)) = k"
  using length_decimal [of n k] by (simp add: zero_pad_def)

lemma line_head_length: "time_ok t \<Longrightarrow> length (line_head t level) = 28 + length (level_text level)"
  using year_length [of t]
  by (simp add: line_head_def zero_pad_length [of _ 2] zero_pad_length [of _ 6] time_ok_def)


text \<open>The head in full: the numbers in a fixed number of digits.\<close>

definition stamp :: "tm \<Rightarrow> cstr" where
  "stamp t = digits 4 (tm_year t + 1900) @ bytes ''-'' @ digits 2 (tm_mon t + 1) @ bytes ''-'' @ digits 2 (tm_mday t) @ bytes '' '' @
     digits 2 (tm_hour t) @ bytes '':'' @ digits 2 (tm_min t) @ bytes '':'' @ digits 2 (tm_sec t) @ bytes ''.'' @ digits 6 (tv_usec t)"

definition level_name :: "int \<Rightarrow> cstr" where
  "level_name level = (if level = 0 then bytes ''[debug]:'' else if level = 2 then bytes ''[warn]:''
     else if level = 3 then bytes ''[erro]:'' else bytes ''[info]:'')"

lemma year_digits:
  assumes "time_ok t"
  shows "decimal (tm_year t + 1900) = digits 4 (tm_year t + 1900)"
proof -
  have "zero_pad 4 (decimal (tm_year t + 1900)) = digits 4 (tm_year t + 1900)"
    using assms by (intro zero_pad_eq) (simp_all add: time_ok_def)
  with year_length [OF assms] show ?thesis by (simp add: zero_pad_def)
qed

lemma level_text_eq: "level_text level = level_name level"
  by (simp add: level_text_def level_name_def bytes_def)

lemma line_head_eq:
  assumes "time_ok t"
  shows "line_head t level = stamp t @ bytes '' '' @ level_name level @ bytes '' ''"
proof -
  have p: "zero_pad 2 (decimal n) = digits 2 n" if "n < 100" for n using that by (intro zero_pad_eq) simp_all
  have u: "zero_pad 6 (decimal (tv_usec t)) = digits 6 (tv_usec t)" using assms by (intro zero_pad_eq) (simp_all add: time_ok_def)
  have b: "tm_mon t + 1 < 100" "tm_mday t < 100" "tm_hour t < 100" "tm_min t < 100" "tm_sec t < 100" using assms by (simp_all add: time_ok_def)
  show ?thesis
    by (simp add: line_head_def stamp_def year_digits [OF assms] p [OF b(1), simplified] p [OF b(2)] p [OF b(3)] p [OF b(4)] p [OF b(5)] u level_text_eq)
      (simp add: bytes_def)
qed

lemma line_head_no_zero: "time_ok t \<Longrightarrow> 0 \<notin> set (line_head t level)"
  using zero_no_digit unfolding line_head_eq stamp_def by (auto simp: level_name_def bytes_def)

text \<open>What a call writes: the message up to a zero byte, and the line feed if it has none.\<close>

definition line_of :: "tm \<times> int \<times> cstr \<Rightarrow> cstr" where
  "line_of w = (case w of (t, level, msg) \<Rightarrow>
     stamp t @ bytes '' '' @ level_name level @ bytes '' '' @ (if 0 \<in> set msg then takeWhile (\<lambda>c. c \<noteq> 0) msg else msg @ [10]))"

lemma format_line_runs:
  assumes "time_ok t"
  shows "format_line b t level msg =
     (if b \<le> int (length msg + length (level_name level) + 29) then None else Some (line_of (t, level, msg)))"
proof -
  have "length (line_head t level) < 48" using line_head_length [OF assms, of level] by (simp add: level_text_def)
  moreover have "takeWhile (\<lambda>c. c \<noteq> 0) (line_head t level @ msg @ [10]) = line_of (t, level, msg)"
  proof -
    have "\<forall>c \<in> set (line_head t level). c \<noteq> 0" using line_head_no_zero [OF assms] by metis
    then have "takeWhile (\<lambda>c. c \<noteq> 0) (line_head t level @ msg @ [10]) = line_head t level @ takeWhile (\<lambda>c. c \<noteq> 0) (msg @ [10])"
      by (intro takeWhile_append2) auto
    moreover have "takeWhile (\<lambda>c. c \<noteq> 0) (msg @ [10]) = (if 0 \<in> set msg then takeWhile (\<lambda>c. c \<noteq> 0) msg else msg @ [10])"
      by (auto simp: takeWhile_append1)
    ultimately show ?thesis by (simp add: line_of_def line_head_eq [OF assms])
  qed
  ultimately show ?thesis
    using line_head_length [OF assms, of level] by (auto simp: format_line_def Let_def level_text_eq)
qed

section \<open>Files by number of lines\<close>











text \<open>Where the lines of a day go when \<open>m_count\<close> is \<open>c\<close> at its first line.\<close>

definition placed :: "(nat \<Rightarrow> cstr) \<Rightarrow> nat \<Rightarrow> nat \<Rightarrow> (tm \<times> int \<times> cstr) list \<Rightarrow> (cstr \<times> cstr) list" where
  "placed file s c ws = map (\<lambda>(j, w). (file (j div s), line_of w)) (enumerate c ws)"

definition content :: "(cstr \<times> cstr) list \<Rightarrow> cstr \<Rightarrow> cstr" where
  "content ps name = concat (map snd (filter (\<lambda>p. fst p = name) ps))"

lemma content_append [simp]: "content (ps @ qs) name = content ps name @ content qs name"
  by (simp add: content_def)


lemma placed_Cons [simp]: "placed file s c (w # ws) = (file (c div s), line_of w) # placed file s (Suc c) ws"
  by (simp add: placed_def)








section \<open>Properties of the log\<close>

text \<open>
  C40. What a line in the log is, and the exact bound of its buffer: the date and the time with a fixed number of digits, the
  name of the level (that of info for an unknown level), and the message with a line feed, or up to its first zero byte and then
  without one.  The call writes outside the buffer exactly when the buffer does not have the 29 bytes of the head and the
  line feed, the name of the level, the message, and one byte for the zero.
\<close>

theorem log_line_bound:
  assumes "time_ok t"
    and "name = (if level = 0 then bytes ''[debug]:'' else if level = 2 then bytes ''[warn]:''
      else if level = 3 then bytes ''[erro]:'' else bytes ''[info]:'')"
  shows "format_line b t level msg =
     (if b < int (length msg + length name + 29) + 1 then None
      else Some (digits 4 (tm_year t + 1900) @ bytes ''-'' @ digits 2 (tm_mon t + 1) @ bytes ''-'' @ digits 2 (tm_mday t) @ bytes '' '' @
        digits 2 (tm_hour t) @ bytes '':'' @ digits 2 (tm_min t) @ bytes '':'' @ digits 2 (tm_sec t) @ bytes ''.'' @
        digits 6 (tv_usec t) @ bytes '' '' @ name @ bytes '' '' @
        (if 0 \<in> set msg then takeWhile (\<lambda>c. c \<noteq> 0) msg else msg @ [10])))"
  using format_line_runs [OF assms(1), of b level msg] unfolding assms(2) level_name_def [symmetric]
  by (simp add: line_of_def stamp_def)



lemma async_rounds_run:
  assumes "m_log_queue l = Some q" and "bq_ok q" and "m_fp l = Some name" and "length (contents q) \<le> k"
  shows "\<exists>l'. async_rounds k l = Some l' \<and> (\<forall>n. files l' n = files l n @ (if n = name then concat (contents q) else [])) \<and>
     (\<exists>q'. m_log_queue l' = Some q' \<and> bq_ok q' \<and> contents q' = [])"
  using assms
proof (induction k arbitrary: l q)
  case 0
  then show ?case by auto
next
  case (Suc k)
  show ?case
  proof (cases "0 < m_size q")
    case True
    from take_queue [OF Suc.prems(2) True] obtain q1 x where
      x: "bq_take q = Some (q1, x)" "bq_ok q1" "contents q = x # contents q1" by blast
    let ?l = "l\<lparr>m_log_queue := Some q1, files := (files l)(name := files l name @ x)\<rparr>"
    have "async_write_log l = Some (Some ?l)"
      using Suc.prems(1,3) True x(1) by (simp add: async_write_log_def bq_pop_def log_fputs_def)
    moreover from Suc.IH [of ?l q1] x(2,3) Suc.prems(3,4) obtain l' q' where
      "async_rounds k ?l = Some l'" "\<forall>n. files l' n = files ?l n @ (if n = name then concat (contents q1) else [])"
      "m_log_queue l' = Some q'" "bq_ok q'" "contents q' = []" by auto
    ultimately show ?thesis by (intro exI [of _ l']) (simp add: x(3))
  next
    case False
    then have "contents q = []" by (simp add: contents_def)
    moreover have "async_write_log l = Some None" using False Suc.prems(1) by (simp add: async_write_log_def bq_pop_def)
    ultimately show ?thesis using Suc.prems(1,2) by auto
  qed
qed

text \<open>
  An asynchronous log reorders lines: when the queue is full a line goes to the file at once, before all
  the lines that wait in the queue, and these follow when the thread has emptied the queue.
\<close>

theorem log_overtakes:
  assumes "m_is_async l" and "m_log_queue l = Some q" and "bq_ok q" and "bq_full q" and "m_fp l = Some name"
    and "m_today l = tm_mday t" and "m_split_lines l \<noteq> 0" and "(m_count l + 1) mod m_split_lines l \<noteq> 0"
    and "time_ok t" and "int (length msg + length (level_name level) + 29) < m_log_buf_size l"
  shows "\<exists>l1 l2. write_log opens t level msg l = Some l1 \<and>
     files l1 name = files l name @ line_of (t, level, msg) \<and>
     async_rounds (length (contents q)) l1 = Some l2 \<and>
     files l2 name = files l name @ line_of (t, level, msg) @ concat (contents q)"
proof -
  let ?line = "line_of (t, level, msg)"
  let ?l = "l\<lparr>m_count := m_count l + 1, files := (files l)(name := files l name @ ?line)\<rparr>"
  have run: "write_log opens t level msg l = Some ?l"
    using assms format_line_runs [OF assms(9), of "m_log_buf_size l" level msg]
    by (simp add: write_log_def log_rotate_def log_put_def log_fputs_def)
  from async_rounds_run [of ?l q name "length (contents q)"] assms(2,3,5) obtain l2 where
    "async_rounds (length (contents q)) ?l = Some l2" "files l2 name = files ?l name @ concat (contents q)" by auto
  with run show ?thesis by auto
qed

section \<open>Witnesses\<close>

definition demo_time :: tm where
  "demo_time = \<lparr>tm_year = 124, tm_mon = 0, tm_mday = 2, tm_hour = 3, tm_min = 4, tm_sec = 5, tv_usec = 6\<rparr>"

lemma demo_time_ok: "time_ok demo_time" "tm_mday demo_time = 2"
  by (simp_all add: time_ok_def demo_time_def)

theorem log_line_bound_witness:
  "format_line 38 demo_time 1 [120] = Some (bytes ''2024-01-02 03:04:05.000006 [info]: x'' @ [10]) \<and> format_line 37 demo_time 1 [120] = None"
proof -
  have d: "digits 4 2024 = bytes ''2024''" "digits 2 (Suc 0) = bytes ''01''" "digits 2 2 = bytes ''02''" "digits 2 3 = bytes ''03''"
    "digits 2 4 = bytes ''04''" "digits 2 5 = bytes ''05''" "digits 6 6 = bytes ''000006''"
    by (simp_all add: digits_def bytes_def upt_rec)
  show ?thesis
    using log_line_bound [OF demo_time_ok(1) refl, of 38 1 "[120]"] log_line_bound [OF demo_time_ok(1) refl, of 37 1 "[120]"]
    by (simp add: demo_time_def d) (simp add: bytes_def)
qed



theorem log_overtakes_witness:
  "\<exists>q l l1 l2. bq_push [65] (the (bq_new [] 1)) = Some (q, True) \<and>
     l = (log_new (\<lambda>_. []))\<lparr>m_is_async := True, m_log_queue := Some q, m_fp := Some [108], m_today := 2, m_split_lines := 100,
       m_log_buf_size := 8000\<rparr> \<and>
     write_log (\<lambda>_. True) demo_time 1 [120] l = Some l1 \<and> async_rounds 1 l1 = Some l2 \<and>
     files l2 [108] = line_of (demo_time, 1, [120]) @ [65]"
proof -
  obtain q0 where q0: "bq_new ([] :: cstr) 1 = Some q0" "bq_ok q0" "contents q0 = []" "m_max_size q0 = (1 :: int)"
    using new_queue [of 1 "[] :: cstr"] by auto
  with length_contents [OF q0(2)] have "m_size q0 < m_max_size q0" by simp
  from push_room [OF q0(2) this, of "[65]"] q0 obtain q where
    q: "bq_push [65] q0 = Some (q, True)" "bq_ok q" "contents q = [[65]]" "m_max_size q = 1" by auto
  have full: "bq_full q" using length_contents [OF q(2)] q(3,4) by (simp add: bq_full_def)
  let ?l = "(log_new (\<lambda>_. []))\<lparr>m_is_async := True, m_log_queue := Some q, m_fp := Some [108], m_today := 2, m_split_lines := 100,
       m_log_buf_size := 8000\<rparr>"
  from log_overtakes [OF _ _ q(2) full, of ?l "[108]" demo_time "[120]" 1 "\<lambda>_. True"] q(3)
  obtain l1 l2 where "write_log (\<lambda>_. True) demo_time 1 [120] ?l = Some l1" "async_rounds 1 l1 = Some l2"
    "files l2 [108] = line_of (demo_time, 1, [120]) @ [65]"
    by (auto simp: demo_time_ok level_name_def bytes_def log_new_def)
  with q(1) q0(1) show ?thesis by (metis option.sel)
qed

end
