(* ===== verification/UdpClient.thy ===== *)
theory UdpClient
  imports Programs
begin

text \<open>
  The client (\<open>src/client/udpClient.cpp\<close>): words from the standard input are keys, each is sent to the
  master, and the answer is printed.  The theory ends with the lookup of a key from end to end: client,
  master, and the cache servers.

  The program is built without a limit on the width of the input, so a word that does not fit the buffer with
  its zero overruns it.  When the input has ended, the extraction fails before it stores anything.
\<close>

section \<open>The client\<close>

text \<open>The input that is left, the buffer, what was sent where, and what was printed.\<close>

record udp_client =
  cin :: cstr
  cl_buf :: "u8 list"
  asked :: "(sockaddr_in \<times> cstr) list"
  shown :: cstr

definition server_addr :: "bool \<Rightarrow> sockaddr_in" where
  "server_addr le = \<lparr>sin_family = AF_INET, sin_port = htons le 7000, sin_addr = inet_pton (bytes ''127.0.0.1'') [0, 0, 0, 0]\<rparr>"

definition client_addr :: "bool \<Rightarrow> sockaddr_in" where
  "client_addr le = \<lparr>sin_family = AF_INET, sin_port = htons le 5000, sin_addr = inet_pton (bytes ''127.0.0.2'') [0, 0, 0, 0]\<rparr>"

text \<open>The start: the text that is printed and the result of \<open>main\<close> when a call fails.\<close>

definition client_start :: "bool \<Rightarrow> bool \<Rightarrow> int \<Rightarrow> cstr \<Rightarrow> u8 list \<Rightarrow> (cstr \<times> int) + udp_client" where
  "client_start socket_ok bind_ok errno input junk =
     (if \<not> socket_ok then Inl (bytes ''cfd create failed'' @ [10], - 1)
      else if \<not> bind_ok then Inl (bytes ''udp addr bind failed, errno is '' @ format_d errno, - 1)
      else Inr \<lparr>cin = input, cl_buf = junk, asked = [], shown = []\<rparr>)"

text \<open>\<open>std::cin >> buf\<close>: the next word, if there is one, and what is left.\<close>

definition isspace :: "u8 \<Rightarrow> bool" where
  "isspace c \<longleftrightarrow> c = 32 \<or> 9 \<le> c \<and> c \<le> 13"

definition cin_word :: "cstr \<Rightarrow> cstr option \<times> cstr" where
  "cin_word input =
     (let s = dropWhile isspace input
      in if s = [] then (None, []) else (Some (takeWhile (\<lambda>c. \<not> isspace c) s), dropWhile (\<lambda>c. \<not> isspace c) s))"

definition store_word :: "cstr option \<Rightarrow> u8 list \<Rightarrow> u8 list option" where
  "store_word w bf =
     (case w of
        None \<Rightarrow> Some bf
      | Some w \<Rightarrow> if length w + 1 \<le> length bf then Some (fill_buf bf (w @ [0])) else None)"

text \<open>A round up to \<open>recvfrom\<close>, and from there on: the call cuts a datagram to the buffer; \<open>None\<close> is its error.\<close>

definition client_ask :: "bool \<Rightarrow> udp_client \<Rightarrow> udp_client option" where
  "client_ask le c = do {
     let (w, rest) = cin_word (cin c);
     bf \<leftarrow> store_word w (cl_buf c);
     k \<leftarrow> cstr_of bf;
     Some (c\<lparr>cin := rest, asked := asked c @ [(server_addr le, k @ [0])], cl_buf := replicate (length bf) 0\<rparr>) }"

definition client_hear :: "bool \<Rightarrow> (sockaddr_in \<times> cstr) option \<Rightarrow> udp_client \<Rightarrow> udp_client option" where
  "client_hear le r c =
     (case r of
        None \<Rightarrow> Some (c\<lparr>shown := shown c @ bytes ''nothing received...'' @ [10]\<rparr>)
      | Some (addr, d) \<Rightarrow> do {
          let d = take (length (cl_buf c)) d;
          let bf = fill_buf (cl_buf c) d;
          let c = c\<lparr>cl_buf := bf\<rparr>;
          (if length d > 0 then do {
             s \<leftarrow> cstr_of bf;
             Some (c\<lparr>shown := shown c @ bytes ''from server '' @ inet_ntoa (sin_addr addr) @ [58] @
               format_d (uint (ntohs le (sin_port addr))) @ bytes '', ret : '' @ s\<rparr>) }
           else Some (c\<lparr>shown := shown c @ bytes ''nothing received...'' @ [10]\<rparr>)) })"

definition client_round :: "bool \<Rightarrow> (sockaddr_in \<times> cstr) option \<Rightarrow> udp_client \<Rightarrow> udp_client option" where
  "client_round le r c = do { c \<leftarrow> client_ask le c; client_hear le r c }"

text \<open>The loop, for as many rounds as there are answers.\<close>

fun client_rounds :: "bool \<Rightarrow> (sockaddr_in \<times> cstr) option list \<Rightarrow> udp_client \<Rightarrow> udp_client option" where
  "client_rounds le [] c = Some c"
| "client_rounds le (r # rs) c = do { c \<leftarrow> client_round le r c; client_rounds le rs c }"

section \<open>Rounds\<close>

text \<open>A key that the client can send: one word without a zero that fits the buffer.\<close>

definition key_ok :: "cstr \<Rightarrow> bool" where
  "key_ok k \<longleftrightarrow> k \<noteq> [] \<and> length k < buf_size \<and> (\<forall>c \<in> set k. c \<noteq> 0 \<and> \<not> isspace c)"

lemma cin_word_key:
  assumes "key_ok k" and "rest = [] \<or> isspace (hd rest)"
  shows "cin_word (k @ rest) = (Some k, rest)"
proof -
  have k: "k \<noteq> []" "\<forall>c \<in> set k. \<not> isspace c" using assms(1) by (auto simp: key_ok_def)
  then have "dropWhile isspace (k @ rest) = k @ rest" by (cases k) auto
  moreover have "takeWhile (\<lambda>c. \<not> isspace c) (k @ rest) = k" "dropWhile (\<lambda>c. \<not> isspace c) (k @ rest) = rest"
    using k(2) assms(2) by (cases rest; simp)+
  ultimately show ?thesis using k(1) by (simp add: cin_word_def)
qed

lemma cstr_of_stored: "0 \<notin> set k \<Longrightarrow> cstr_of (k @ 0 # t) = Some k"
  by (induction k) (auto simp: cstr_of_def)

lemma ask_runs:
  assumes "key_ok k" and "cin c = k @ rest" and "rest = [] \<or> isspace (hd rest)" and "length (cl_buf c) = buf_size"
  shows "client_ask le c = Some (c\<lparr>cin := rest, asked := asked c @ [(server_addr le, k @ [0])], cl_buf := replicate buf_size 0\<rparr>)"
proof -
  have k: "0 \<notin> set k" "length k + 1 \<le> length (cl_buf c)" using assms(1,4) by (auto simp: key_ok_def)
  have "store_word (Some k) (cl_buf c) = Some (k @ 0 # drop (length k + 1) (cl_buf c))"
    using k(2) by (simp add: store_word_def fill_buf_def)
  with cstr_of_stored [OF k(1)] k(2) assms(4) cin_word_key [OF assms(1,3)] show ?thesis
    by (simp add: client_ask_def assms(2))
qed

lemma hear_runs:
  assumes "cl_buf c = replicate buf_size 0" and "0 \<notin> set d" and "d \<noteq> []" and "length d < buf_size"
  shows "client_hear le (Some (a, d)) c = Some (c\<lparr>cl_buf := d @ replicate (buf_size - length d) 0,
     shown := shown c @ bytes ''from server '' @ inet_ntoa (sin_addr a) @ [58] @ format_d (uint (ntohs le (sin_port a))) @
       bytes '', ret : '' @ d\<rparr>)"
proof -
  obtain n where n: "buf_size - length d = Suc n" using assms(4) by (cases "buf_size - length d") auto
  then have "fill_buf (replicate buf_size 0) d = d @ 0 # replicate n 0" by (simp add: fill_buf_def drop_replicate)
  with n cstr_of_stored [OF assms(2)] assms(1,3) show ?thesis by (simp add: client_hear_def Let_def)
qed


section \<open>Asking the master\<close>

text \<open>The datagram of a client at the master, over what the stack had in the buffer.\<close>

definition query :: "u8 list \<Rightarrow> sockaddr_in \<Rightarrow> cstr \<Rightarrow> master \<Rightarrow> m_event" where
  "query stack addr d m = \<lparr>me_fd = master_client_sockfd m, me_stack = stack, me_dgram = d, me_addr = addr, me_cfd = 0, me_recv = RecvError\<rparr>"

lemma reply_ok:
  assumes ok: "master_ok m ts" and h: "hash_rel f m ns" and ne: "[] \<notin> set ns" and n: "n = server_at (ring_of f ns) x"
  shows "reply_text ts n \<noteq> []" "0 \<notin> set (reply_text ts n)" "length (reply_text ts n) < buf_size"
proof -
  from h have N: "length n \<le> 63" "0 \<notin> set n" using server_at_ok [of True "masterHash m" f "ring_of f ns" x] n by (simp_all add: hash_rel_def)
  have "n \<noteq> []" using server_at_names [OF h, of x] ne n by (auto simp: null_name_def split: if_splits)
  moreover have "addr_ok (ring_next ts n)" if "n \<in> set ts"
    using registered(2) [OF ok ring_next_in [OF that]] master_okD(9) [OF ok] by blast
  ultimately show "reply_text ts n \<noteq> []" "0 \<notin> set (reply_text ts n)" "length (reply_text ts n) < buf_size"
    using N by (auto simp: reply_text_def addr_ok_def buf_size_def)
qed

lemma master_answers:
  assumes ok: "master_ok m ts" and h: "hash_rel (default_hash e) m ns" and fits: "card (dom (nodes_map (masterHash m))) < 2 ^ 26"
    and q: "m_queue m = \<lparr>workqueue = [], queuestat = 0\<rparr>" and k: "0 \<notin> set k"
    and n: "n = server_at (ring_of (default_hash e) ns) (default_hash e k)"
  shows "\<exists>m1. master_dispatch e (query stack addr (k @ [0]) m) m = Some (m1, 0) \<and>
     master_run e m1 = Some (m\<lparr>replies := replies m @ [(addr, reply_text ts n)]\<rparr>)"
proof -
  let ?r = "\<lparr>m_type = GETDISTRIBUTE, m_addr = addr, m_key = k, m_cfd = - 1\<rparr>"
  let ?m = "m\<lparr>m_queue := \<lparr>workqueue = [?r], queuestat = 1\<rparr>\<rparr>"
  have "cstr_of (fill_buf stack (k @ [0])) = Some k" using cstr_of_stored [OF k] by (simp add: fill_buf_def)
  then have "master_dispatch e (query stack addr (k @ [0]) m) m = Some (?m, 0)"
    by (simp add: master_dispatch_def query_def master_dealwithClient_def master_append_def q pool_append_def pool_push_def
        pool_post_def master_max_requests_def)
  moreover have next_r: "pool_next (m_queue ?m) = Some (\<lparr>workqueue = [], queuestat = 0\<rparr>, Some ?r)"
    by (simp add: pool_next_def pool_wait_def pool_take_def)
  have idle: "?m\<lparr>m_queue := \<lparr>workqueue = [], queuestat = 0\<rparr>\<rparr> = m" using q by simp
  have "c_str k = k" using k by (intro c_str_id)
  with distribute_runs [OF ok _ hash_rel_fits [OF h fits], of True "default_hash e" addr k] h n
  have "GetDistribute addr k m = Some (m\<lparr>replies := replies m @ [(addr, reply_text ts n)]\<rparr>, 0)" by (simp add: hash_rel_def)
  then have "master_run e ?m = Some (m\<lparr>replies := replies m @ [(addr, reply_text ts n)]\<rparr>)"
    unfolding master_run_def next_r option.case prod.case master_handle_def idle by simp
  ultimately show ?thesis by blast
qed

lemma shown_from: "bytes ''from server '' @ inet_ntoa (sin_addr (server_addr le)) @ [58] @
    format_d (uint (ntohs le (sin_port (server_addr le)))) @ bytes '', ret : '' = bytes ''from server 127.0.0.1:7000, ret : ''"
proof -
  have port: "ntohs le (sin_port (server_addr le)) = 7000" by (simp add: server_addr_def ntohs_def)
  have ip: "sin_addr (server_addr le) = inet_pton (bytes ''127.0.0.1'') [0, 0, 0, 0]" by (simp add: server_addr_def)
  have seven: "format_d (uint (7000 :: u16)) = [55, 48, 48, 48]"
    by (simp add: format_d_def decimal.simps [of 7000] decimal.simps [of 700] decimal.simps [of 70] decimal.simps [of 7])
  show ?thesis unfolding port ip seven by code_simp
qed

section \<open>Properties\<close>

text \<open>
  C5. A lookup from end to end: in every state that the master reaches from its start with admitted registrations and
  sound input (as in C1) and in which it is idle, a client that reads a key sends it to the master, the master answers
  the client, and the client prints the answer: the server at the position of the key in the
  ring of the registered names, which is the one that a cache server with this ring has for the key, or the text
  for none; nothing faults on the way.
\<close>

theorem lookup_end_to_end:
  assumes "master_main e creates detaches r ret junk o1 = Some m0" and "sent o1 = []" and "env_ok e" and "master_reach e m0 m"
    and "m_queue m = \<lparr>workqueue = [], queuestat = 0\<rparr>" and "card (dom (nodes_map (masterHash m))) < 2 ^ 26"
    and "key_ok k" and "cin c = k @ rest" and "rest = [] \<or> isspace (hd rest)" and "length (cl_buf c) = buf_size"
  shows "\<exists>ts ns n c1 m1 m2 c2.
     client_ask (little_endian e) c = Some c1 \<and> asked c1 = asked c @ [(server_addr (little_endian e), k @ [0])] \<and>
     master_dispatch e (query stack addr (k @ [0]) m) m = Some (m1, 0) \<and> master_run e m1 = Some m2 \<and>
     replies m2 = replies m @ [(addr, reply_text ts n)] \<and>
     client_hear (little_endian e) (Some (server_addr (little_endian e), reply_text ts n)) c1 = Some c2 \<and>
     shown c2 = shown c @ bytes ''from server 127.0.0.1:7000, ret : '' @ reply_text ts n \<and> cin c2 = rest \<and>
     master_ok m ts \<and> hash_rel (default_hash e) m ns \<and> (if ns = [] then n = null_name else n \<in> set ns) \<and>
     (\<forall>b h. servers_ok b h (default_hash e) (ring_of (default_hash e) ns) \<longrightarrow> conhash_get_CacheServer h k = Some n)"
proof -
  let ?f = "default_hash e" and ?le = "little_endian e"
  from reach_inv [OF assms(4,3) master_main_starts [OF assms(1,3,2)]] obtain ts ns where
    ok: "master_ok m ts" and h: "hash_rel ?f m ns" and ne: "[] \<notin> set ns"
    unfolding master_inv_def names_inv_def by blast
  define n where "n = server_at (ring_of ?f ns) (?f k)"
  note R = reply_ok [OF ok h ne n_def]
  have k: "0 \<notin> set k" using assms(7) by (auto simp: key_ok_def)
  from master_answers [OF ok h assms(6,5) k n_def, of stack addr] obtain m1 where
    m1: "master_dispatch e (query stack addr (k @ [0]) m) m = Some (m1, 0)"
    "master_run e m1 = Some (m\<lparr>replies := replies m @ [(addr, reply_text ts n)]\<rparr>)" by blast
  note ask = ask_runs [OF assms(7-10), of ?le]
  let ?c1 = "c\<lparr>cin := rest, asked := asked c @ [(server_addr ?le, k @ [0])], cl_buf := replicate buf_size 0\<rparr>"
  from hear_runs [OF _ R(2,1,3), of ?c1 ?le "server_addr ?le"] obtain c2 where
    c2: "client_hear ?le (Some (server_addr ?le, reply_text ts n)) ?c1 = Some c2" "cin c2 = rest"
    "shown c2 = shown c @ (bytes ''from server '' @ inet_ntoa (sin_addr (server_addr ?le)) @ [58] @
       format_d (uint (ntohs ?le (sin_port (server_addr ?le)))) @ bytes '', ret : '') @ reply_text ts n" by auto
  note shows_server = c2(3) [unfolded shown_from]
  have "conhash_get_CacheServer s k = Some n" if "servers_ok b s ?f (ring_of ?f ns)" for b s
    using con_hash_get_runs [OF that hash_rel_fits [OF h assms(6)], of k] k by (simp add: c_str_id n_def)
  with ask m1 c2(1,2) shows_server ok h server_at_names [OF h, of "?f k", folded n_def] show ?thesis
    by - (rule exI [of _ ts], rule exI [of _ ns], rule exI [of _ n], rule exI [of _ ?c1], rule exI [of _ m1],
      rule exI [of _ "m\<lparr>replies := replies m @ [(addr, reply_text ts n)]\<rparr>"], rule exI [of _ c2], simp)
qed


text \<open>
  Two errors at the keyboard: when the input has ended the client sends the answer that it got last as the next
  key, and again after each further answer; and a word that leaves no room for the zero overruns the buffer.
\<close>

theorem client_input_errors:
  assumes "cl_buf c = replicate buf_size 0" and "0 \<notin> set d" and "d \<noteq> []" and "length d < buf_size"
  shows "\<exists>c1. client_hear le (Some (a, d)) c = Some c1 \<and>
     (dropWhile isspace (cin c) = [] \<longrightarrow> map_option asked (client_ask le c1) = Some (asked c @ [(server_addr le, d @ [0])])) \<and>
     (\<forall>w rest. cin_word (cin c) = (Some w, rest) \<longrightarrow> buf_size \<le> length w \<longrightarrow> client_ask le c1 = None)"
proof -
  from hear_runs [OF assms] obtain c1 where c1: "client_hear le (Some (a, d)) c = Some c1"
    "cl_buf c1 = d @ replicate (buf_size - length d) 0" "cin c1 = cin c" "asked c1 = asked c" by simp
  obtain n where n: "buf_size - length d = Suc n" using assms(4) by (cases "buf_size - length d") auto
  have "length (cl_buf c1) = buf_size" using c1(2) assms(4) by simp
  moreover have "cstr_of (cl_buf c1) = Some d" unfolding c1(2) n using cstr_of_stored [OF assms(2)] by simp
  ultimately show ?thesis using c1(1,3,4) by (auto simp: client_ask_def cin_word_def store_word_def Let_def split: if_splits)
qed

section \<open>Witnesses\<close>

definition demo_client :: udp_client where
  "demo_client = \<lparr>cin = [107, 10], cl_buf = replicate buf_size 0, asked = [], shown = []\<rparr>"

lemma demo_name_text: "demo_name = bytes ''127.0.0.1:8080''"
  by code_simp

theorem lookup_witness:
  "\<exists>m0 m c1 m1 m2 c2. master_main demo_env (\<lambda>_. True) (\<lambda>_. True) demo_listen 0 5 demo_os = Some m0 \<and> master_reach demo_env m0 m \<and>
     registedMap m = [(demo_name2, 5)] \<and> client_ask True demo_client = Some c1 \<and> asked c1 = [(server_addr True, [107, 0])] \<and>
     master_dispatch demo_env (query [] demo_addr [107, 0] m) m = Some (m1, 0) \<and> master_run demo_env m1 = Some m2 \<and>
     replies m2 = replies m @ [(demo_addr, bytes ''127.0.0.1:8080'')] \<and>
     client_hear True (Some (server_addr True, bytes ''127.0.0.1:8080'')) c1 = Some c2 \<and>
     shown c2 = bytes ''from server 127.0.0.1:7000, ret : '' @ bytes ''127.0.0.1:8080''"
proof -
  obtain m0 m where m: "master_main demo_env (\<lambda>_. True) (\<lambda>_. True) demo_listen 0 5 demo_os = Some m0" "master_reach demo_env m0 m"
    "m_queue m = \<lparr>workqueue = [], queuestat = 0\<rparr>" "dom (nodes_map (masterHash m)) = {demo_name}" "registedMap m = [(demo_name2, 5)]"
    using demo_joins by blast
  have o: "sent demo_os = []" and le: "little_endian demo_env = True" by (simp_all add: demo_os_def demo_hash)
  have k: "key_ok [107]" by (simp add: key_ok_def isspace_def buf_size_def)
  have c: "cin demo_client = [107] @ [10]" "[10] = [] \<or> isspace (hd [10])" "length (cl_buf demo_client) = buf_size"
    "asked demo_client = []" "shown demo_client = []" by (simp_all add: demo_client_def isspace_def)
  have "card (dom (nodes_map (masterHash m))) < 2 ^ 26" by (simp add: m(4))
  from lookup_end_to_end [OF m(1) o demo_env_ok(1) m(2,3) this k c(1-3), of "[]" demo_addr, unfolded demo_hash(1) le c(4,5)]
  obtain ts ns n c1 m1 m2 c2 where
    run: "client_ask True demo_client = Some c1" "asked c1 = [(server_addr True, [107, 0])]"
      "master_dispatch demo_env (query [] demo_addr [107, 0] m) m = Some (m1, 0)" "master_run demo_env m1 = Some m2"
      "replies m2 = replies m @ [(demo_addr, reply_text ts n)]" "client_hear True (Some (server_addr True, reply_text ts n)) c1 = Some c2"
      "shown c2 = bytes ''from server 127.0.0.1:7000, ret : '' @ reply_text ts n"
    and n: "master_ok m ts" "hash_rel byte_sum m ns" "if ns = [] then n = null_name else n \<in> set ns" by auto
  have "set ns = {demo_name}" using n(2) m(4) by (simp add: hash_rel_def)
  with n(3) have "n = demo_name" by (auto split: if_splits)
  moreover have "set ts = {demo_name2}" using master_okD(5) [OF n(1)] m(5) by auto
  ultimately have "reply_text ts n = demo_name" using demo_name2_facts(1) by (simp add: reply_text_def)
  note answer = this [unfolded demo_name_text]
  show ?thesis using m(1,2,5) run(1-4) run(5-7) [unfolded answer] by blast
qed

theorem client_input_witness:
  "\<exists>c1. client_hear True (Some (demo_addr, [78])) demo_client = Some c1"
  using client_input_errors [of demo_client "[78]" True demo_addr] by (simp add: demo_client_def buf_size_def) blast

end
