(* ===== verification/Sample.thy ===== *)
theory Sample
  imports ConHashTheorems Wire
begin

text \<open>
  The program \<open>src/conhash/sample.c\<close>: five nodes with different numbers of replicas, twenty lookups, the removal
  of a node, and the same lookups again.  It runs every exported function of the library on one ring, here for
  any default hash, any allocator that returns fresh memory, and any place of the array \<open>g_nodes\<close>.
\<close>

section \<open>The program\<close>

text \<open>\<open>g_nodes\<close>: 64 nodes that are zero at the start, at \<open>g\<close>, \<open>g + 1\<close> and so on.\<close>

definition g_nodes :: "nat \<Rightarrow> nat \<rightharpoonup> node_s" where
  "g_nodes g = (\<lambda>a. if g \<le> a \<and> a < g + 64 then Some zero_node else None)"

definition sample_nodes :: "(cstr \<times> u32) list" where
  "sample_nodes = [(bytes ''titanic'', 32), (bytes ''terminator2018'', 24), (bytes ''Xenomorph'', 25),
     (bytes ''True Lies'', 10), (bytes ''avantar'', 48)]"

fun set_nodes :: "nat \<Rightarrow> (cstr \<times> u32) list \<Rightarrow> heap \<Rightarrow> heap option" where
  "set_nodes a [] w = Some w"
| "set_nodes a ((idn, r) # xs) w = do {
     nd \<leftarrow> nodes w a;
     set_nodes (a + 1) xs (w\<lparr>nodes := (nodes w)(a \<mapsto> conhash_set_node nd idn r)\<rparr>) }"

fun add_nodes :: "allocator \<Rightarrow> rbnode \<Rightarrow> nat list \<Rightarrow> heap \<Rightarrow> heap option" where
  "add_nodes mal junk [] w = Some w"
| "add_nodes mal junk (a # as) w = do {
     (w, ret) \<leftarrow> conhash_add_node mal junk a w;
     add_nodes mal junk as w }"

definition object_text :: "nat \<Rightarrow> cstr" where
  "object_text i = bytes ''James.km'' @ format_03d (int i)"

definition pad16 :: "cstr \<Rightarrow> cstr" where
  "pad16 s = replicate (16 - length s) 32 @ s"

definition found_line :: "cstr \<Rightarrow> cstr \<Rightarrow> cstr" where
  "found_line str s = bytes ''['' @ pad16 str @ bytes ''] is in node: ['' @ pad16 s @ bytes '']'' @ [10]"

text \<open>The loop of lookups, with what it prints.\<close>

fun try_objects :: "nat list \<Rightarrow> heap \<Rightarrow> cstr option" where
  "try_objects [] w = Some []"
| "try_objects (i # is) w = do {
     node \<leftarrow> conhash_lookup w (Some (object_text i));
     line \<leftarrow> (if node \<noteq> 0
        then do { nd \<leftarrow> nodes w node; s \<leftarrow> cstr_of (iden nd); Some (found_line (object_text i) s) }
        else Some []);
     rest \<leftarrow> try_objects is w;
     Some (line @ rest) }"

definition results_head :: cstr where
  "results_head = bytes ''the hashing results--------------------------------------:'' @ [10]"

definition sample_body :: "allocator \<Rightarrow> rbnode \<Rightarrow> nat \<Rightarrow> int list \<Rightarrow> heap \<Rightarrow> (heap \<times> cstr) option" where
  "sample_body mal junk g hashes w = do {
     w \<leftarrow> set_nodes g sample_nodes w;
     w \<leftarrow> add_nodes mal junk [g, g + 1, g + 2, g + 3, g + 4] w;
     let t1 = bytes ''virtual nodes number '' @ format_d (sint (conhash_get_vnodes_num w)) @ [10] @ results_head;
     t2 \<leftarrow> try_objects [0..<20] w;
     hashes \<leftarrow> conhash_get_vnodes w (Some hashes) 512;
     (w, ret) \<leftarrow> conhash_del_node (g + 2) w;
     nd \<leftarrow> nodes w (g + 2);
     s \<leftarrow> cstr_of (iden nd);
     let t3 = bytes ''remove node['' @ s @ bytes ''], virtual nodes number '' @ format_d (sint (conhash_get_vnodes_num w)) @ [10] @ results_head;
     t4 \<leftarrow> try_objects [0..<20] w;
     Some (w, t1 @ t2 @ t3 @ t4) }"

definition sample_main :: "(cstr \<Rightarrow> int) \<Rightarrow> allocator \<Rightarrow> rbnode \<Rightarrow> bool \<Rightarrow> nat \<Rightarrow> int list \<Rightarrow> heap \<Rightarrow> (heap \<times> cstr) option" where
  "sample_main hdef mal junk ok g hashes w = do {
     w \<leftarrow> conhash_init hdef None ok w;
     (w, out) \<leftarrow> (if chash w \<noteq> None then sample_body mal junk g hashes w else Some (w, []));
     w \<leftarrow> conhash_fini w;
     Some (w, out) }"

section \<open>The parts\<close>

lemma set_nodes_runs:
  assumes "\<forall>i < length xs. nodes w (a + i) = Some zero_node"
  shows "\<exists>ns. set_nodes a xs w = Some (w\<lparr>nodes := ns\<rparr>) \<and> dom ns = dom (nodes w) \<and>
     (\<forall>i < length xs. ns (a + i) = Some (conhash_set_node zero_node (fst (xs ! i)) (snd (xs ! i)))) \<and>
     (\<forall>b. b < a \<or> a + length xs \<le> b \<longrightarrow> ns b = nodes w b)"
  using assms
proof (induction xs arbitrary: a w)
  case Nil
  then show ?case by (intro exI [of _ "nodes w"]) simp
next
  case (Cons x xs)
  obtain idn r where x: "x = (idn, r)" by (cases x)
  let ?w = "w\<lparr>nodes := (nodes w)(a \<mapsto> conhash_set_node zero_node idn r)\<rparr>"
  have a: "nodes w a = Some zero_node" using Cons.prems [rule_format, of 0] by simp
  have "\<forall>i < length xs. nodes ?w (a + 1 + i) = Some zero_node"
    using Cons.prems by (auto dest: spec [of _ "Suc _"])
  from Cons.IH [OF this] obtain ns where ns: "set_nodes (a + 1) xs ?w = Some (?w\<lparr>nodes := ns\<rparr>)" "dom ns = dom (nodes ?w)"
    "\<forall>i < length xs. ns (a + 1 + i) = Some (conhash_set_node zero_node (fst (xs ! i)) (snd (xs ! i)))"
    "\<forall>b. b < a + 1 \<or> a + 1 + length xs \<le> b \<longrightarrow> ns b = nodes ?w b" by blast
  have "ns (a + i) = Some (conhash_set_node zero_node (fst ((x # xs) ! i)) (snd ((x # xs) ! i)))" if "i < length (x # xs)" for i
    using that ns(3,4) x by (cases i) auto
  moreover have "dom ns = dom (nodes w)" using ns(2) a by auto
  moreover have "ns b = nodes w b" if "b < a \<or> a + length (x # xs) \<le> b" for b
    using ns(4) [rule_format, of b] that by auto
  ultimately show ?case using ns(1) a by (intro exI [of _ ns]) (simp add: x)
qed

text \<open>Every entry of the ring is at a position of its node.\<close>

definition owned :: "(cstr \<Rightarrow> int) \<Rightarrow> heap \<Rightarrow> (int \<rightharpoonup> nat) \<Rightarrow> nat set \<Rightarrow> bool" where
  "owned f w m A \<longleftrightarrow> (\<forall>k a. m k = Some a \<longrightarrow> a \<in> A \<and> (\<exists>nd. nodes w a = Some nd \<and> k \<in> positions f nd))"

lemma grown_owned:
  assumes "grown served a H m m'" and "m' k = Some b"
  shows "m k = Some b \<or> b = a \<and> k \<in> H"
  using assms unfolding grown_def by (metis option.inject)

definition fresh_node :: "node_s \<Rightarrow> bool" where
  "fresh_node nd \<longleftrightarrow> 0 \<in> set (iden nd) \<and> flag nd = NODE_FLAG_INIT"

lemma fresh_nodeD:
  assumes "fresh_node nd"
  shows "0 \<in> set (iden nd)" "flag nd AND NODE_FLAG_INIT \<noteq> 0" "flag nd AND NODE_FLAG_IN = 0"
  using assms by (simp_all add: fresh_node_def NODE_FLAG_INIT_def NODE_FLAG_IN_def)

definition inserted :: "node_s \<Rightarrow> node_s" where
  "inserted nd = nd\<lparr>flag := NODE_FLAG_INIT OR NODE_FLAG_IN\<rparr>"

lemma owned_grown:
  assumes own: "owned f w m A" and g: "grown served a (positions f nd) m m1"
    and nd: "nodes w a = Some nd" and n1: "nodes w1 = (nodes w)(a \<mapsto> inserted nd)"
  shows "owned f w1 m1 (insert a A)"
  unfolding owned_def
proof (intro allI impI)
  have pos: "positions f (inserted x) = positions f x" for x by (simp add: inserted_def positions_flag)
  fix k b assume "m1 k = Some b"
  from grown_owned [OF g this] consider "m k = Some b" | "b = a" "k \<in> positions f nd" by blast
  then show "b \<in> insert a A \<and> (\<exists>nd. nodes w1 b = Some nd \<and> k \<in> positions f nd)"
  proof cases
    case 1
    with own obtain x where "b \<in> A" "nodes w b = Some x" "k \<in> positions f x" unfolding owned_def by blast
    with nd show ?thesis unfolding n1 using pos [of x] by (cases "b = a") auto
  next
    case 2
    then show ?thesis unfolding n1 by (simp add: pos)
  qed
qed

lemma add_nodes_runs:
  assumes "malloc_fresh mal" and "ring_state True w m" and "hashf w = Some f" and "distinct as" and "0 \<notin> set as"
    and "\<forall>a \<in> set as. \<exists>nd. nodes w a = Some nd \<and> fresh_node nd" and "owned f w m A"
  shows "\<exists>w' m'. add_nodes mal junk as w = Some w' \<and> ring_state True w' m' \<and> hashf w' = Some f \<and>
     nodes w' = (\<lambda>a. if a \<in> set as then map_option inserted (nodes w a) else nodes w a) \<and>
     owned f w' m' (A \<union> set as) \<and> m \<subseteq>\<^sub>m m' \<and>
     (malloc_serves mal \<longrightarrow> m = Map.empty \<longrightarrow> as \<noteq> [] \<longrightarrow> (\<forall>k \<in> positions f (the (nodes w (hd as))). m' k = Some (hd as)))"
  using assms(2-7)
proof (induction as arbitrary: w m A)
  case Nil
  then show ?case by (intro exI [of _ w] exI [of _ m]) simp
next
  case (Cons a as)
  from Cons.prems(5) obtain nd where nd: "nodes w a = Some nd" "fresh_node nd" by auto
  note F = fresh_nodeD [OF nd(2)]
  have "a \<noteq> 0" using Cons.prems(4) by auto
  from conhash_add_node_runs [OF Cons.prems(1) assms(1) Cons.prems(2) this nd(1) F, of junk] obtain w1 m1 where
    w1: "conhash_add_node mal junk a w = Some (w1, 0)" "hashf w1 = Some f" "ring_state True w1 m1"
      "nodes w1 = (nodes w)(a \<mapsto> nd\<lparr>flag := flag nd OR NODE_FLAG_IN\<rparr>)"
    and g: "grown (malloc_serves mal) a (positions f nd) m m1" by (auto simp: runs_def)
  have n1: "nodes w1 = (nodes w)(a \<mapsto> inserted nd)" using w1(4) nd(2) by (simp add: inserted_def fresh_node_def)
  note own = owned_grown [OF Cons.prems(6) g nd(1) n1]
  have "\<forall>b \<in> set as. \<exists>nd. nodes w1 b = Some nd \<and> fresh_node nd" using Cons.prems(3,5) unfolding n1 by auto
  from Cons.IH [OF w1(3,2) _ _ this own] Cons.prems(3,4) obtain w' m' where
    w': "add_nodes mal junk as w1 = Some w'" "ring_state True w' m'" "hashf w' = Some f"
      "nodes w' = (\<lambda>b. if b \<in> set as then map_option inserted (nodes w1 b) else nodes w1 b)" "owned f w' m' (insert a A \<union> set as)"
      "m1 \<subseteq>\<^sub>m m'"
    by auto
  have "nodes w' = (\<lambda>b. if b \<in> set (a # as) then map_option inserted (nodes w b) else nodes w b)"
    unfolding w'(4) n1 using Cons.prems(3) nd(1) by auto
  moreover have "m \<subseteq>\<^sub>m m'"
  proof (rule map_le_trans [OF _ w'(6)])
    from grown_add_keys [OF g] obtain H where "m1 = add_keys a H m" by blast
    then show "m \<subseteq>\<^sub>m m1" by (simp add: add_keys_le)
  qed
  moreover have "m' k = Some a" if "malloc_serves mal" "m = Map.empty" "k \<in> positions f nd" for k
  proof -
    have "m1 k = Some a" using g that by (auto simp: grown_def split: if_splits)
    with w'(6) show ?thesis unfolding map_le_def by (metis domI)
  qed
  ultimately show ?case using w'(1-3,5) w1(1) nd(1)
    by (intro exI [of _ w'] exI [of _ m']) simp
qed


lemma card_owned:
  assumes "owned f w m A" and "finite A"
  shows "card (dom m) \<le> (\<Sum>a \<in> A. unat (replicas (the (nodes w a))))"
proof -
  have "dom m \<subseteq> (\<Union>a \<in> A. positions f (the (nodes w a)))" using assms(1) unfolding owned_def by fastforce
  then have "card (dom m) \<le> card (\<Union>a \<in> A. positions f (the (nodes w a)))" by (intro card_mono) (simp_all add: assms(2) finite_positions)
  also have "\<dots> \<le> (\<Sum>a \<in> A. card (positions f (the (nodes w a))))" by (rule card_UN_le [OF assms(2)])
  also have "\<dots> \<le> (\<Sum>a \<in> A. unat (replicas (the (nodes w a))))" by (rule sum_mono) (rule card_positions)
  finally show ?thesis .
qed

text \<open>What a lookup prints, for the node it found.\<close>

definition result_line :: "(nat \<Rightarrow> cstr) \<Rightarrow> nat \<Rightarrow> nat \<Rightarrow> cstr" where
  "result_line nm i a = (if a = 0 then [] else found_line (object_text i) (nm a))"

lemma try_objects_runs:
  assumes "ring_state b w m" and "hashf w = Some f" and "card (dom m) < 2 ^ 32"
    and "\<forall>k a. m k = Some a \<longrightarrow> (\<exists>nd. nodes w a = Some nd \<and> cstr_of (iden nd) = Some (nm a))"
  shows "try_objects is w = Some (concat (map (\<lambda>i. result_line nm i (owner m (f (object_text i)))) is))"
proof (induction "is")
  case Nil
  then show ?case by simp
next
  case (Cons i "is")
  let ?a = "owner m (f (object_text i))"
  have "\<exists>nd. nodes w ?a = Some nd \<and> cstr_of (iden nd) = Some (nm ?a)" if "?a \<noteq> 0"
  proof -
    have "dom m \<noteq> {}" using that by (auto simp: owner_def)
    from owner_in [OF ring_state_finite [OF assms(1)] this, of "f (object_text i)"] assms(4) show ?thesis by blast
  qed
  with conhash_lookup_runs [OF assms(1-3), of "object_text i"] Cons.IH show ?case by (auto simp: result_line_def)
qed

lemma conhash_fini_runs:
  assumes "ring_state b w m"
  shows "\<exists>w'. conhash_fini w = Some w' \<and> chash w' = None \<and> vnodes w' = Map.empty \<and> nodes w' = nodes w"
proof -
  from assms obtain xs where "ring_rel b w xs m" by (auto simp: ring_state_def)
  then obtain ch where ch: "chash w = Some ch" "tree_ok b (vnode_tree ch) xs" "entries_ok xs (vnodes w) m" by (rule ring_relE)
  from fini_loop_runs [OF this] ch(1) show ?thesis by (auto simp: conhash_fini_def)
qed

text \<open>The nodes of the program.\<close>

definition sample_name :: "nat \<Rightarrow> nat \<Rightarrow> cstr" where
  "sample_name g a = fst (sample_nodes ! (a - g))"

lemma sample_node_fields:
  "i < 5 \<Longrightarrow> fresh_node (conhash_set_node zero_node (fst (sample_nodes ! i)) (snd (sample_nodes ! i)))"
  "i < 5 \<Longrightarrow> cstr_of (iden (conhash_set_node zero_node (fst (sample_nodes ! i)) (snd (sample_nodes ! i)))) = Some (fst (sample_nodes ! i))"
proof -
  have "\<forall>i \<in> set [0..<5]. fresh_node (conhash_set_node zero_node (fst (sample_nodes ! i)) (snd (sample_nodes ! i))) \<and>
      cstr_of (iden (conhash_set_node zero_node (fst (sample_nodes ! i)) (snd (sample_nodes ! i)))) = Some (fst (sample_nodes ! i))"
    unfolding fresh_node_def by code_simp
  then show "i < 5 \<Longrightarrow> fresh_node (conhash_set_node zero_node (fst (sample_nodes ! i)) (snd (sample_nodes ! i)))"
    "i < 5 \<Longrightarrow> cstr_of (iden (conhash_set_node zero_node (fst (sample_nodes ! i)) (snd (sample_nodes ! i)))) = Some (fst (sample_nodes ! i))"
    by simp_all
qed


lemma vnodes_num:
  assumes "ring_state b w m" and "card (dom m) < 2 ^ 31"
  shows "format_d (sint (conhash_get_vnodes_num w)) = decimal (card (dom m))"
proof -
  from assms(1) obtain xs where R: "ring_rel b w xs m" by (auto simp: ring_state_def)
  then obtain ch where "chash w = Some ch" "ivnodes ch = of_nat (length xs)" by (rule ring_relE)
  with ring_rel_card [OF R] sint_index [OF assms(2)] show ?thesis by (simp add: conhash_get_vnodes_num_def format_d_def)
qed

lemma sample_built:
  assumes "malloc_fresh mal" and "0 < g" and "ring_state True w Map.empty" and "hashf w = Some f" and "nodes w = g_nodes g"
  shows "\<exists>w0 w' m. set_nodes g sample_nodes w = Some w0 \<and> add_nodes mal junk [g, g + 1, g + 2, g + 3, g + 4] w0 = Some w' \<and>
     ring_state True w' m \<and> hashf w' = Some f \<and> card (dom m) \<le> 139 \<and> owned f w' m {g..<g + 5} \<and>
     (\<forall>i < 5. nodes w' (g + i) = Some (inserted (conhash_set_node zero_node (fst (sample_nodes ! i)) (snd (sample_nodes ! i))))) \<and>
     (malloc_serves mal \<longrightarrow> (\<exists>k. m k = Some g))"
proof -
  let ?nd = "\<lambda>i. conhash_set_node zero_node (fst (sample_nodes ! i)) (snd (sample_nodes ! i))"
  have len: "length sample_nodes = 5" by (simp add: sample_nodes_def)
  have "\<forall>i < length sample_nodes. nodes w (g + i) = Some zero_node" unfolding len assms(5) by (simp add: g_nodes_def)
  from set_nodes_runs [OF this] obtain ns where ns: "set_nodes g sample_nodes w = Some (w\<lparr>nodes := ns\<rparr>)" "dom ns = dom (nodes w)"
    "\<forall>i < 5. ns (g + i) = Some (?nd i)" unfolding len by blast
  let ?as = "[g, g + 1, g + 2, g + 3, g + 4]" and ?w0 = "w\<lparr>nodes := ns\<rparr>"
  have as: "set ?as = {g..<g + 5}" by auto
  have at: "nodes ?w0 (g + i) = Some (?nd i)" if "i < 5" for i using ns(3) that by simp
  have "ring_state True ?w0 Map.empty"
    using assms(3) ns(2) by (simp add: ring_state_def ring_rel_def)
  moreover have "\<forall>a \<in> set ?as. \<exists>nd. nodes ?w0 a = Some nd \<and> fresh_node nd"
    using at [of 0] at [of 1] at [of 2] at [of 3] at [of 4] sample_node_fields(1) by auto
  moreover have "owned f ?w0 Map.empty {}" by (simp add: owned_def)
  moreover have "hashf ?w0 = Some f" using assms(4) by (simp add: hashf_def)
  ultimately obtain w' m where w': "add_nodes mal junk ?as ?w0 = Some w'" "ring_state True w' m" "hashf w' = Some f"
    "nodes w' = (\<lambda>a. if a \<in> set ?as then map_option inserted (nodes ?w0 a) else nodes ?w0 a)" "owned f w' m ({} \<union> set ?as)"
    "malloc_serves mal \<longrightarrow> ?as \<noteq> [] \<longrightarrow> (\<forall>k \<in> positions f (the (nodes ?w0 (hd ?as))). m k = Some (hd ?as))"
    using add_nodes_runs [OF assms(1), of ?w0 Map.empty f ?as "{}" junk] assms(2) by auto
  have n: "nodes w' (g + i) = Some (inserted (?nd i))" if "i < 5" for i
    using at [OF that] that unfolding w'(4) as by simp
  have own: "owned f w' m {g..<g + 5}" using w'(5) unfolding as by simp
  have "(\<Sum>a \<in> {g..<g + 5}. unat (replicas (the (nodes w' a)))) = (\<Sum>i \<in> {0..<5}. unat (snd (sample_nodes ! i)))"
  proof (intro sum.reindex_bij_witness [of _ "\<lambda>i. g + i" "\<lambda>a. a - g"])
    fix a assume "a \<in> {g..<g + 5}"
    then have "a - g < 5" "a = g + (a - g)" by auto
    with n [of "a - g"] show "unat (snd (sample_nodes ! (a - g))) = unat (replicas (the (nodes w' a)))"
      by (simp add: inserted_def conhash_set_node_def)
  qed auto
  also have "{0..<5} = {0, 1, 2, 3, 4 :: nat}" by auto
  also have "(\<Sum>i \<in> \<dots>. unat (snd (sample_nodes ! i))) = 139" by (simp add: sample_nodes_def)
  finally have "card (dom m) \<le> 139" using card_owned [OF own] by simp
  moreover have "\<exists>k. m k = Some g" if "malloc_serves mal"
  proof -
    have "replica_pos f (?nd 0) 0 \<in> positions f (?nd 0)"
      unfolding positions_def by (rule imageI) (simp add: conhash_set_node_def sample_nodes_def)
    with w'(6) that at [of 0] show ?thesis by auto
  qed
  ultimately show ?thesis using ns(1) w'(1-3) n own by blast
qed


section \<open>Properties\<close>

text \<open>
  The output, for the numbers of virtual nodes and the nodes of the objects before and after the
  removal; 0 stands for no node.
\<close>

definition sample_text :: "nat \<Rightarrow> (nat \<Rightarrow> nat) \<Rightarrow> (nat \<Rightarrow> nat) \<Rightarrow> nat \<Rightarrow> nat \<Rightarrow> cstr" where
  "sample_text g p q n n' =
     bytes ''virtual nodes number '' @ decimal n @ [10] @ results_head @
     concat (map (\<lambda>i. result_line (sample_name g) i (p i)) [0..<20]) @
     bytes ''remove node['' @ bytes ''Xenomorph'' @ bytes ''], virtual nodes number '' @ decimal n' @ [10] @ results_head @
     concat (map (\<lambda>i. result_line (sample_name g) i (q i)) [0..<20])"

definition named :: "nat \<Rightarrow> heap \<Rightarrow> bool" where
  "named g w \<longleftrightarrow> (\<forall>a \<in> {g..<g + 5}. \<exists>x. nodes w a = Some x \<and> cstr_of (iden x) = Some (sample_name g a))"

definition built :: "nat \<Rightarrow> (cstr \<Rightarrow> int) \<Rightarrow> heap \<Rightarrow> (int \<rightharpoonup> nat) \<Rightarrow> bool" where
  "built g f w m \<longleftrightarrow> ring_state True w m \<and> hashf w = Some f \<and> owned f w m {g..<g + 5} \<and>
     (\<forall>i < 5. nodes w (g + i) = Some (inserted (conhash_set_node zero_node (fst (sample_nodes ! i)) (snd (sample_nodes ! i)))))"

lemma built_named:
  assumes "built g f w m"
  shows "named g w"
  unfolding named_def
proof
  fix a assume "a \<in> {g..<g + 5}"
  then obtain i where i: "i < 5" "a = g + i" using le_iff_add by auto
  with assms sample_node_fields(2) [OF i(1)] show "\<exists>x. nodes w a = Some x \<and> cstr_of (iden x) = Some (sample_name g a)"
    by (simp add: built_def sample_name_def inserted_def)
qed

text \<open>The removal of the third node.\<close>

lemma sample_removed:
  assumes "built g f w m" and "0 < g"
  shows "\<exists>w' m'. conhash_del_node (g + 2) w = Some (w', 0) \<and> ring_state False w' m' \<and> hashf w' = Some f \<and> named g w' \<and>
     m' \<subseteq>\<^sub>m m \<and> (\<forall>k. m' k \<noteq> Some (g + 2)) \<and> (\<forall>k. m k = Some g \<longrightarrow> m' k = Some g) \<and>
     (\<forall>h. owner m h \<noteq> g + 2 \<longrightarrow> owner m' h = owner m h)"
proof -
  define nd where "nd = inserted (conhash_set_node zero_node (fst (sample_nodes ! 2)) (snd (sample_nodes ! 2)))"
  let ?m = "del_keys (g + 2) (positions f nd) m"
  from assms(1) have r: "ring_state True w m" "hashf w = Some f" "owned f w m {g..<g + 5}" by (simp_all add: built_def)
  have two: "nodes w (g + 2) = Some nd" using assms(1) unfolding built_def nd_def by (auto dest: spec [of _ 2])
  have in2: "0 \<in> set (iden nd)" "flag nd AND NODE_FLAG_INIT \<noteq> 0" "flag nd AND NODE_FLAG_IN \<noteq> 0"
    using fresh_nodeD(1) [OF sample_node_fields(1), of 2] by (simp_all add: nd_def inserted_def NODE_FLAG_INIT_def NODE_FLAG_IN_def)
  from conhash_del_node_runs [OF r(1,2) _ two in2] assms(2) obtain w' where
    w': "conhash_del_node (g + 2) w = Some (w', 0)" "hashf w' = Some f" "ring_state False w' ?m"
      "nodes w' = (nodes w)(g + 2 \<mapsto> nd\<lparr>flag := flag nd AND NOT NODE_FLAG_IN\<rparr>)" by (auto simp: runs_def)
  have gone: "?m k \<noteq> Some (g + 2)" for k
  proof
    assume "?m k = Some (g + 2)"
    then have "m k = Some (g + 2)" "k \<notin> positions f nd" by (auto simp: del_keys_def split: if_splits)
    with r(3) two show False unfolding owned_def by (metis option.inject)
  qed
  have named: "named g w'"
  proof -
    have "g + 2 \<in> {g..<g + 5}" by simp
    with built_named [OF assms(1)] two have "cstr_of (iden nd) = Some (sample_name g (g + 2))"
      unfolding named_def by (metis option.inject)
    with built_named [OF assms(1)] show ?thesis unfolding named_def w'(4) by (simp del: add_2_eq_Suc')
  qed
  have "?m k = Some g" if "m k = Some g" for k using that by (simp add: del_keys_def)
  moreover have "owner ?m h = owner m h" if "owner m h \<noteq> g + 2" for h
    by (rule owner_del_keys [OF ring_state_finite [OF r(1)] that])
  ultimately show ?thesis using w'(1-3) named gone del_keys_le
    by - (rule exI [of _ w'], rule exI [of _ ?m], simp del: add_2_eq_Suc')
qed

lemma owner_zero_or:
  assumes "finite (dom m)" and "\<forall>k a. m k = Some a \<longrightarrow> a \<in> A"
  shows "owner m h \<in> insert 0 A" "dom m \<noteq> {} \<Longrightarrow> owner m h \<in> A"
  using owner_in [OF assms(1), of h] assms(2) by (metis insertCI owner_def, metis)

lemma named_objects:
  assumes "ring_state b w m" and "hashf w = Some f" and "card (dom m) \<le> 139" and "named g w"
    and "\<forall>k a. m k = Some a \<longrightarrow> a \<in> {g..<g + 5}"
  shows "try_objects is w = Some (concat (map (\<lambda>i. result_line (sample_name g) i (owner m (f (object_text i)))) is))"
proof (rule try_objects_runs [OF assms(1,2)])
  show "\<forall>k a. m k = Some a \<longrightarrow> (\<exists>x. nodes w a = Some x \<and> cstr_of (iden x) = Some (sample_name g a))"
    using assms(4,5) unfolding named_def by blast
qed (use assms(3) in simp)

lemma sample_body_runs:
  assumes "malloc_fresh mal" and "0 < g" and "512 \<le> length hashes"
    and "ring_state True w Map.empty" and "hashf w = Some f" and "nodes w = g_nodes g"
  shows "\<exists>w' m b p q n n'. sample_body mal junk g hashes w = Some (w', sample_text g p q n n') \<and> ring_state b w' m \<and>
     n' \<le> n \<and> n \<le> 139 \<and> (\<forall>i. p i \<in> insert 0 {g..<g + 5} \<and> q i \<in> insert 0 {g..<g + 5}) \<and>
     (\<forall>i. q i \<noteq> g + 2 \<and> (p i \<noteq> g + 2 \<longrightarrow> q i = p i)) \<and> (malloc_serves mal \<longrightarrow> (\<forall>i. p i \<noteq> 0 \<and> q i \<noteq> 0))"
proof -
  from sample_built [OF assms(1,2,4-6), of junk] obtain w0 w1 m where
    w: "set_nodes g sample_nodes w = Some w0" "add_nodes mal junk [g, g + 1, g + 2, g + 3, g + 4] w0 = Some w1"
    and r: "ring_state True w1 m" "hashf w1 = Some f" "card (dom m) \<le> 139" and b: "built g f w1 m"
    and s: "malloc_serves mal \<longrightarrow> (\<exists>k. m k = Some g)" unfolding built_def by blast
  from sample_removed [OF b assms(2)] obtain w2 m2 where
    w2: "conhash_del_node (g + 2) w1 = Some (w2, 0)" "ring_state False w2 m2" "hashf w2 = Some f" "named g w2"
      "m2 \<subseteq>\<^sub>m m" "\<forall>k. m2 k \<noteq> Some (g + 2)" "\<forall>k. m k = Some g \<longrightarrow> m2 k = Some g" "\<forall>h. owner m h \<noteq> g + 2 \<longrightarrow> owner m2 h = owner m h"
    by blast
  note fin = ring_state_finite [OF r(1)] ring_state_finite [OF w2(2)]
  have card: "card (dom m2) \<le> card (dom m)" using fin(1) map_le_implies_dom_le [OF w2(5)] by (rule card_mono)
  have A: "\<forall>k a. m k = Some a \<longrightarrow> a \<in> {g..<g + 5}" using b unfolding built_def owned_def by blast
  have A2: "\<forall>k a. m2 k = Some a \<longrightarrow> a \<in> {g..<g + 5}" using A w2(5) unfolding map_le_def by (metis domI)
  let ?p = "\<lambda>i. owner m (f (object_text i))" and ?q = "\<lambda>i. owner m2 (f (object_text i))"
  note named_objects [OF r built_named [OF b] A, of "[0..<20]"]
  moreover have "card (dom m2) \<le> 139" using card r(3) by simp
  note named_objects [OF w2(2,3) this w2(4) A2, of "[0..<20]"]
  moreover obtain vs where "conhash_get_vnodes w1 (Some hashes) 512 = Some vs"
    using conhash_get_vnodes_runs [OF r(1) _ assms(3)] by auto
  moreover from w2(4) obtain x where "nodes w2 (g + 2) = Some x" "cstr_of (iden x) = Some (bytes ''Xenomorph'')"
    unfolding named_def by (auto simp: sample_name_def sample_nodes_def dest: bspec [of _ _ "g + 2"])
  moreover note vnodes_num [OF r(1)] vnodes_num [OF w2(2)]
  ultimately have run: "sample_body mal junk g hashes w = Some (w2, sample_text g ?p ?q (card (dom m)) (card (dom m2)))"
    using w w2(1) r(3) card by (simp add: sample_body_def sample_text_def del: add_nodes.simps add_2_eq_Suc')
  have in5: "?p i \<in> insert 0 {g..<g + 5}" "?q i \<in> insert 0 {g..<g + 5}" for i
    by (rule owner_zero_or(1) [OF fin(1) A], rule owner_zero_or(1) [OF fin(2) A2])
  have gone: "?q i \<noteq> g + 2" for i
  proof (cases "dom m2 = {}")
    case False
    with owner_in [OF fin(2) this, of "f (object_text i)"] w2(6) show ?thesis by metis
  qed (simp add: owner_def)
  have found: "?p i \<noteq> 0 \<and> ?q i \<noteq> 0" if "malloc_serves mal" for i
  proof -
    from s w2(7) that have "dom m \<noteq> {}" "dom m2 \<noteq> {}" by fastforce+
    from owner_zero_or(2) [OF fin(1) A this(1)] owner_zero_or(2) [OF fin(2) A2 this(2)]
    have "?p i \<in> {g..<g + 5}" "?q i \<in> {g..<g + 5}" .
    with assms(2) show ?thesis by auto
  qed
  show ?thesis using run w2(2,8) card r(3) in5 gone found
    by - (rule exI [of _ w2], rule exI [of _ m2], rule exI [of _ False], rule exI [of _ ?p], rule exI [of _ ?q],
      rule exI [of _ "card (dom m)"], rule exI [of _ "card (dom m2)"], simp)
qed

text \<open>
  C11. The sample program, for every hash function, every allocator and every place of its nodes, runs to its end
  without a fault, prints its text, and frees the ring: of at most 139 virtual nodes none is added by the removal; the
  objects are on the five nodes, and on one of them unless memory runs out; after the removal none is on the
  node that was removed, and an object that was not on it is where it was.  Without memory for the ring it
  prints nothing.
\<close>

theorem sample_correct:
  assumes "malloc_fresh mal" and "0 < g" and "512 \<le> length hashes"
    and "vnodes w = Map.empty" and "nodes w = g_nodes g"
  shows "(\<exists>w' p q n n'. sample_main hdef mal junk True g hashes w = Some (w', sample_text g p q n n') \<and>
        chash w' = None \<and> vnodes w' = Map.empty \<and> n' \<le> n \<and> n \<le> 139 \<and>
        (\<forall>i. p i \<in> insert 0 {g..<g + 5} \<and> q i \<in> insert 0 {g..<g + 5}) \<and>
        (\<forall>i. q i \<noteq> g + 2 \<and> (p i \<noteq> g + 2 \<longrightarrow> q i = p i)) \<and> (malloc_serves mal \<longrightarrow> (\<forall>i. p i \<noteq> 0 \<and> q i \<noteq> 0))) \<and>
     sample_main hdef mal junk False g hashes w = Some (w\<lparr>chash := None\<rparr>, [])"
proof
  have "finite (dom (nodes w))"
    by (rule finite_subset [of _ "{g..<g + 64}"]) (auto simp: assms(5) g_nodes_def split: if_splits)
  from conhash_init_runs [OF assms(4) this, of hdef None] obtain w0 where
    w0: "conhash_init hdef None True w = Some w0" "ring_state True w0 Map.empty" "hashf w0 = Some hdef" "nodes w0 = g_nodes g"
    by (auto simp: assms(5))
  from sample_body_runs [OF assms(1-3) w0(2-4), of junk] obtain w1 m b p q n n' where
    body: "sample_body mal junk g hashes w0 = Some (w1, sample_text g p q n n')" "ring_state b w1 m"
    and P: "n' \<le> n \<and> n \<le> 139 \<and> (\<forall>i. p i \<in> insert 0 {g..<g + 5} \<and> q i \<in> insert 0 {g..<g + 5}) \<and>
     (\<forall>i. q i \<noteq> g + 2 \<and> (p i \<noteq> g + 2 \<longrightarrow> q i = p i)) \<and> (malloc_serves mal \<longrightarrow> (\<forall>i. p i \<noteq> 0 \<and> q i \<noteq> 0))" by blast
  from conhash_fini_runs [OF body(2)] obtain w' where w': "conhash_fini w1 = Some w'" "chash w' = None" "vnodes w' = Map.empty" by blast
  have "chash w0 \<noteq> None" by (rule hashf_some [OF w0(3)])
  with w0(1) body(1) w'(1) have "sample_main hdef mal junk True g hashes w = Some (w', sample_text g p q n n')" by (simp add: sample_main_def)
  with w'(2,3) P show "\<exists>w' p q n n'. sample_main hdef mal junk True g hashes w = Some (w', sample_text g p q n n') \<and>
        chash w' = None \<and> vnodes w' = Map.empty \<and> n' \<le> n \<and> n \<le> 139 \<and>
        (\<forall>i. p i \<in> insert 0 {g..<g + 5} \<and> q i \<in> insert 0 {g..<g + 5}) \<and>
        (\<forall>i. q i \<noteq> g + 2 \<and> (p i \<noteq> g + 2 \<longrightarrow> q i = p i)) \<and> (malloc_serves mal \<longrightarrow> (\<forall>i. p i \<noteq> 0 \<and> q i \<noteq> 0))" by blast
qed (simp add: sample_main_def conhash_init_def conhash_fini_def)

section \<open>Witness\<close>

definition sample_heap :: heap where
  "sample_heap = \<lparr>chash = None, vnodes = Map.empty, nodes = g_nodes 1, clock = 0\<rparr>"

theorem sample_witness:
  "\<exists>w' out. sample_main byte_sum first_fit no_rbnode True 1 (replicate 512 0) sample_heap = Some (w', out) \<and> vnodes w' = Map.empty"
  using sample_correct [OF first_fit_ok(1), of 1 "replicate 512 0" sample_heap byte_sum no_rbnode] by (auto simp: sample_heap_def)

end
