(* ===== verification/Spec2Isabelle.thy ===== *)
theory Spec2Isabelle
  imports RbTheorems Md5Theorems ConHashTheorems ConsistentHash LruTheorems ServerList LockedQueue EndPoint WorkPool CacheTheorems MasterTheorems Programs LogFile UdpClient Sample
begin

text \<open>
  A verification of the distributed cache of this repository: a master that places keys on cache
  servers by consistent hashing, the cache servers, and the C library under both.  This theory is
  the root; it imports all others.

  \<^bold>\<open>The program.\<close>  A cache server (\<open>src/cache_server\<close>) connects to the master and sends the port it
  listens on.  The master (\<open>src/master_server\<close>) enters the connection in its tables, the listening address
  in a consistent hash (\<open>src/consistent_hash.h\<close> over \<open>src/conhash\<close>) and the connection address in a ring
  of servers (\<open>serverList.h\<close>), sends the list of listening addresses to all servers, which build the same
  hash from it, and tells them to move data and where to keep backups.  Clients ask the master by UDP for
  the server of a key.  When the connection of a server closes, the master takes it out of its tables
  and tells its neighbours in the ring.  A cache server keeps its data and the backup of its
  predecessor in two caches with least-recently-used eviction (\<open>lru.h\<close>).  Both programs have an event loop, a
  pool of threads with a queue of requests, and a log (\<open>src/log\<close>) with a blocking queue.

  \<^bold>\<open>Theories and code.\<close>
  \<^item> \<^theory_text>\<open>Prelude\<close>: the types of the C integers, programs that may fault as functions into \<open>option\<close>, the
    predicate \<open>runs\<close> (total correctness), the contract of \<open>new\<close>.
  \<^item> \<^theory_text>\<open>RbTree\<close>: \<open>conhash/util_rbtree.c\<close> and \<open>.h\<close>, function by function, over a heap of nodes with a sentinel.
    \<^theory_text>\<open>RbAbs\<close> (the tree in the heap as paths and subtrees), \<^theory_text>\<open>RbInsert\<close>, \<^theory_text>\<open>RbQuery\<close>, \<^theory_text>\<open>RbDelete\<close>, \<^theory_text>\<open>RbRemove\<close>: the
    loops against functions on abstract trees; \<^theory_text>\<open>RbTheorems\<close>: the properties.
  \<^item> \<^theory_text>\<open>Md5\<close>: \<open>conhash/md5.c\<close>; \<^theory_text>\<open>Md5Spec\<close>: RFC 1321 and the invariant of the streaming state;
    \<^theory_text>\<open>Md5Theorems\<close>: the code computes it.
  \<^item> \<^theory_text>\<open>ConHash\<close>: \<open>conhash.c\<close>, \<open>conhash_inter.c\<close>, \<open>conhash_util.c\<close> over a heap of nodes and virtual nodes;
    \<^theory_text>\<open>Ring\<close>: the interface \<open>key_ring\<close> of an ordered store and its interpretation by the red-black tree;
    \<^theory_text>\<open>ConHashSpec\<close> (the abstract ring, a map from positions to nodes), \<^theory_text>\<open>ConHashRefine\<close>,
    \<^theory_text>\<open>ConHashText\<close>, \<^theory_text>\<open>ConHashTheorems\<close>: refinement and minimal disruption.
  \<^item> \<^theory_text>\<open>ConsistentHash\<close>: the class \<open>con_hash\<close>; its abstract ring maps positions to server names, and
    \<open>ring_of f ns\<close> is the ring after registering \<open>ns\<close> in this order.
  \<^item> \<^theory_text>\<open>DList\<close>: both doubly linked lists with their destructors, and the interface \<open>sentinel_list\<close>, interpreted for
    each; \<^theory_text>\<open>Lru\<close>, \<^theory_text>\<open>LruTheorems\<close>: \<open>LRUCache\<close> and \<open>ThreadSafeLRUCache\<close> of \<open>lru.h\<close>; \<^theory_text>\<open>ServerList\<close>: \<open>serverList.h\<close>
    and the interface \<open>server_ring\<close> that the master uses.
  \<^item> \<^theory_text>\<open>Decimal\<close>, \<^theory_text>\<open>EndPoint\<close>: numbers and addresses as text (\<open>endPoint.h\<close>).
  \<^item> \<^theory_text>\<open>Wire\<close>: the codes of \<open>config.h\<close>, the loops that scan messages, \<open>std::map\<close> as a sorted list, the sockets,
    and the record \<open>env\<close> of what stays the same while a server runs.
  \<^item> \<^theory_text>\<open>WorkPool\<close>: \<open>append\<close>, \<open>run\<close>, \<open>threadInit\<close> of both servers and the machine of the threads;
    \<^theory_text>\<open>Locker\<close>: \<open>locker.h\<close> over the calls of POSIX; \<^theory_text>\<open>BlockQueue\<close>: \<open>block_queue.h\<close> and its machine of threads, \<^theory_text>\<open>LockedQueue\<close>:
    the same code statement by statement with the locks, and its refinement; \<^theory_text>\<open>LogFile\<close>: \<open>log.h\<close>, \<open>log.cpp\<close>.
  \<^item> \<^theory_text>\<open>CacheServer\<close>, \<^theory_text>\<open>CacheTheorems\<close>: \<open>cache_service.h\<close>, \<open>cache_service.cpp\<close>.
  \<^item> \<^theory_text>\<open>MasterServer\<close>: \<open>master_service.h\<close>, \<open>master_service.cpp\<close>; \<^theory_text>\<open>MasterRuns\<close>: the invariant \<open>master_ok\<close> of the
    tables, the relation \<open>hash_rel\<close> of the hash, and what every operation does to them; \<^theory_text>\<open>MasterTheorems\<close>: reachable
    states and the properties.
  \<^item> \<^theory_text>\<open>Cluster\<close>: master and cache servers together; \<^theory_text>\<open>Programs\<close>: \<open>config.cpp\<close>, \<open>cache_server.cpp\<close>,
    \<open>master_server.cpp\<close>, and what is reached from \<open>main\<close> by the event loops; \<^theory_text>\<open>UdpClient\<close>: \<open>client/udpClient.cpp\<close>
    and a lookup from client to answer; \<^theory_text>\<open>Sample\<close>: \<open>conhash/sample.c\<close>, which runs the library from start to end.

  \<^bold>\<open>Conventions.\<close>  A C structure or class is a record with the source's members; a function is a definition with
  its name, prefixed where both servers have it.  \<open>None\<close> is what the language leaves without a
  meaning or what ends the process: the dereference of a null, freed or wild pointer, an access outside an
  array, a string without an end, a failed \<open>assert\<close>.  A property that an operation returns therefore says that it is safe.
  C integers are words where they wrap (hash values, MD5, ports, bytes) and \<open>int\<close> where the code keeps
  them in range; the lemmas state the ranges.  Pointers are numbers in an explicit heap, with 0 for
  \<open>nullptr\<close>.  A function without a \<open>return\<close> has its result as a parameter.  Loops over a structure are
  structural recursion, an event loop goes over the list of what its waits return; the loops over pointers are \<open>partial_function (option)\<close>, so that a run
  that does not end is \<open>None\<close> as well, and the properties prove that they return.  No definition has fuel: the count
  of \<open>async_rounds\<close> is the number of rounds that the thread makes, and the theorem takes as many as the queue
  has lines.

  \<^bold>\<open>What is shown.\<close>
  \<^item> The tree: insertion and deletion keep the red-black invariants and change exactly one element; the lookup
    finds the next key round the ring.  The digest is MD5.  The hash refines a map from positions to nodes;
    adding or removing a node moves only keys to it or from it.
  \<^item> The caches hold the most recently used keys; the blocking queue is first-in first-out for any
    interleaving of statements, without deadlock, and wakes its readers; the request queue loses and reorders nothing; the log puts
    every line in one file, in order, as long as it is synchronous.
  \<^item> The master, from \<open>main\<close> on, keeps its tables and rings consistent and does not fault, but only under two
    hypotheses that the code does not check.  Registrations have to be admitted (\<open>request_ok\<close>): of an open connection that is
    not registered yet, with a listening address that was never registered, and with fewer than 45 servers before it;
    three theorems show what happens otherwise (\<open>master_reregister_faults\<close>, \<open>master_register_twice\<close>,
    \<open>master_update_hash_bound\<close>).  Input has to be sound (\<open>event_sound\<close>): datagrams with a zero byte in the buffer, port numbers that fit an
    \<open>int\<close>; an event without it does fault.  Registration and departure send exactly the messages they should.
    A client that asks an idle master for a key prints the server that the ring of the registered names has for it.
  \<^item> Under the same hypotheses every message that the master sends fits the buffer of the receiver, and a cache
    server does what the message says.
  \<^item> Master and caches compute the same server for a key while all servers that ever registered are
    there and their positions differ; after a departure they do not, since the master keeps the server in its hash.
  \<^item> Defects, each as a theorem on the faithful model: a value that a client stores is lost, accepted
    clients are never heard, migration sends nothing, a server that returns makes the master read a freed
    node, messages that arrive together are misread, and lines overtake each other in the asynchronous log.

  \<^bold>\<open>Bounds.\<close>  The list of servers is printed into 1024 bytes: 45 servers always fit, which is why the
  invariant of the master is stated up to 45.  The hash counts at most \<open>2 ^ 32\<close> virtual nodes; a
  server has 32.  A line of the log has 28 bytes and the level before its text.  MD5 is for strings below \<open>2 ^ 28\<close> bytes.

  \<^bold>\<open>Not modelled.\<close>  The handlers of the servers are steps that are not interrupted; interleaving is modelled in
  the queues, in the race of the cache, and between the handlers.  Log messages, pauses and printing are left out
  of the servers.  \<open>vsnprintf\<close> is the text that it makes; \<open>getopt\<close> is the list of options that it returns.
  \<open>fflush\<close> and the printing of a list for tests have no effect on the state.  A \<open>send\<close> on an open descriptor takes all its
  bytes; short writes, broken connections and the reuse of a descriptor between a \<open>close\<close> and the next call are left out, and so is
  the padding of \<open>sockaddr_in\<close>.  \<open>conhash_lookup2\<close> and
  \<open>conhash_update_node\<close> are declared but defined nowhere.
\<close>

end
